(* ===== verification/Prelude.thy ===== *)
theory Prelude
  imports Main "HOL-Library.Word"
begin

text \<open>
  The shared vocabulary of the development.

  \<^item> Machine integers of the C code (\<open>uchar\<close>, \<open>ushort\<close>, \<open>uint\<close> of \<open>src/types.h\<close>) as words.
  \<^item> The kernel monad: a kernel routine takes the kernel state and ends in one of five
    outcomes: it returns, it calls \<open>panic\<close>, it does something C leaves undefined (an index
    out of an array, a null dereference), it switches to the scheduler (to sleep, to yield or to
    exit; the state says which), or it spins for ever.
  \<^item> Loop combinators for the C loops over an index range, with and without early return.
  \<^item> A weakest-precondition transformer whose postcondition is about returning runs only
    when the run does return: \<open>wp\<close> excludes panics, undefined behaviour and switching away.
  \<^item> Frame reasoning (\<open>keeps\<close>): what a routine leaves alone, as a relation between the
    state before and after it, closed under sequencing.
\<close>

section \<open>Machine integers\<close>

type_synonym u8 = "8 word"
type_synonym u16 = "16 word"
type_synonym u32 = "32 word"

lemma unat_u32: "unat (x :: u32) < 4294967296"
proof -
  have "unat x < 2 ^ LENGTH(32)" by (rule unsigned_less)
  then show ?thesis by simp
qed

lemma unat_of_nat_u32: "n < 4294967296 \<Longrightarrow> unat (of_nat n :: u32) = n"
  by (simp add: unat_of_nat)

lemma uint_eq_uint [simp]: "uint (a :: 'a::len word) = uint b \<longleftrightarrow> a = b"
  by (simp add: word_uint_eq_iff)

lemma uint_eq_zero [simp]: "uint (a :: 'a::len word) = 0 \<longleftrightarrow> a = 0"
  by (simp add: word_uint_eq_iff)

named_theorems kdefs \<open>definitions of kernel routines that proofs unfold\<close>
named_theorems wp_intros \<open>weakest-precondition rules for loops\<close>
named_theorems frame_intros \<open>frame facts of kernel routines\<close>

section \<open>Outcomes and the kernel monad\<close>

text \<open>What a process can sleep on (the \<open>chan\<close> argument of \<open>sleep\<close>), by the kernel object
  whose address the code passes.\<close>

datatype chan =
    ChProc nat        \<comment> \<open>a \<open>struct proc\<close>, by its index in \<open>ptable.proc\<close> (\<open>wait\<close>)\<close>
  | ChTicks           \<comment> \<open>\<open>&ticks\<close>\<close>
  | ChLog             \<comment> \<open>\<open>&log\<close>\<close>
  | ChBufLock nat     \<comment> \<open>the sleep lock of buffer \<open>bcache.buf[i]\<close>\<close>
  | ChInodeLock nat   \<comment> \<open>the sleep lock of inode \<open>icache.inode[i]\<close>\<close>
  | ChBuf nat         \<comment> \<open>a \<open>struct buf\<close> waiting for the disk\<close>
  | ChPipeRead u32    \<comment> \<open>\<open>&p->nread\<close> of the pipe at that address\<close>
  | ChPipeWrite u32   \<comment> \<open>\<open>&p->nwrite\<close>\<close>
  | ChInput           \<comment> \<open>\<open>&input.r\<close>\<close>

datatype ('s, 'a) outcome =
    Ok 'a 's
  | Panic string
  | Undef string
  | Switches 's
  | Spins

type_synonym ('s, 'a) kern = "'s \<Rightarrow> ('s, 'a) outcome"

definition ret :: "'a \<Rightarrow> ('s, 'a) kern" where
  "ret x s = Ok x s"

definition bnd :: "('s, 'a) kern \<Rightarrow> ('a \<Rightarrow> ('s, 'b) kern) \<Rightarrow> ('s, 'b) kern" where
  "bnd f g s = (case f s of
       Ok x t \<Rightarrow> g x t
     | Panic e \<Rightarrow> Panic e
     | Undef e \<Rightarrow> Undef e
     | Switches t \<Rightarrow> Switches t
     | Spins \<Rightarrow> Spins)"

definition sq :: "('s, 'a) kern \<Rightarrow> ('s, 'b) kern \<Rightarrow> ('s, 'b) kern" where
  "sq f g = bnd f (\<lambda>_. g)"

definition rd :: "('s \<Rightarrow> 'a) \<Rightarrow> ('s, 'a) kern" where
  "rd f s = Ok (f s) s"

definition upd :: "('s \<Rightarrow> 's) \<Rightarrow> ('s, unit) kern" where
  "upd f s = Ok () (f s)"

definition panic :: "string \<Rightarrow> ('s, 'a) kern" where
  "panic e s = Panic e"

definition undef :: "string \<Rightarrow> ('s, 'a) kern" where
  "undef e s = Undef e"

definition spins :: "('s, 'a) kern" where
  "spins s = Spins"

text \<open>\<open>whenb b f\<close> is \<open>if (b) f();\<close>.\<close>

definition whenb :: "bool \<Rightarrow> ('s, unit) kern \<Rightarrow> ('s, unit) kern" where
  "whenb b f = (if b then f else ret ())"

text \<open>\<open>steps [f, g, h]\<close> is \<open>f; g; h;\<close>.\<close>

fun steps :: "('s, unit) kern list \<Rightarrow> ('s, unit) kern" where
  "steps [] = ret ()"
| "steps (f # fs) = sq f (steps fs)"

text \<open>\<open>for_each xs f\<close> runs the body on each index in turn; \<open>scan xs f\<close> stops at the first body
  that returns a value, as a \<open>return\<close> or \<open>break\<close> inside the loop does.\<close>

fun for_each :: "'x list \<Rightarrow> ('x \<Rightarrow> ('s, unit) kern) \<Rightarrow> ('s, unit) kern" where
  "for_each [] f = ret ()"
| "for_each (x # xs) f = sq (f x) (for_each xs f)"

fun scan :: "'x list \<Rightarrow> ('x \<Rightarrow> ('s, 'a option) kern) \<Rightarrow> ('s, 'a option) kern" where
  "scan [] f = ret None"
| "scan (x # xs) f =
     bnd (f x) (\<lambda>r. case r of None \<Rightarrow> scan xs f | Some a \<Rightarrow> ret (Some a))"

lemmas monad_defs = ret_def bnd_def sq_def rd_def upd_def panic_def undef_def spins_def
  whenb_def

lemma bnd_Ok [simp]: "f s = Ok x t \<Longrightarrow> bnd f g s = g x t"
  by (simp add: bnd_def)

lemma sq_Ok [simp]: "f s = Ok x t \<Longrightarrow> sq f g s = g t"
  by (simp add: sq_def)

text \<open>Running the basic operations on a state.\<close>

lemma rd_eq: "rd f s = Ok (f s) s"
  by (simp add: rd_def)

lemma upd_eq: "upd f s = Ok () (f s)"
  by (simp add: upd_def)

lemma ret_eq: "ret x s = Ok x s"
  by (simp add: ret_def)

lemma whenb_eq: "whenb b f s = (if b then f s else Ok () s)"
  by (simp add: whenb_def ret_def)

lemma panic_eq: "panic e s = Panic e" and undef_eq: "undef e s = Undef e"
  by (simp_all add: monad_defs)

lemmas basic_runs = rd_eq upd_eq ret_eq whenb_eq panic_eq undef_eq

lemma bnd_ret [simp]: "bnd (ret x) g = g x"
  by (rule ext) (simp add: monad_defs)

lemma bnd_ret_right [simp]: "bnd f ret = f"
  by (rule ext) (simp add: monad_defs split: outcome.split)

lemma bnd_assoc: "bnd (bnd f g) h = bnd f (\<lambda>x. bnd (g x) h)"
  by (rule ext) (simp add: bnd_def split: outcome.split)

lemma bnd_eq_Ok: "bnd f g s = Ok b u \<longleftrightarrow> (\<exists>x t. f s = Ok x t \<and> g x t = Ok b u)"
  by (simp add: bnd_def split: outcome.split)

section \<open>Weakest preconditions\<close>

definition wp :: "('s, 'a) kern \<Rightarrow> ('a \<Rightarrow> 's \<Rightarrow> bool) \<Rightarrow> 's \<Rightarrow> bool" where
  "wp f Q s = (case f s of Ok x t \<Rightarrow> Q x t | _ \<Rightarrow> False)"

lemma wp_iff: "wp f Q s \<longleftrightarrow> (\<exists>x t. f s = Ok x t \<and> Q x t)"
  by (simp add: wp_def split: outcome.split)

lemma wp_Ok: "f s = Ok x t \<Longrightarrow> wp f Q s = Q x t"
  by (simp add: wp_def)

lemma wpE:
  assumes "wp f Q s"
  obtains x t where "f s = Ok x t" and "Q x t"
  using assms by (auto simp: wp_iff)

lemma wp_ret [simp]: "wp (ret x) Q = Q x"
  by (rule ext) (simp add: wp_def ret_def)

lemma wp_bnd [simp]: "wp (bnd f g) Q = wp f (\<lambda>x. wp (g x) Q)"
  by (rule ext) (simp add: wp_def bnd_def split: outcome.split)

lemma wp_sq [simp]: "wp (sq f g) Q = wp f (\<lambda>_. wp g Q)"
  by (simp add: sq_def)

lemma wp_rd [simp]: "wp (rd f) Q = (\<lambda>s. Q (f s) s)"
  by (rule ext) (simp add: wp_def rd_def)

lemma wp_upd [simp]: "wp (upd f) Q = (\<lambda>s. Q () (f s))"
  by (rule ext) (simp add: wp_def upd_def)

lemma wp_panic [simp]: "wp (panic e) Q = (\<lambda>_. False)"
  by (rule ext) (simp add: wp_def panic_def)

lemma wp_undef [simp]: "wp (undef e) Q = (\<lambda>_. False)"
  by (rule ext) (simp add: wp_def undef_def)

lemma wp_spins [simp]: "wp spins Q = (\<lambda>_. False)"
  by (rule ext) (simp add: wp_def spins_def)

lemma wp_whenb [simp]: "wp (whenb b f) Q = (if b then wp f Q else Q ())"
  by (simp add: whenb_def)

lemma wp_if: "wp (if b then f else g) Q s = (if b then wp f Q s else wp g Q s)"
  by simp

lemma wp_mono: "wp f P s \<Longrightarrow> (\<And>x t. P x t \<Longrightarrow> Q x t) \<Longrightarrow> wp f Q s"
  by (auto simp: wp_iff)

lemma wp_conj: "wp f P s \<Longrightarrow> wp f Q s \<Longrightarrow> wp f (\<lambda>x t. P x t \<and> Q x t) s"
  by (auto simp: wp_iff)

lemma wp_for_each [wp_intros]:
  assumes "\<And>x t. x \<in> set xs \<Longrightarrow> I t \<Longrightarrow> wp (f x) (\<lambda>_. I) t" and "I s"
    and "\<And>t. I t \<Longrightarrow> Q () t"
  shows "wp (for_each xs f) Q s"
  using assms
proof (induction xs arbitrary: s)
  case Nil
  then show ?case by simp
next
  case (Cons x xs)
  have "wp (f x) (\<lambda>_. I) s" using Cons.prems(1,2) by simp
  then show ?case
    by simp (rule wp_mono, assumption, rule Cons.IH, auto intro: Cons.prems)
qed

text \<open>The invariant may also say how far the loop has come.\<close>

lemma wp_for_each_upto [wp_intros]:
  assumes "\<And>i t. i < n \<Longrightarrow> I i t \<Longrightarrow> wp (f i) (\<lambda>_. I (Suc i)) t" and "I 0 s"
    and "\<And>t. I n t \<Longrightarrow> Q () t"
  shows "wp (for_each [0..<n] f) Q s"
proof -
  have "I k t \<Longrightarrow> k \<le> n \<Longrightarrow> wp (for_each [k..<n] f) Q t" for k t
  proof (induction "n - k" arbitrary: k t)
    case 0
    then show ?case using assms(3) by simp
  next
    case (Suc d)
    then have "k < n" by simp
    moreover have "wp (f k) (\<lambda>_. I (Suc k)) t" using assms(1) Suc.prems \<open>k < n\<close> by simp
    ultimately show ?case
      using Suc.hyps(1)[of "Suc k"] Suc.hyps(2)
      by (simp add: upt_conv_Cons) (erule wp_mono, simp)
  qed
  then show ?thesis using assms(2) by simp
qed

lemma wp_scan [wp_intros]:
  assumes "\<And>x t. x \<in> set xs \<Longrightarrow> I t \<Longrightarrow>
      wp (f x) (\<lambda>r u. case r of None \<Rightarrow> I u | Some a \<Rightarrow> Q (Some a) u) t"
    and "I s" and "\<And>t. I t \<Longrightarrow> Q None t"
  shows "wp (scan xs f) Q s"
  using assms
proof (induction xs arbitrary: s)
  case Nil
  then show ?case by simp
next
  case (Cons x xs)
  have "wp (f x) (\<lambda>r u. case r of None \<Rightarrow> I u | Some a \<Rightarrow> Q (Some a) u) s"
    using Cons.prems(1,2) by simp
  then show ?case
    by simp (rule wp_mono, assumption,
        auto split: option.split intro!: Cons.IH Cons.prems)
qed

section \<open>Frames\<close>

text \<open>\<open>keeps R f\<close>: whenever \<open>f\<close> returns, the states before and after are related by \<open>R\<close>. For a
  reflexive and transitive \<open>R\<close> this is closed under the monad's operations, so the frame of a
  routine follows from the frames of the routines it calls.\<close>

definition keeps :: "('s \<Rightarrow> 's \<Rightarrow> bool) \<Rightarrow> ('s, 'a) kern \<Rightarrow> bool" where
  "keeps R f \<longleftrightarrow> (\<forall>s x t. f s = Ok x t \<longrightarrow> R s t)"

lemma keepsI: "(\<And>s x t. f s = Ok x t \<Longrightarrow> R s t) \<Longrightarrow> keeps R f"
  by (simp add: keeps_def)

lemma keeps_Ok: "keeps R f \<Longrightarrow> f s = Ok x t \<Longrightarrow> R s t"
  by (simp add: keeps_def)

lemma keeps_mono: "keeps R f \<Longrightarrow> (\<And>s t. R s t \<Longrightarrow> R' s t) \<Longrightarrow> keeps R' f"
  by (auto simp: keeps_def)

lemma keeps_wp: "keeps R f \<Longrightarrow> wp f Q s \<Longrightarrow> wp f (\<lambda>x t. R s t \<and> Q x t) s"
  by (auto simp: wp_iff dest: keeps_Ok)

locale frame =
  fixes R :: "'s \<Rightarrow> 's \<Rightarrow> bool"
  assumes refl: "R s s"
    and trans: "R s t \<Longrightarrow> R t u \<Longrightarrow> R s u"
begin

lemma keeps_ret: "keeps R (ret x)"
  by (simp add: keeps_def ret_def refl)

lemma keeps_rd: "keeps R (rd f)"
  by (simp add: keeps_def rd_def refl)

lemma keeps_panic: "keeps R (panic e)"
  by (simp add: keeps_def panic_def)

lemma keeps_undef: "keeps R (undef e)"
  by (simp add: keeps_def undef_def)

lemma keeps_spins: "keeps R spins"
  by (simp add: keeps_def spins_def)

lemma keeps_upd: "(\<And>s. R s (f s)) \<Longrightarrow> keeps R (upd f)"
  by (simp add: keeps_def upd_def)

lemma keeps_bnd: "keeps R f \<Longrightarrow> (\<And>x. keeps R (g x)) \<Longrightarrow> keeps R (bnd f g)"
  unfolding keeps_def bnd_eq_Ok by (blast intro: trans)

lemma keeps_sq: "keeps R f \<Longrightarrow> keeps R g \<Longrightarrow> keeps R (sq f g)"
  unfolding sq_def by (rule keeps_bnd)

lemma keeps_whenb: "keeps R f \<Longrightarrow> keeps R (whenb b f)"
  by (simp add: whenb_def keeps_ret)

lemma keeps_if: "(b \<Longrightarrow> keeps R f) \<Longrightarrow> (\<not> b \<Longrightarrow> keeps R g) \<Longrightarrow> keeps R (if b then f else g)"
  by simp

lemma keeps_option: "keeps R f \<Longrightarrow> (\<And>x. keeps R (g x)) \<Longrightarrow> keeps R (case v of None \<Rightarrow> f | Some x \<Rightarrow> g x)"
  by (simp split: option.split)

lemma keeps_prod: "(\<And>x y. keeps R (g x y)) \<Longrightarrow> keeps R (case v of (x, y) \<Rightarrow> g x y)"
  by (simp split: prod.split)

lemma keeps_steps_Nil: "keeps R (steps [])"
  by (simp add: keeps_ret)

lemma keeps_steps_Cons: "keeps R f \<Longrightarrow> keeps R (steps fs) \<Longrightarrow> keeps R (steps (f # fs))"
  by (simp add: keeps_sq)

lemma keeps_for_each: "(\<And>x. keeps R (f x)) \<Longrightarrow> keeps R (for_each xs f)"
  by (induction xs) (simp_all add: keeps_ret keeps_sq)

lemma keeps_scan: "(\<And>x. keeps R (f x)) \<Longrightarrow> keeps R (scan xs f)"
  by (induction xs) (auto intro!: keeps_ret keeps_bnd keeps_option)

lemmas keeps_rules = keeps_ret keeps_rd keeps_panic keeps_undef keeps_spins keeps_bnd keeps_sq
  keeps_whenb keeps_if keeps_option keeps_prod keeps_for_each keeps_scan
  keeps_steps_Nil keeps_steps_Cons

end

section \<open>Lists and arrays\<close>

text \<open>\<open>find\<close> is the C idiom of walking a table from its first entry until one fits.\<close>

lemma find_SomeD:
  "find P xs = Some x \<Longrightarrow> x \<in> set xs \<and> P x"
  by (auto simp: find_Some_iff)

lemma find_upt_Some:
  assumes "find P [0..<n] = Some i"
  shows "i < n" and "P i" and "\<And>j. j < i \<Longrightarrow> \<not> P j"
  using assms by (auto simp: find_Some_iff)

lemma find_upt_None: "find P [0..<n] = None \<longleftrightarrow> (\<forall>i<n. \<not> P i)"
  by (auto simp: find_None_iff)

text \<open>Overwriting \<open>length ys\<close> elements of \<open>xs\<close> from position \<open>off\<close>: \<open>memmove\<close> into a buffer.\<close>

definition splice :: "'a list \<Rightarrow> nat \<Rightarrow> 'a list \<Rightarrow> 'a list" where
  "splice xs off ys = take off xs @ ys @ drop (off + length ys) xs"

lemma length_splice [simp]:
  "off + length ys \<le> length xs \<Longrightarrow> length (splice xs off ys) = length xs"
  by (simp add: splice_def)

lemma splice_read_back:
  "off + length ys \<le> length xs \<Longrightarrow> take (length ys) (drop off (splice xs off ys)) = ys"
  by (simp add: splice_def)

lemma nth_splice:
  assumes "off + length ys \<le> length xs" and "i < length xs"
  shows "splice xs off ys ! i =
    (if off \<le> i \<and> i < off + length ys then ys ! (i - off) else xs ! i)"
  using assms by (auto simp: splice_def nth_append min_def)

lemma splice_read_other:
  assumes "off + length ys \<le> length xs" "p + n \<le> length xs"
    and "p + n \<le> off \<or> off + length ys \<le> p"
  shows "take n (drop p (splice xs off ys)) = take n (drop p xs)"
  using assms by (intro nth_equalityI) (auto simp: nth_splice)

end
