(* ===== verification/Spinlock.thy ===== *)
theory Spinlock
  imports Prelude
begin

text \<open>
  Spin locks (\<open>src/spinlock.c\<close>), twice.

  The detailed model has the lock words, the per-CPU nesting counter \<open>ncli\<close>, the saved
  interrupt flag \<open>intena\<close> and the CPU's own interrupt flag, and one definition per C function.
  \<open>mach_step\<close> interleaves the CPUs at the granularity of the atomic \<open>xchg\<close> and shows mutual
  exclusion in every reachable machine state.

  The other components see a spin lock as the abstract one of the second part: the list of
  locks the running kernel thread holds. \<open>refine_run\<close> shows that the detailed functions
  implement it, panics included, so a component's critical sections are written with the
  abstract \<open>acquire\<close> and \<open>release\<close>.
\<close>

section \<open>The detailed model\<close>

text \<open>The spin locks of the kernel.\<close>

datatype lockid =
    PtableLock | TicksLock | LogLock | IcacheLock | BcacheLock | FtableLock
  | ConsLock | KmemLock | IdeLock
  | PipeLock u32    \<comment> \<open>\<open>p->lock\<close> of the pipe at that address\<close>
  | BufLk nat       \<comment> \<open>the spin lock inside the sleep lock of a buffer\<close>
  | InodeLk nat     \<comment> \<open>the spin lock inside the sleep lock of an inode\<close>

record spinlock =
  locked :: u32
  lcpu :: "nat option"

record cpu =
  ncli :: int
  intena :: bool
  fl_if :: bool     \<comment> \<open>the interrupt flag of the CPU's \<open>eflags\<close>\<close>

record mach =
  cpus :: "nat \<Rightarrow> cpu"
  lks :: "lockid \<Rightarrow> spinlock"

definition set_cpu :: "nat \<Rightarrow> cpu \<Rightarrow> mach \<Rightarrow> mach" where
  "set_cpu c v m = m\<lparr>cpus := (cpus m)(c := v)\<rparr>"

definition set_lk :: "lockid \<Rightarrow> spinlock \<Rightarrow> mach \<Rightarrow> mach" where
  "set_lk l v m = m\<lparr>lks := (lks m)(l := v)\<rparr>"

definition initlock :: "lockid \<Rightarrow> mach \<Rightarrow> mach" where
  "initlock l m = set_lk l \<lparr>locked = 0, lcpu = None\<rparr> m"

text \<open>The first argument is the CPU that runs the code, which \<open>mycpu()\<close> returns.\<close>

definition pushcli :: "nat \<Rightarrow> (mach, unit) kern" where
  "pushcli c = upd (\<lambda>m. let v = cpus m c in
     set_cpu c (v\<lparr>fl_if := False,
                  intena := (if ncli v = 0 then fl_if v else intena v),
                  ncli := ncli v + 1\<rparr>) m)"

definition popcli :: "nat \<Rightarrow> (mach, unit) kern" where
  "popcli c = bnd (rd (\<lambda>m. cpus m c)) (\<lambda>v.
     if fl_if v then panic ''popcli - interruptible''
     else if ncli v - 1 < 0 then panic ''popcli''
     else upd (set_cpu c (v\<lparr>ncli := ncli v - 1,
                 fl_if := (if ncli v - 1 = 0 \<and> intena v then True else fl_if v)\<rparr>)))"

definition holding :: "nat \<Rightarrow> lockid \<Rightarrow> (mach, bool) kern" where
  "holding c l = sq (pushcli c)
     (bnd (rd (\<lambda>m. locked (lks m l) \<noteq> 0 \<and> lcpu (lks m l) = Some c)) (\<lambda>r.
      sq (popcli c) (ret r)))"

text \<open>\<open>acquire\<close> in its three parts: up to the loop, one atomic exchange, and the rest. Run
  alone, the loop ends at the first exchange that finds the lock free and never otherwise.\<close>

definition acquire_enter :: "nat \<Rightarrow> lockid \<Rightarrow> (mach, unit) kern" where
  "acquire_enter c l = sq (pushcli c)
     (bnd (holding c l) (\<lambda>h. if h then panic ''acquire'' else ret ()))"

definition xchg1 :: "lockid \<Rightarrow> (mach, u32) kern" where
  "xchg1 l = bnd (rd (\<lambda>m. locked (lks m l))) (\<lambda>old.
     sq (upd (\<lambda>m. set_lk l ((lks m l)\<lparr>locked := 1\<rparr>) m)) (ret old))"

definition acquire_leave :: "nat \<Rightarrow> lockid \<Rightarrow> (mach, unit) kern" where
  "acquire_leave c l = upd (\<lambda>m. set_lk l ((lks m l)\<lparr>lcpu := Some c\<rparr>) m)"

definition spin_acquire :: "nat \<Rightarrow> lockid \<Rightarrow> (mach, unit) kern" where
  "spin_acquire c l = sq (acquire_enter c l)
     (bnd (xchg1 l) (\<lambda>old. if old \<noteq> 0 then (\<lambda>_. Spins) else acquire_leave c l))"

definition release_enter :: "nat \<Rightarrow> lockid \<Rightarrow> (mach, unit) kern" where
  "release_enter c l = bnd (holding c l) (\<lambda>h. if \<not> h then panic ''release''
     else upd (\<lambda>m. set_lk l ((lks m l)\<lparr>lcpu := None\<rparr>) m))"

definition release_leave :: "nat \<Rightarrow> lockid \<Rightarrow> (mach, unit) kern" where
  "release_leave c l = sq (upd (\<lambda>m. set_lk l ((lks m l)\<lparr>locked := 0\<rparr>) m)) (popcli c)"

definition spin_release :: "nat \<Rightarrow> lockid \<Rightarrow> (mach, unit) kern" where
  "spin_release c l = sq (release_enter c l) (release_leave c l)"

text \<open>The call stack recorded in \<open>pcs\<close>: at most ten frames are followed through the saved
  frame pointers (\<open>ebp[0]\<close>, with the return address in \<open>ebp[1]\<close>), and the rest is zero. The
  memory is a function from addresses to words.\<close>

definition KERNBASE :: u32 where
  "KERNBASE = 0x80000000"

fun callerpcs :: "(u32 \<Rightarrow> u32) \<Rightarrow> nat \<Rightarrow> u32 \<Rightarrow> u32 list" where
  "callerpcs w 0 ebp = []"
| "callerpcs w (Suc n) ebp =
     (if ebp = 0 \<or> ebp < KERNBASE \<or> ebp = 0xffffffff then replicate (Suc n) 0
      else w (ebp + 4) # callerpcs w n (w ebp))"

definition getcallerpcs :: "(u32 \<Rightarrow> u32) \<Rightarrow> u32 \<Rightarrow> u32 list" where
  "getcallerpcs w v = callerpcs w 10 (v - 8)"

lemma length_callerpcs [simp]: "length (callerpcs w n ebp) = n"
  by (induction w n ebp rule: callerpcs.induct) auto

lemma length_getcallerpcs [simp]: "length (getcallerpcs w v) = 10"
  by (simp add: getcallerpcs_def)

lemmas spin_defs = initlock_def pushcli_def popcli_def holding_def acquire_enter_def xchg1_def
  acquire_leave_def spin_acquire_def release_enter_def release_leave_def spin_release_def
  set_cpu_def set_lk_def

section \<open>Interleaved CPUs: mutual exclusion\<close>

text \<open>Where each CPU is in the lock code. \<open>Spinning\<close>: inside the \<open>xchg\<close> loop; \<open>Won\<close>: out of it,
  the owner not yet recorded; \<open>Leaving\<close>: the owner cleared by \<open>release\<close>, the lock word not yet.\<close>

datatype pc = Idle | Spinning lockid | Won lockid | Leaving lockid

record sys =
  mc :: mach
  pcs :: "nat \<Rightarrow> pc"

definition goto :: "nat \<Rightarrow> pc \<Rightarrow> mach \<Rightarrow> sys \<Rightarrow> sys" where
  "goto c p m s = s\<lparr>mc := m, pcs := (pcs s)(c := p)\<rparr>"

inductive mach_step :: "sys \<Rightarrow> sys \<Rightarrow> bool" where
  enter: "pcs s c = Idle \<Longrightarrow> acquire_enter c l (mc s) = Ok () m \<Longrightarrow>
    mach_step s (goto c (Spinning l) m s)"
| spin: "pcs s c = Spinning l \<Longrightarrow> xchg1 l (mc s) = Ok old m \<Longrightarrow> old \<noteq> 0 \<Longrightarrow>
    mach_step s (goto c (Spinning l) m s)"
| win: "pcs s c = Spinning l \<Longrightarrow> xchg1 l (mc s) = Ok 0 m \<Longrightarrow>
    mach_step s (goto c (Won l) m s)"
| own: "pcs s c = Won l \<Longrightarrow> acquire_leave c l (mc s) = Ok () m \<Longrightarrow>
    mach_step s (goto c Idle m s)"
| rel: "pcs s c = Idle \<Longrightarrow> release_enter c l (mc s) = Ok () m \<Longrightarrow>
    mach_step s (goto c (Leaving l) m s)"
| free: "pcs s c = Leaving l \<Longrightarrow> release_leave c l (mc s) = Ok () m \<Longrightarrow>
    mach_step s (goto c Idle m s)"

definition init_sys :: sys where
  "init_sys = \<lparr>mc = \<lparr>cpus = (\<lambda>_. \<lparr>ncli = 0, intena = False, fl_if = True\<rparr>),
                     lks = (\<lambda>_. \<lparr>locked = 0, lcpu = None\<rparr>)\<rparr>,
               pcs = (\<lambda>_. Idle)\<rparr>"

inductive reachable :: "sys \<Rightarrow> bool" where
  start: "reachable init_sys"
| step: "reachable s \<Longrightarrow> mach_step s t \<Longrightarrow> reachable t"

text \<open>A CPU is inside a lock's critical section from the winning exchange to the clearing of
  the lock word.\<close>

definition inside :: "sys \<Rightarrow> nat \<Rightarrow> lockid \<Rightarrow> bool" where
  "inside s c l \<longleftrightarrow> pcs s c = Won l \<or> pcs s c = Leaving l \<or> lcpu (lks (mc s) l) = Some c"

text \<open>The invariant: whoever is inside, the lock word is set, nobody else is inside, and the
  recorded owner is not at the same time half way in or out.\<close>

definition excl :: "sys \<Rightarrow> bool" where
  "excl s \<longleftrightarrow> (\<forall>l c. inside s c l \<longrightarrow>
     locked (lks (mc s) l) \<noteq> 0 \<and> (\<forall>d. inside s d l \<longrightarrow> d = c)) \<and>
     (\<forall>l c. (pcs s c = Won l \<or> pcs s c = Leaving l) \<longrightarrow> lcpu (lks (mc s) l) = None)"

text \<open>What the machine parts do to the lock words.\<close>

lemma holding_Ok:
  assumes "holding c l m = Ok h m'"
  shows "lks m' = lks m" and "h \<longleftrightarrow> locked (lks m l) \<noteq> 0 \<and> lcpu (lks m l) = Some c"
  using assms by (auto simp: spin_defs monad_defs Let_def split: if_splits)

lemma acquire_enter_Ok:
  assumes "acquire_enter c l m = Ok () m'"
  shows "lks m' = lks m" and "\<not> (locked (lks m l) \<noteq> 0 \<and> lcpu (lks m l) = Some c)"
  using assms by (auto simp: spin_defs monad_defs Let_def split: if_splits)

lemma xchg1_Ok:
  assumes "xchg1 l m = Ok old m'"
  shows "lks m' = (lks m)(l := (lks m l)\<lparr>locked := 1\<rparr>)" and "old = locked (lks m l)"
  using assms by (auto simp: spin_defs monad_defs)

lemma acquire_leave_Ok:
  assumes "acquire_leave c l m = Ok () m'"
  shows "lks m' = (lks m)(l := (lks m l)\<lparr>lcpu := Some c\<rparr>)"
  using assms by (auto simp: spin_defs monad_defs)

lemma release_enter_Ok:
  assumes "release_enter c l m = Ok () m'"
  shows "lks m' = (lks m)(l := (lks m l)\<lparr>lcpu := None\<rparr>)"
    and "locked (lks m l) \<noteq> 0 \<and> lcpu (lks m l) = Some c"
  using assms by (auto simp: spin_defs monad_defs Let_def split: if_splits)

lemma release_leave_Ok:
  assumes "release_leave c l m = Ok () m'"
  shows "lks m' = (lks m)(l := (lks m l)\<lparr>locked := 0\<rparr>)"
  using assms by (auto simp: spin_defs monad_defs Let_def split: if_splits)

lemmas part_Ok = acquire_enter_Ok xchg1_Ok acquire_leave_Ok release_enter_Ok release_leave_Ok

lemma excl_init: "excl init_sys"
  by (simp add: excl_def inside_def init_sys_def)

lemma excl_step:
  assumes "mach_step s t" and "excl s"
  shows "excl t"
  using assms
proof cases
  case (enter c l m)
  then show ?thesis using assms(2) acquire_enter_Ok[of c l "mc s" m]
    by (auto simp: excl_def inside_def goto_def)
next
  case (spin c l old m)
  then show ?thesis using assms(2) xchg1_Ok[of l "mc s" old m]
    by (auto simp: excl_def inside_def goto_def)
next
  case (win c l m)
  have free: "locked (lks (mc s) l) = 0" using xchg1_Ok(2)[OF win(3)] by simp
  then have none: "\<not> inside s d l" for d using assms(2) by (auto simp: excl_def)
  then have "lcpu (lks (mc s) l) = None" by (cases "lcpu (lks (mc s) l)") (auto simp: inside_def)
  then show ?thesis using win assms(2) xchg1_Ok(1)[OF win(3)] none
    by (auto simp: excl_def inside_def goto_def split: if_splits)
next
  case (own c l m)
  then show ?thesis using assms(2) acquire_leave_Ok[of c l "mc s" m]
    by (auto simp: excl_def inside_def goto_def split: if_splits; metis)
next
  case (rel c l m)
  then show ?thesis using assms(2) release_enter_Ok[of c l "mc s" m]
    by (auto simp: excl_def inside_def goto_def split: if_splits)
next
  case (free c l m)
  then show ?thesis using assms(2) release_leave_Ok[of c l "mc s" m]
    by (auto simp: excl_def inside_def goto_def split: if_splits)
qed

lemma reachable_excl: "reachable s \<Longrightarrow> excl s"
  by (induction rule: reachable.induct) (auto intro: excl_init excl_step)

text \<open>C1. In every machine state the CPUs can reach, under any interleaving of their \<open>acquire\<close> and
  \<open>release\<close> code at the granularity of the atomic exchange, at most one CPU is inside the
  critical section of a given spin lock.\<close>

theorem mutual_exclusion:
  assumes "reachable s" and "inside s c l" and "inside s d l"
  shows "c = d"
  using reachable_excl[OF assms(1)] assms(2,3) by (auto simp: excl_def)

lemma reachable_won:
  "\<exists>s. reachable s \<and> inside s 0 PtableLock"
proof -
  let ?s1 = "goto 0 (Spinning PtableLock)
    ((mc init_sys)\<lparr>cpus := (cpus (mc init_sys))(0 := \<lparr>ncli = 1, intena = True, fl_if = False\<rparr>)\<rparr>)
    init_sys"
  let ?s2 = "goto 0 (Won PtableLock)
    ((mc ?s1)\<lparr>lks := (lks (mc ?s1))(PtableLock := \<lparr>locked = 1, lcpu = None\<rparr>)\<rparr>) ?s1"
  have "mach_step init_sys ?s1"
    by (rule enter) (simp_all add: init_sys_def spin_defs monad_defs Let_def)
  then have "reachable ?s1" by (rule step[OF start])
  moreover have "mach_step ?s1 ?s2"
    by (rule win) (simp_all add: goto_def init_sys_def spin_defs monad_defs)
  ultimately have "reachable ?s2" by (rule step)
  moreover have "inside ?s2 0 PtableLock" by (simp add: inside_def goto_def)
  ultimately show ?thesis by blast
qed

theorem mutual_exclusion_witness:
  "\<exists>s. reachable s \<and> inside s 0 PtableLock \<and> \<not> inside s 1 PtableLock"
proof -
  obtain s where s: "reachable s" "inside s 0 PtableLock" using reachable_won by blast
  then have "\<not> inside s 1 PtableLock" using mutual_exclusion[OF s, of 1] by auto
  with s show ?thesis by blast
qed

section \<open>The abstract spin lock\<close>

text \<open>What the other components see. \<open>kst\<close> is the root of the kernel state that the component
  theories extend: the locks the running kernel thread holds, most recent first, what \<open>cprintf\<close>
  has printed, and whether it takes the console lock (\<open>cons.locking\<close>).\<close>

record kst =
  held :: "lockid list"
  console :: string
  cons_locking :: bool

definition acquire :: "lockid \<Rightarrow> ('a kst_scheme, unit) kern" where
  "acquire l s = (if l \<in> set (held s) then Panic ''acquire'' else Ok () (s\<lparr>held := l # held s\<rparr>))"

definition release :: "lockid \<Rightarrow> ('a kst_scheme, unit) kern" where
  "release l s = (if l \<notin> set (held s) then Panic ''release''
     else Ok () (s\<lparr>held := remove1 l (held s)\<rparr>))"

lemma wp_acquire [simp]:
  "wp (acquire l) Q = (\<lambda>s. l \<notin> set (held s) \<and> Q () (s\<lparr>held := l # held s\<rparr>))"
  by (rule ext) (simp add: wp_def acquire_def)

lemma wp_release [simp]:
  "wp (release l) Q = (\<lambda>s. l \<in> set (held s) \<and> Q () (s\<lparr>held := remove1 l (held s)\<rparr>))"
  by (rule ext) (simp add: wp_def release_def)

lemma acquire_free: "l \<notin> set (held s) \<Longrightarrow> acquire l s = Ok () (s\<lparr>held := l # held s\<rparr>)"
  by (simp add: acquire_def)

lemma release_top: "held s = l # hs \<Longrightarrow> release l s = Ok () (s\<lparr>held := hs\<rparr>)"
  by (simp add: release_def)

lemmas lock_runs = basic_runs acquire_free release_top

text \<open>A critical section that releases its lock on every way out.\<close>

definition with_lock :: "lockid \<Rightarrow> ('a kst_scheme, 'b) kern \<Rightarrow> ('a kst_scheme, 'b) kern" where
  "with_lock l f = sq (acquire l) (bnd f (\<lambda>x. sq (release l) (ret x)))"

lemma wp_with_lock [simp]:
  "wp (with_lock l f) Q s \<longleftrightarrow> l \<notin> set (held s) \<and>
     wp f (\<lambda>x t. l \<in> set (held t) \<and> Q x (t\<lparr>held := remove1 l (held t)\<rparr>)) (s\<lparr>held := l # held s\<rparr>)"
  by (simp add: with_lock_def)

lemma with_lock_Ok:
  "with_lock l f s = Ok x u \<longleftrightarrow> l \<notin> set (held s) \<and>
     (\<exists>t. f (s\<lparr>held := l # held s\<rparr>) = Ok x t \<and> l \<in> set (held t) \<and>
          u = t\<lparr>held := remove1 l (held t)\<rparr>)"
  by (auto simp: with_lock_def sq_def bnd_eq_Ok acquire_def release_def ret_def split: if_splits)

text \<open>Frames that include the held locks: a routine that satisfies one returns with exactly the
  spin locks its caller held, and a critical section around such a routine does too.\<close>

locale lock_frame = frame R for R :: "'a kst_scheme \<Rightarrow> 'a kst_scheme \<Rightarrow> bool" +
  assumes held_eq: "R s t \<Longrightarrow> held t = held s"
    and held_upd: "R s t \<Longrightarrow> R (s\<lparr>held := h\<rparr>) (t\<lparr>held := h\<rparr>)"
begin

lemma keeps_with_lock: "keeps R f \<Longrightarrow> keeps R (with_lock l f)"
proof (rule keepsI)
  fix s x u
  assume f: "keeps R f" and "with_lock l f s = Ok x u"
  then obtain t where t: "f (s\<lparr>held := l # held s\<rparr>) = Ok x t" "u = t\<lparr>held := remove1 l (held t)\<rparr>"
    by (auto simp: with_lock_Ok)
  have r: "R (s\<lparr>held := l # held s\<rparr>) t" using f t(1) by (rule keeps_Ok)
  then have "held t = l # held s" using held_eq[OF r] by simp
  then show "R s u" using held_upd[OF r, of "held s"] t(2) by simp
qed

lemmas lock_rules = keeps_rules keeps_with_lock

end

datatype lockop = Acq lockid | Rel lockid

fun run_abs :: "lockop list \<Rightarrow> (kst, unit) kern" where
  "run_abs [] = ret ()"
| "run_abs (Acq l # ops) = sq (acquire l) (run_abs ops)"
| "run_abs (Rel l # ops) = sq (release l) (run_abs ops)"

fun run_mach :: "nat \<Rightarrow> lockop list \<Rightarrow> (mach, unit) kern" where
  "run_mach c [] = ret ()"
| "run_mach c (Acq l # ops) = sq (spin_acquire c l) (run_mach c ops)"
| "run_mach c (Rel l # ops) = sq (spin_release c l) (run_mach c ops)"

text \<open>The abstraction relation for CPU \<open>c\<close> while no other CPU holds a lock: the held locks are
  those whose word is set and whose owner is \<open>c\<close>, \<open>ncli\<close> counts them, and interrupts are off
  while there is one, the flag to restore (\<open>i0\<close>) saved in \<open>intena\<close>.\<close>

definition lock_rel :: "bool \<Rightarrow> nat \<Rightarrow> mach \<Rightarrow> kst \<Rightarrow> bool" where
  "lock_rel i0 c m k \<longleftrightarrow> distinct (held k) \<and>
     (\<forall>l. lks m l = (if l \<in> set (held k) then \<lparr>locked = 1, lcpu = Some c\<rparr>
                     else \<lparr>locked = 0, lcpu = None\<rparr>)) \<and>
     ncli (cpus m c) = int (length (held k)) \<and>
     (if held k = [] then fl_if (cpus m c) = i0
      else \<not> fl_if (cpus m c) \<and> intena (cpus m c) = i0)"

lemma spin_acquire_held:
  assumes "lock_rel i0 c m k" and "l \<in> set (held k)"
  shows "spin_acquire c l m = Panic ''acquire''"
proof -
  have "held k \<noteq> []" using assms(2) by auto
  then show ?thesis using assms
    by (simp add: lock_rel_def spin_defs monad_defs Let_def)
qed

lemma spin_acquire_free:
  assumes "lock_rel i0 c m k" and "l \<notin> set (held k)"
  shows "\<exists>m'. spin_acquire c l m = Ok () m' \<and> lock_rel i0 c m' (k\<lparr>held := l # held k\<rparr>)"
  using assms by (cases "held k = []") (simp_all add: lock_rel_def spin_defs monad_defs Let_def)

lemma spin_release_free:
  assumes "lock_rel i0 c m k" and "l \<notin> set (held k)"
  shows "spin_release c l m = Panic ''release''"
  using assms by (cases "held k = []") (simp_all add: lock_rel_def spin_defs monad_defs Let_def)

lemma remove1_nil: "l \<in> set xs \<Longrightarrow> remove1 l xs = [] \<longleftrightarrow> length xs = 1"
  by (cases xs) auto

lemma spin_release_held:
  assumes "lock_rel i0 c m k" and "l \<in> set (held k)"
  shows "\<exists>m'. spin_release c l m = Ok () m' \<and> lock_rel i0 c m' (k\<lparr>held := remove1 l (held k)\<rparr>)"
proof -
  have ne: "held k \<noteq> []" using assms(2) by auto
  then have len: "int (length (held k)) - 1 = int (length (remove1 l (held k)))"
    using assms(2) by (simp add: length_remove1 of_nat_diff Suc_le_eq)
  show ?thesis using assms ne len
    by (auto simp: lock_rel_def spin_defs monad_defs Let_def remove1_nil)
qed

text \<open>C9. The detailed spin locks implement the abstract ones: on one CPU, any sequence of
  \<open>acquire\<close>s and \<open>release\<close>s ends the same way in both models, a panic with the same message
  included, in related states; and when the last lock has been released the interrupt flag is
  what it was before the first was taken.\<close>

theorem refine_run:
  assumes "lock_rel i0 c m k"
  shows "case run_abs ops k of
      Ok _ k' \<Rightarrow> \<exists>m'. run_mach c ops m = Ok () m' \<and> lock_rel i0 c m' k' \<and>
                 (if held k' = [] then fl_if (cpus m' c) = i0 else \<not> fl_if (cpus m' c))
    | Panic e \<Rightarrow> run_mach c ops m = Panic e
    | _ \<Rightarrow> False"
  using assms
proof (induction ops arbitrary: m k)
  case Nil
  then show ?case by (simp add: ret_def lock_rel_def)
next
  case (Cons op ops)
  show ?case
  proof (cases op)
    case (Acq l)
    show ?thesis
    proof (cases "l \<in> set (held k)")
      case True
      then show ?thesis using Acq spin_acquire_held[OF Cons.prems]
        by (simp add: sq_def bnd_def acquire_def)
    next
      case False
      then obtain m' where m': "spin_acquire c l m = Ok () m'"
        "lock_rel i0 c m' (k\<lparr>held := l # held k\<rparr>)"
        using spin_acquire_free[OF Cons.prems] by blast
      then have "run_mach c (op # ops) m = run_mach c ops m'"
        and "run_abs (op # ops) k = run_abs ops (k\<lparr>held := l # held k\<rparr>)"
        using Acq False by (simp_all add: sq_def acquire_def)
      then show ?thesis using Cons.IH[OF m'(2)] by (simp only:)
    qed
  next
    case (Rel l)
    show ?thesis
    proof (cases "l \<in> set (held k)")
      case True
      then obtain m' where m': "spin_release c l m = Ok () m'"
        "lock_rel i0 c m' (k\<lparr>held := remove1 l (held k)\<rparr>)"
        using spin_release_held[OF Cons.prems] by blast
      then have "run_mach c (op # ops) m = run_mach c ops m'"
        and "run_abs (op # ops) k = run_abs ops (k\<lparr>held := remove1 l (held k)\<rparr>)"
        using Rel True by (simp_all add: sq_def release_def)
      then show ?thesis using Cons.IH[OF m'(2)] by (simp only:)
    next
      case False
      then show ?thesis using Rel spin_release_free[OF Cons.prems]
        by (simp add: sq_def bnd_def release_def)
    qed
  qed
qed

theorem refine_run_witness:
  "\<exists>m'. run_mach 0 [Acq PtableLock, Acq ConsLock, Rel ConsLock, Rel PtableLock] (mc init_sys) = Ok () m'
     \<and> fl_if (cpus m' 0)"
proof -
  have "lock_rel True 0 (mc init_sys) \<lparr>held = [], console = [], cons_locking = True\<rparr>"
    by (simp add: lock_rel_def init_sys_def)
  from refine_run[OF this, of "[Acq PtableLock, Acq ConsLock, Rel ConsLock, Rel PtableLock]"]
  show ?thesis by (auto simp: monad_defs acquire_def release_def)
qed

end
