(* ===== verification/Kstring.thy ===== *)
theory Kstring
  imports Prelude
begin

unbundle bit_operations_syntax

text \<open>
  The memory and string routines of \<open>src/string.c\<close>.

  Memory is a function from 32-bit addresses to bytes. \<open>memset\<close> and \<open>memmove\<close> are the C code's
  two ways through each (word or byte stores, ascending or descending copy), and are shown to
  do what their single specification says. The string routines read through a pointer, which
  is a function from offsets to bytes, and their result is the bytes they write.
\<close>

section \<open>Words in byte memory\<close>

type_synonym mem = "u32 \<Rightarrow> u8"

definition load32 :: "mem \<Rightarrow> u32 \<Rightarrow> u32" where
  "load32 m a = ucast (m a) OR push_bit 8 (ucast (m (a + 1)))
     OR push_bit 16 (ucast (m (a + 2))) OR push_bit 24 (ucast (m (a + 3)))"

definition store32 :: "u32 \<Rightarrow> u32 \<Rightarrow> mem \<Rightarrow> mem" where
  "store32 a v m = m(a := ucast v, a + 1 := ucast (drop_bit 8 v),
     a + 2 := ucast (drop_bit 16 v), a + 3 := ucast (drop_bit 24 v))"

lemma word32_bytes:
  "ucast (ucast v :: u8) OR push_bit 8 (ucast (ucast (drop_bit 8 v) :: u8))
     OR push_bit 16 (ucast (ucast (drop_bit 16 v) :: u8))
     OR push_bit 24 (ucast (ucast (drop_bit 24 v) :: u8)) = (v :: u32)"
proof (rule bit_word_eqI)
  fix n
  assume "n < LENGTH(32)"
  then consider "n < 8" | "8 \<le> n" "n < 16" | "16 \<le> n" "n < 24" | "24 \<le> n" "n < 32"
    by fastforce
  then show "bit (ucast (ucast v :: u8) OR push_bit 8 (ucast (ucast (drop_bit 8 v) :: u8))
     OR push_bit 16 (ucast (ucast (drop_bit 16 v) :: u8))
     OR push_bit 24 (ucast (ucast (drop_bit 24 v) :: u8)) :: u32) n = bit v n"
    by cases (auto simp: bit_simps)
qed

lemma load32_store32 [simp]: "load32 (store32 a v m) a = v"
  by (simp add: load32_def store32_def word32_bytes)

lemma load32_cong:
  assumes "\<And>i. i < 4 \<Longrightarrow> m (a + i) = m' (a + i)"
  shows "load32 m a = load32 m' a"
  using assms[of 0] assms[of 1] assms[of 2] assms[of 3] by (simp add: load32_def)

text \<open>Two different aligned words do not share a byte.\<close>

lemma unat_aligned_add:
  fixes a i :: u32
  assumes "a mod 4 = 0" "i < 4"
  shows "unat (a + i) = unat a + unat i" and "unat a mod 4 = 0" "unat i < 4"
proof -
  have "unat (a mod 4) = 0" using assms(1) by simp
  then show m: "unat a mod 4 = 0" by (simp add: unat_mod)
  show i: "unat i < 4" using assms(2) by (simp add: word_less_nat_alt)
  have "unat a + unat i < 4294967296" using m i unat_u32[of a] by presburger
  then show "unat (a + i) = unat a + unat i" by (simp add: unat_word_ariths)
qed

lemma aligned_disjoint:
  fixes a b i j :: u32
  assumes "a mod 4 = 0" "b mod 4 = 0" "i < 4" "j < 4" "a + i = b + j"
  shows "a = b"
proof -
  have "unat a + unat i = unat b + unat j"
    using unat_aligned_add(1)[OF assms(1,3)] unat_aligned_add(1)[OF assms(2,4)] assms(5) by simp
  then have "unat a = unat b"
    using unat_aligned_add(2,3)[OF assms(1,3)] unat_aligned_add(2,3)[OF assms(2,4)] by presburger
  then show ?thesis by (simp add: word_unat_eq_iff)
qed

lemma store32_other_byte:
  assumes "a mod 4 = 0" "b mod 4 = 0" "a \<noteq> b" "i < 4"
  shows "store32 a v m (b + i) = m (b + i)"
  using assms aligned_disjoint[OF assms(2,1,4), of 0] aligned_disjoint[OF assms(2,1,4), of 1]
    aligned_disjoint[OF assms(2,1,4), of 2] aligned_disjoint[OF assms(2,1,4), of 3]
  by (auto simp: store32_def)

lemma load32_store32_other:
  assumes "a mod 4 = 0" "b mod 4 = 0" "a \<noteq> b"
  shows "load32 (store32 a v m) b = load32 m b"
  by (rule load32_cong) (rule store32_other_byte[OF assms])

section \<open>memset\<close>

text \<open>The \<open>rep stosb\<close> and \<open>rep stosl\<close> instructions of \<open>src/x86.h\<close>: \<open>n\<close> stores upwards from \<open>d\<close>.\<close>

fun stosb :: "nat \<Rightarrow> u32 \<Rightarrow> u8 \<Rightarrow> mem \<Rightarrow> mem" where
  "stosb 0 d c m = m"
| "stosb (Suc n) d c m = stosb n (d + 1) c (m(d := c))"

fun stosl :: "nat \<Rightarrow> u32 \<Rightarrow> u32 \<Rightarrow> mem \<Rightarrow> mem" where
  "stosl 0 d v m = m"
| "stosl (Suc n) d v m = stosl n (d + 4) v (store32 d v m)"

definition memset :: "u32 \<Rightarrow> u32 \<Rightarrow> u32 \<Rightarrow> mem \<Rightarrow> mem" where
  "memset dst c n m =
     (if dst mod 4 = 0 \<and> n mod 4 = 0 then
        let c' = c AND 0xFF in
        stosl (unat (n div 4)) dst (push_bit 24 c' OR push_bit 16 c' OR push_bit 8 c' OR c') m
      else stosb (unat n) dst (ucast c) m)"

text \<open>What it should do: the \<open>n\<close> bytes from \<open>d\<close> are \<open>c\<close>, the rest is unchanged.\<close>

definition fill :: "u32 \<Rightarrow> u8 \<Rightarrow> nat \<Rightarrow> mem \<Rightarrow> mem" where
  "fill d c n m = (\<lambda>a. if unat (a - d) < n then c else m a)"

lemma unat_diff_of_nat:
  fixes x :: u32
  assumes "j \<le> unat x"
  shows "unat (x - of_nat j) = unat x - j"
proof -
  have "unat (of_nat j :: u32) = j"
    using assms unat_u32[of x] by (intro unat_of_nat_u32) linarith
  then show ?thesis using assms by (simp add: unat_sub word_le_nat_alt)
qed

lemma fill_fill:
  assumes "j + k \<le> 2 ^ 32"
  shows "fill (d + of_nat j) c k (fill d c j m) = fill d c (j + k) m"
proof
  fix a :: u32
  have e: "a - (d + of_nat j) = (a - d) - of_nat j" by simp
  show "fill (d + of_nat j) c k (fill d c j m) a = fill d c (j + k) m a"
  proof (cases "unat (a - d) < j")
    case True
    then show ?thesis by (simp add: fill_def)
  next
    case False
    then have "unat (a - (d + of_nat j)) = unat (a - d) - j"
      unfolding e by (intro unat_diff_of_nat) simp
    then show ?thesis using False by (simp add: fill_def) arith
  qed
qed

lemma fill_1: "m(d := c) = fill d c 1 m"
  by (rule ext) (auto simp: fill_def unat_eq_zero)

lemma fill_0 [simp]: "fill d c 0 m = m"
  by (simp add: fill_def)

lemma stosb_fill: "n \<le> 2 ^ 32 \<Longrightarrow> stosb n d c m = fill d c n m"
proof (induction n arbitrary: d m)
  case (Suc n)
  then show ?case using fill_fill[of 1 n d c m] by (simp add: fill_1)
qed simp

lemma store32_rep:
  "store32 d (push_bit 24 (c AND 0xFF) OR push_bit 16 (c AND 0xFF) OR push_bit 8 (c AND 0xFF)
     OR (c AND 0xFF)) m = fill d (ucast c) 4 m"
proof -
  define v where "v = (push_bit 24 (c AND 0xFF) OR push_bit 16 (c AND 0xFF)
    OR push_bit 8 (c AND 0xFF) OR (c AND 0xFF) :: u32)"
  have m8: "(0xFF :: u32) = mask 8" by (simp add: mask_eq_exp_minus_1)
  have "(ucast v :: u8) = ucast c" "(ucast (drop_bit 8 v) :: u8) = ucast c"
    "(ucast (drop_bit 16 v) :: u8) = ucast c" "(ucast (drop_bit 24 v) :: u8) = ucast c"
    unfolding v_def m8 by (rule bit_word_eqI, auto simp: bit_simps)+
  then have "store32 d v m = fill (d + of_nat 3) (ucast c) 1 (fill (d + of_nat 2) (ucast c) 1
      (fill (d + of_nat 1) (ucast c) 1 (fill d (ucast c) 1 m)))"
    by (simp add: store32_def fill_1)
  also have "\<dots> = fill d (ucast c) 4 m"
    using fill_fill[of 1 1 d "ucast c" m] fill_fill[of 2 1 d "ucast c" m]
      fill_fill[of 3 1 d "ucast c" m] by (simp flip: numeral_2_eq_2)
  finally show ?thesis by (simp add: v_def)
qed

lemma stosl_fill:
  assumes "4 * n \<le> 2 ^ 32" and "\<And>d m. store32 d v m = fill d c 4 m"
  shows "stosl n d v m = fill d c (4 * n) m"
  using assms(1)
proof (induction n arbitrary: d m)
  case (Suc n)
  then show ?case using fill_fill[of 4 "4 * n" d c m] by (simp add: assms(2))
qed simp

lemma memset_eq: "memset dst c n m = fill dst (ucast c) (unat n) m"
proof (cases "dst mod 4 = 0 \<and> n mod 4 = 0")
  case True
  then have "unat (n mod 4) = 0" by simp
  then have "4 * unat (n div 4) = unat n" by (simp add: unat_mod unat_div) presburger
  moreover have "4 * unat (n div 4) \<le> 2 ^ 32" using calculation unat_u32[of n] by simp
  ultimately show ?thesis using True stosl_fill[OF _ store32_rep, of "unat (n div 4)" dst c m]
    by (simp add: memset_def Let_def)
next
  case False
  then have "memset dst c n m = stosb (unat n) dst (ucast c) m"
    unfolding memset_def by (simp only: if_False)
  then show ?thesis using stosb_fill[of "unat n" dst "ucast c" m] unat_u32[of n] by simp
qed

section \<open>memmove\<close>

fun copy_up :: "nat \<Rightarrow> u32 \<Rightarrow> u32 \<Rightarrow> mem \<Rightarrow> mem" where
  "copy_up 0 s d m = m"
| "copy_up (Suc n) s d m = copy_up n (s + 1) (d + 1) (m(d := m s))"

fun copy_down :: "nat \<Rightarrow> u32 \<Rightarrow> u32 \<Rightarrow> mem \<Rightarrow> mem" where
  "copy_down 0 s d m = m"
| "copy_down (Suc n) s d m = copy_down n (s - 1) (d - 1) (m(d - 1 := m (s - 1)))"

definition memmove :: "u32 \<Rightarrow> u32 \<Rightarrow> u32 \<Rightarrow> mem \<Rightarrow> mem" where
  "memmove dst src n m =
     (if src < dst \<and> src + n > dst then copy_down (unat n) (src + n) (dst + n) m
      else copy_up (unat n) src dst m)"

definition memcpy :: "u32 \<Rightarrow> u32 \<Rightarrow> u32 \<Rightarrow> mem \<Rightarrow> mem" where
  "memcpy dst src n m = memmove dst src n m"

text \<open>What they should do: the \<open>n\<close> bytes from \<open>d\<close> are the \<open>n\<close> bytes that were at \<open>s\<close>.\<close>

definition moved :: "u32 \<Rightarrow> u32 \<Rightarrow> nat \<Rightarrow> mem \<Rightarrow> mem" where
  "moved d s n m = (\<lambda>a. if unat (a - d) < n then m (s + (a - d)) else m a)"

lemma unat_pred: "(x :: u32) \<noteq> 0 \<Longrightarrow> unat (x - 1) = unat x - 1"
  by (rule unat_minus_one)

lemma copy_up_moved:
  assumes "n \<le> 2 ^ 32" and "\<And>i. 0 < unat i \<Longrightarrow> unat i < n \<Longrightarrow> d \<noteq> s + i"
  shows "copy_up n s d m = moved d s n m"
  using assms
proof (induction n arbitrary: s d m)
  case 0
  then show ?case by (simp add: moved_def)
next
  case (Suc n)
  have "copy_up (Suc n) s d m = moved (d + 1) (s + 1) n (m(d := m s))"
    using Suc.prems by (simp, intro Suc.IH) (auto simp: add.assoc)
  also have "\<dots> = moved d s (Suc n) m"
  proof
    fix a :: u32
    show "moved (d + 1) (s + 1) n (m(d := m s)) a = moved d s (Suc n) m a"
    proof (cases "a = d")
      case True
      then have "unat (a - (d + 1)) = 2 ^ 32 - 1" by (simp add: unsigned_minus_1_eq_mask mask_eq_exp_minus_1)
      then show ?thesis using True Suc.prems(1) by (simp add: moved_def)
    next
      case False
      then have p: "unat (a - (d + 1)) = unat (a - d) - 1" "unat (a - d) \<noteq> 0"
        using unat_pred[of "a - d"] by (simp_all add: unat_eq_zero diff_diff_eq)
      have "unat (a - d) < Suc n \<Longrightarrow> s + (a - d) \<noteq> d"
        using Suc.prems(2)[of "a - d"] p(2) by fastforce
      then show ?thesis using p False by (auto simp: moved_def algebra_simps)
    qed
  qed
  finally show ?case .
qed

lemma copy_down_moved:
  assumes "n < 2 ^ 32" and "\<And>i. 0 < unat i \<Longrightarrow> unat i < n \<Longrightarrow> s \<noteq> d + i"
  shows "copy_down n (s + of_nat n) (d + of_nat n) m = moved d s n m"
  using assms
proof (induction n arbitrary: m)
  case 0
  then show ?case by (simp add: moved_def)
next
  case (Suc n)
  let ?m' = "m(d + of_nat n := m (s + of_nat n))"
  have u: "unat (of_nat n :: u32) = n" using Suc.prems(1) by (intro unat_of_nat_u32) simp
  have "copy_down (Suc n) (s + of_nat (Suc n)) (d + of_nat (Suc n)) m
      = copy_down n (s + of_nat n) (d + of_nat n) ?m'" by (simp add: algebra_simps)
  also have "\<dots> = moved d s n ?m'" using Suc.prems by (intro Suc.IH) auto
  also have "\<dots> = moved d s (Suc n) m"
  proof
    fix a :: u32
    show "moved d s n ?m' a = moved d s (Suc n) m a"
    proof (cases "a - d = of_nat n")
      case True
      then have "a = d + of_nat n" by (simp add: algebra_simps)
      then show ?thesis using u by (simp add: moved_def)
    next
      case False
      then have ne: "unat (a - d) \<noteq> n" by auto
      moreover have "s + (a - d) \<noteq> d + of_nat n" if lt: "unat (a - d) < n"
      proof
        assume eq: "s + (a - d) = d + of_nat n"
        have "unat (of_nat n - (a - d)) = n - unat (a - d)"
          using lt u by (simp add: unat_sub word_le_nat_alt)
        moreover have "s = d + (of_nat n - (a - d))" using eq by (simp add: algebra_simps)
        moreover have "0 < n - unat (a - d)" "n - unat (a - d) < Suc n" using lt by auto
        ultimately show False using Suc.prems(2)[of "of_nat n - (a - d)"] by metis
      qed
      moreover have "a \<noteq> d + of_nat n" using False by auto
      ultimately show ?thesis by (auto simp: moved_def)
    qed
  qed
  finally show ?case .
qed

lemma memmove_eq:
  assumes "unat src + unat n < 2 ^ 32" and "unat dst + unat n < 2 ^ 32"
  shows "memmove dst src n m = moved dst src (unat n) m"
proof -
  have ov: "unat (dst + i) = unat dst + unat i" "unat (src + i) = unat src + unat i"
    if "unat i \<le> unat n" for i
    using assms that by (simp_all add: unat_word_ariths)
  show ?thesis
  proof (cases "src < dst \<and> src + n > dst")
    case True
    have "src \<noteq> dst + i" if "0 < unat i" "unat i < unat n" for i
      using True that ov(1)[of i] by (auto simp: word_less_nat_alt)
    then show ?thesis using True assms(2) copy_down_moved[of "unat n" src dst m]
      by (simp add: memmove_def)
  next
    case False
    have "dst \<noteq> src + i" if "0 < unat i" "unat i < unat n" for i
      using False that ov(2)[of i] ov(2)[of n] by (auto simp: word_less_nat_alt)
    then have "copy_up (unat n) src dst m = moved dst src (unat n) m"
      using unat_u32[of n] by (intro copy_up_moved) auto
    then show ?thesis unfolding memmove_def using False by (simp only: if_False)
  qed
qed

section \<open>Strings\<close>

text \<open>A pointer that is read through is the function from offsets to the bytes there; the \<open>n\<close> of
  the bounded routines is a natural number, the loops' non-positive counts being \<open>0\<close>.\<close>

type_synonym reader = "nat \<Rightarrow> u8"

fun memcmp :: "reader \<Rightarrow> reader \<Rightarrow> nat \<Rightarrow> int" where
  "memcmp v1 v2 0 = 0"
| "memcmp v1 v2 (Suc n) =
     (if v1 0 \<noteq> v2 0 then uint (v1 0) - uint (v2 0)
      else memcmp (\<lambda>i. v1 (Suc i)) (\<lambda>i. v2 (Suc i)) n)"

fun strncmp :: "reader \<Rightarrow> reader \<Rightarrow> nat \<Rightarrow> int" where
  "strncmp p q 0 = 0"
| "strncmp p q (Suc n) =
     (if p 0 \<noteq> 0 \<and> p 0 = q 0 then strncmp (\<lambda>i. p (Suc i)) (\<lambda>i. q (Suc i)) n
      else uint (p 0) - uint (q 0))"

text \<open>The \<open>n\<close> bytes \<open>strncpy\<close> leaves at its destination.\<close>

fun strncpy :: "reader \<Rightarrow> nat \<Rightarrow> u8 list" where
  "strncpy t 0 = []"
| "strncpy t (Suc n) = t 0 # (if t 0 \<noteq> 0 then strncpy (\<lambda>i. t (Suc i)) n else replicate n 0)"

text \<open>The bytes \<open>safestrcpy\<close> writes, which may be fewer than \<open>n\<close>. After copying a NUL the C loop
  has already advanced, so the closing \<open>*s = 0\<close> writes a second one.\<close>

fun safestrcpy :: "reader \<Rightarrow> nat \<Rightarrow> u8 list" where
  "safestrcpy t 0 = []"
| "safestrcpy t (Suc 0) = [0]"
| "safestrcpy t (Suc (Suc n)) =
     t 0 # (if t 0 \<noteq> 0 then safestrcpy (\<lambda>i. t (Suc i)) (Suc n) else [0])"

partial_function (option) strlen_from :: "reader \<Rightarrow> nat \<Rightarrow> nat option" where
  "strlen_from t n = (if t n = 0 then Some n else strlen_from t (Suc n))"

definition strlen :: "reader \<Rightarrow> nat option" where
  "strlen t = strlen_from t 0"

text \<open>The C string at a pointer, cut off at \<open>n\<close> bytes, is what the routines compare and copy.\<close>

definition cstr :: "reader \<Rightarrow> nat \<Rightarrow> u8 list" where
  "cstr p n = takeWhile (\<lambda>c. c \<noteq> 0) (map p [0..<n])"

lemma map_upt_Suc_shift: "map p [0..<Suc n] = p 0 # map (\<lambda>i. p (Suc i)) [0..<n]"
  by (simp add: upt_conv_Cons map_Suc_upt[symmetric] comp_def del: upt_Suc)

lemma cstr_0 [simp]: "cstr p 0 = []"
  by (simp add: cstr_def)

lemma cstr_Suc: "cstr p (Suc n) = (if p 0 = 0 then [] else p 0 # cstr (\<lambda>i. p (Suc i)) n)"
  by (simp add: cstr_def map_upt_Suc_shift del: upt_Suc)

lemma length_cstr: "length (cstr p n) \<le> n"
  by (induction n arbitrary: p) (auto simp: cstr_Suc)

lemma strncmp_eq_0: "strncmp p q n = 0 \<longleftrightarrow> cstr p n = cstr q n"
  by (induction n arbitrary: p q) (auto simp: cstr_Suc)

lemma strncmp_sym_0: "strncmp p q n = 0 \<longleftrightarrow> strncmp q p n = 0"
  by (auto simp: strncmp_eq_0)

lemma strncpy_eq: "strncpy t n = cstr t n @ replicate (n - length (cstr t n)) 0"
  by (induction n arbitrary: t) (auto simp: cstr_Suc)

lemma length_strncpy [simp]: "length (strncpy t n) = n"
  by (induction n arbitrary: t) auto

lemma takeWhile_cstr [simp]: "takeWhile (\<lambda>c. c \<noteq> 0) (cstr p n) = cstr p n"
  by (simp add: cstr_def)

lemma memcmp_eq_0: "memcmp p q n = 0 \<longleftrightarrow> map p [0..<n] = map q [0..<n]"
proof (induction n arbitrary: p q)
  case (Suc n)
  then show ?case by (simp add: map_upt_Suc_shift del: upt_Suc)
qed simp

lemma length_safestrcpy: "length (safestrcpy t n) \<le> n"
  by (induction t n rule: safestrcpy.induct) auto

lemma safestrcpy_terminated: "0 < n \<Longrightarrow> 0 \<in> set (safestrcpy t n)"
  by (induction t n rule: safestrcpy.induct) auto

lemma safestrcpy_cstr:
  "takeWhile (\<lambda>c. c \<noteq> 0) (safestrcpy t n) = cstr t (n - 1)"
  by (induction t n rule: safestrcpy.induct) (auto simp: cstr_Suc)

lemma strlen_from_eq:
  assumes "t k = 0" and "\<And>i. i < k \<Longrightarrow> t i \<noteq> 0"
  shows "n \<le> k \<Longrightarrow> strlen_from t n = Some k"
proof (induction "k - n" arbitrary: n)
  case 0
  then show ?case using assms(1) by (simp add: strlen_from.simps)
next
  case (Suc d)
  then have "n < k" by simp
  then show ?case using Suc assms(2)[of n] by (subst strlen_from.simps) simp
qed

lemma strlen_eq: "t k = 0 \<Longrightarrow> (\<And>i. i < k \<Longrightarrow> t i \<noteq> 0) \<Longrightarrow> strlen t = Some k"
  unfolding strlen_def by (rule strlen_from_eq) auto

section \<open>Properties\<close>

text \<open>C29. \<open>memmove\<close> copies correctly when the regions overlap, in either direction: afterwards
  the \<open>n\<close> bytes at \<open>dst\<close> are the bytes that were at \<open>src\<close> before, and every byte outside the
  destination is unchanged, as long as neither region runs past the end of the address space.\<close>

theorem memmove_correct:
  assumes "unat src + unat n < 2 ^ 32" and "unat dst + unat n < 2 ^ 32"
  shows "(unat i < unat n \<longrightarrow> memmove dst src n m (dst + i) = m (src + i)) \<and>
    (unat (a - dst) \<ge> unat n \<longrightarrow> memmove dst src n m a = m a)"
  using memmove_eq[OF assms] by (simp add: moved_def)

theorem memmove_correct_witness:
  "memmove 102 100 4 (\<lambda>a. ucast a) (102 + 3) = (103 :: u8)"
  using memmove_correct[of 100 4 102 3 "\<lambda>a. ucast a" 0] by simp

text \<open>C35. The two stores of \<open>memset\<close>, by words when the address and the length are multiples of
  four and by bytes otherwise, have the same effect: the \<open>n\<close> bytes from \<open>dst\<close> hold the low byte
  of \<open>c\<close> and all others are unchanged.\<close>

theorem memset_correct:
  "memset dst c n m a = (if unat (a - dst) < unat n then ucast c else m a)"
  by (simp add: memset_eq fill_def)

text \<open>C36. \<open>safestrcpy\<close> into a buffer of \<open>n > 0\<close> bytes never writes past the buffer, always leaves
  a NUL in it, and the C string it leaves is the source string cut off at \<open>n - 1\<close> bytes.\<close>

theorem safestrcpy_correct:
  assumes "0 < n"
  shows "length (safestrcpy t n) \<le> n \<and> 0 \<in> set (safestrcpy t n) \<and>
    takeWhile (\<lambda>c. c \<noteq> 0) (safestrcpy t n) = cstr t (n - 1)"
  using assms length_safestrcpy safestrcpy_terminated safestrcpy_cstr by blast

theorem safestrcpy_correct_witness:
  "safestrcpy (\<lambda>i. if i < 5 then 65 else 0) 3 = [65, 65, 0] \<and>
   length (safestrcpy (\<lambda>i. if i < 5 then 65 else 0) 3) \<le> 3"
  using safestrcpy_correct[of 3 "\<lambda>i. if i < 5 then 65 else 0"] by (simp add: numeral_3_eq_3)

end
