(* ===== verification/Kalloc.thy ===== *)
theory Kalloc
  imports Spinlock Kstring
begin

unbundle bit_operations_syntax

text \<open>
  The physical page allocator (\<open>src/kalloc.c\<close>). The free list is threaded through the free pages
  themselves: the first word of a free page is the address of the next one. The kernel's direct
  map makes a kernel address and a physical one differ by \<open>KERNBASE\<close>, so memory is indexed by
  kernel addresses. \<open>free_list\<close> relates the memory to the list of free pages; the operations
  implement a stack of pages over it.
\<close>

section \<open>Memory layout (\<open>src/memlayout.h\<close>, \<open>src/mmu.h\<close>)\<close>

definition PGSIZE :: u32 where "PGSIZE = 4096"
definition PHYSTOP :: u32 where "PHYSTOP = 0xE000000"
definition EXTMEM :: u32 where "EXTMEM = 0x100000"
definition DEVSPACE :: u32 where "DEVSPACE = 0xFE000000"
definition KERNLINK :: u32 where "KERNLINK = KERNBASE + EXTMEM"

definition V2P :: "u32 \<Rightarrow> u32" where "V2P a = a - KERNBASE"
definition P2V :: "u32 \<Rightarrow> u32" where "P2V a = a + KERNBASE"

definition PGROUNDUP :: "u32 \<Rightarrow> u32" where
  "PGROUNDUP sz = (sz + PGSIZE - 1) AND NOT (PGSIZE - 1)"

definition PGROUNDDOWN :: "u32 \<Rightarrow> u32" where
  "PGROUNDDOWN a = a AND NOT (PGSIZE - 1)"

lemmas layout_defs = PGSIZE_def PHYSTOP_def EXTMEM_def DEVSPACE_def KERNLINK_def KERNBASE_def
  V2P_def P2V_def

lemma V2P_P2V [simp]: "V2P (P2V a) = a" and P2V_V2P [simp]: "P2V (V2P a) = a"
  by (simp_all add: V2P_def P2V_def)

section \<open>State and operations\<close>

text \<open>\<open>kend\<close> is the linker's \<open>end\<close> symbol: the first address after the kernel image.\<close>

record kmem = kst +
  pmem :: mem
  use_lock :: bool
  freelist :: u32
  kend :: u32

definition lock_kmem :: "('a kmem_scheme, unit) kern" where
  "lock_kmem = bnd (rd use_lock) (\<lambda>u. whenb u (acquire KmemLock))"

definition unlock_kmem :: "('a kmem_scheme, unit) kern" where
  "unlock_kmem = bnd (rd use_lock) (\<lambda>u. whenb u (release KmemLock))"

definition kfree :: "u32 \<Rightarrow> ('a kmem_scheme, unit) kern" where
  "kfree v = bnd (rd kend) (\<lambda>e.
     if v mod PGSIZE \<noteq> 0 \<or> v < e \<or> V2P v \<ge> PHYSTOP then panic ''kfree''
     else sq (upd (\<lambda>s. s\<lparr>pmem := memset v 1 PGSIZE (pmem s)\<rparr>))
         (sq lock_kmem
         (sq (upd (\<lambda>s. s\<lparr>pmem := store32 v (freelist s) (pmem s), freelist := v\<rparr>))
             unlock_kmem)))"

definition kalloc :: "('a kmem_scheme, u32) kern" where
  "kalloc = sq lock_kmem (bnd (rd freelist) (\<lambda>r.
     sq (whenb (r \<noteq> 0) (upd (\<lambda>s. s\<lparr>freelist := load32 (pmem s) r\<rparr>)))
     (sq unlock_kmem (ret r))))"

text \<open>The loop's pointer never wraps in defined C, so it counts in \<open>nat\<close>.\<close>

function freerange_loop :: "nat \<Rightarrow> nat \<Rightarrow> ('a kmem_scheme, unit) kern" where
  "freerange_loop p vend =
     (if p + 4096 \<le> vend then sq (kfree (of_nat p)) (freerange_loop (p + 4096) vend) else ret ())"
  by pat_completeness auto
termination
  by (relation "measure (\<lambda>(p, vend). vend - p)") auto

declare freerange_loop.simps [simp del]

definition freerange :: "u32 \<Rightarrow> u32 \<Rightarrow> ('a kmem_scheme, unit) kern" where
  "freerange vstart vend = freerange_loop (unat (PGROUNDUP vstart)) (unat vend)"

definition kinit1 :: "u32 \<Rightarrow> u32 \<Rightarrow> ('a kmem_scheme, unit) kern" where
  "kinit1 vstart vend = sq (upd (\<lambda>s. s\<lparr>use_lock := False\<rparr>)) (freerange vstart vend)"

definition kinit2 :: "u32 \<Rightarrow> u32 \<Rightarrow> ('a kmem_scheme, unit) kern" where
  "kinit2 vstart vend = sq (freerange vstart vend) (upd (\<lambda>s. s\<lparr>use_lock := True\<rparr>))"

section \<open>What the operations compute\<close>

abbreviation kmem_unlocked :: "'a kmem_scheme \<Rightarrow> bool" where
  "kmem_unlocked s \<equiv> use_lock s \<longrightarrow> KmemLock \<notin> set (held s)"

definition valid_page :: "'a kmem_scheme \<Rightarrow> u32 \<Rightarrow> bool" where
  "valid_page s v \<longleftrightarrow> v mod PGSIZE = 0 \<and> kend s \<le> v \<and> V2P v < PHYSTOP"

definition put_free :: "u32 \<Rightarrow> 'a kmem_scheme \<Rightarrow> 'a kmem_scheme" where
  "put_free v s = s\<lparr>pmem := store32 v (freelist s) (fill v 1 4096 (pmem s)), freelist := v\<rparr>"

lemma kfree_eq:
  "kmem_unlocked s \<Longrightarrow>
     kfree v s = (if valid_page s v then Ok () (put_free v s) else Panic ''kfree'')"
  by (auto simp: kfree_def lock_kmem_def unlock_kmem_def monad_defs acquire_def release_def
      valid_page_def put_free_def memset_eq PGSIZE_def not_le)

lemma kalloc_eq:
  "kmem_unlocked s \<Longrightarrow>
     kalloc s = Ok (freelist s)
       (if freelist s = 0 then s else s\<lparr>freelist := load32 (pmem s) (freelist s)\<rparr>)"
  by (simp add: kalloc_def lock_kmem_def unlock_kmem_def monad_defs acquire_def release_def)

lemma kmem_locked_panics:
  assumes "use_lock s" and "KmemLock \<in> set (held s)"
  shows "kalloc s = Panic ''acquire''" and "kfree v s = Panic ''kfree'' \<or> kfree v s = Panic ''acquire''"
  using assms by (simp_all add: kalloc_def kfree_def lock_kmem_def monad_defs acquire_def)

lemma kfree_Ok: "kfree v s = Ok () t \<Longrightarrow> kmem_unlocked s \<and> valid_page s v \<and> t = put_free v s"
  using kmem_locked_panics(2)[of s v] kfree_eq[of s v]
  by (cases "kmem_unlocked s") (auto split: if_splits)

lemma kalloc_Ok:
  "kalloc s = Ok r t \<Longrightarrow> kmem_unlocked s \<and> r = freelist s \<and>
     t = (if freelist s = 0 then s else s\<lparr>freelist := load32 (pmem s) (freelist s)\<rparr>)"
  using kmem_locked_panics(1)[of s] kalloc_eq[of s]
  by (cases "kmem_unlocked s") auto

text \<open>The allocator touches the memory and the free list and nothing else.\<close>

definition mem_frame :: "'a kmem_scheme \<Rightarrow> 'a kmem_scheme \<Rightarrow> bool" where
  "mem_frame s t \<longleftrightarrow> (\<exists>m f. t = s\<lparr>pmem := m, freelist := f\<rparr>)"

lemma mem_frameI: "t = s\<lparr>pmem := m, freelist := f\<rparr> \<Longrightarrow> mem_frame s t"
  unfolding mem_frame_def by blast

lemma mem_frameE:
  assumes "mem_frame s t"
  obtains m f where "t = s\<lparr>pmem := m, freelist := f\<rparr>"
  using assms unfolding mem_frame_def by blast

lemma mem_frame_refl: "mem_frame s s"
  by (rule mem_frameI[where m = "pmem s" and f = "freelist s"]) simp

text \<open>Record updates of different fields commute; the lower field goes inside.\<close>

lemma mem_upd_comm:
  "s\<lparr>pmem := m, freelist := f, held := h\<rparr> = s\<lparr>held := h, pmem := m, freelist := f\<rparr>"
  by (rule kmem.equality) simp_all

interpretation kmemf: lock_frame mem_frame
proof
  fix s t u :: "'a kmem_scheme" and h
  show "mem_frame s s" by (rule mem_frame_refl)
  show "mem_frame s t \<Longrightarrow> mem_frame t u \<Longrightarrow> mem_frame s u"
    by (elim mem_frameE) (rule mem_frameI, simp)
  show "mem_frame s t \<Longrightarrow> held t = held s" by (elim mem_frameE) simp
  show "mem_frame s t \<Longrightarrow> mem_frame (s\<lparr>held := h\<rparr>) (t\<lparr>held := h\<rparr>)"
    by (elim mem_frameE) (rule mem_frameI, simp add: mem_upd_comm)
qed

lemma put_free_frame: "mem_frame s (put_free v s)"
  unfolding put_free_def by (rule mem_frameI) simp

lemma kfree_frame [frame_intros]: "keeps mem_frame (kfree v)"
  by (rule keepsI) (auto dest!: kfree_Ok simp: put_free_frame)

lemma set_freelist_frame: "mem_frame s (s\<lparr>freelist := f\<rparr>)"
  by (rule mem_frameI[where m = "pmem s"]) simp

lemma kalloc_frame [frame_intros]: "keeps mem_frame kalloc"
  by (rule keepsI) (auto dest!: kalloc_Ok simp: set_freelist_frame mem_frame_refl)

section \<open>The free list\<close>

primrec chain :: "mem \<Rightarrow> u32 \<Rightarrow> u32 list \<Rightarrow> bool" where
  "chain m a [] \<longleftrightarrow> a = 0"
| "chain m a (x # xs) \<longleftrightarrow> a = x \<and> x \<noteq> 0 \<and> chain m (load32 m x) xs"

definition free_list :: "'a kmem_scheme \<Rightarrow> u32 list \<Rightarrow> bool" where
  "free_list s xs \<longleftrightarrow> chain (pmem s) (freelist s) xs \<and> distinct xs \<and>
     (\<forall>x \<in> set xs. valid_page s x) \<and> KERNBASE \<le> kend s"

lemma page_step:
  assumes "(p :: nat) mod 4096 = 0" "a mod 4096 = 0" "p < a"
  shows "p + 4096 \<le> a"
proof -
  have "4096 dvd a - p" using assms by (simp add: mod_eq_0_iff_dvd dvd_diff_nat)
  then show ?thesis using assms(3) dvd_imp_le[of 4096 "a - p"] by simp
qed

lemma page_disjoint:
  fixes x v i :: u32
  assumes "x mod PGSIZE = 0" "v mod PGSIZE = 0" "x \<noteq> v" "i < PGSIZE"
  shows "4096 \<le> unat (x + i - v)"
proof (rule ccontr)
  assume "\<not> 4096 \<le> unat (x + i - v)"
  then have j: "unat (x + i - v) < 4096" by simp
  have al: "unat y mod 4096 = 0" if "y mod PGSIZE = 0" for y :: u32
  proof -
    have "unat (y mod 4096) = 0" using that by (simp add: PGSIZE_def)
    then show ?thesis by (simp add: unat_mod)
  qed
  have nw: "unat (y + k) = unat y + unat k" if "y mod PGSIZE = 0" "unat k < 4096" for y k :: u32
  proof -
    have "unat y + unat k < 4294967296"
      using page_step[OF al[OF that(1)] _ unat_u32[of y]] that(2) by simp
    then show ?thesis by (simp add: unat_word_ariths)
  qed
  have i: "unat i < 4096" using assms(4) by (simp add: PGSIZE_def word_less_nat_alt)
  have "unat x + unat i = unat v + unat (x + i - v)"
    using nw[OF assms(1) i] nw[OF assms(2) j] by simp
  then have "unat x = unat v"
    using page_step[OF al[OF assms(1)] al[OF assms(2)]] page_step[OF al[OF assms(2)] al[OF assms(1)]] i j
    by linarith
  then show False using assms(3) by (simp add: word_unat_eq_iff)
qed

lemma page_mod4: "(x :: u32) mod PGSIZE = 0 \<Longrightarrow> x mod 4 = 0"
proof -
  assume "x mod PGSIZE = 0"
  then have "unat (x mod 4096) = 0" by (simp add: PGSIZE_def)
  then have "4096 dvd unat x" by (simp add: unat_mod mod_eq_0_iff_dvd)
  then have "4 dvd unat x" by (rule dvd_trans[rotated]) simp
  then have "unat (x mod 4) = 0" by (simp add: unat_mod mod_eq_0_iff_dvd)
  then show ?thesis by (simp add: unat_eq_zero)
qed

lemma chain_put:
  assumes "chain m a xs" "\<forall>x \<in> set xs. x mod PGSIZE = 0" "v mod PGSIZE = 0" "v \<notin> set xs"
  shows "chain (store32 v w (fill v 1 4096 m)) a xs"
  using assms
proof (induction xs arbitrary: a)
  case (Cons x xs)
  have "load32 (store32 v w (fill v 1 4096 m)) x = load32 (fill v 1 4096 m) x"
    using Cons.prems by (intro load32_store32_other page_mod4) auto
  also have "\<dots> = load32 m x"
  proof (rule load32_cong)
    fix i :: u32
    assume "i < 4"
    then have "i < PGSIZE" by (simp add: PGSIZE_def word_less_nat_alt)
    then have "4096 \<le> unat (x + i - v)" using Cons.prems by (intro page_disjoint) auto
    then show "fill v 1 4096 m (x + i) = m (x + i)" by (simp add: fill_def)
  qed
  finally show ?case using Cons by simp
qed simp

lemma valid_page_nonzero: "KERNBASE \<le> kend s \<Longrightarrow> valid_page s v \<Longrightarrow> v \<noteq> 0"
  by (auto simp: valid_page_def KERNBASE_def)

lemma put_free_list:
  assumes "free_list s xs" "valid_page s v" "v \<notin> set xs"
  shows "free_list (put_free v s) (v # xs)"
proof -
  have "chain (pmem (put_free v s)) (freelist s) xs"
    unfolding put_free_def using assms
    by (simp, intro chain_put) (simp_all add: free_list_def valid_page_def)
  then show ?thesis using assms valid_page_nonzero[of s v]
    by (simp add: free_list_def put_free_def valid_page_def)
qed

lemma kalloc_free_list:
  assumes "free_list s xs" "kmem_unlocked s" "kalloc s = Ok r t"
  shows "(case xs of [] \<Rightarrow> r = 0 \<and> t = s | x # ys \<Rightarrow> r = x \<and> free_list t ys)"
  using assms kalloc_Ok[OF assms(3)]
  by (cases xs) (simp_all add: free_list_def valid_page_def)

definition pages :: "nat \<Rightarrow> nat \<Rightarrow> u32 set" where
  "pages p vend = {of_nat a |a. p \<le> a \<and> a + 4096 \<le> vend \<and> a mod 4096 = 0}"

lemma pagesI: "p \<le> a \<Longrightarrow> a + 4096 \<le> vend \<Longrightarrow> a mod 4096 = 0 \<Longrightarrow> of_nat a \<in> pages p vend"
  unfolding pages_def by (rule CollectI, rule exI[of _ a]) simp

lemma pagesE:
  assumes "x \<in> pages p vend"
  obtains a where "x = of_nat a" "p \<le> a" "a + 4096 \<le> vend" "a mod 4096 = 0"
  using assms unfolding pages_def by (elim CollectE exE conjE)

lemma page_set:
  assumes "p mod 4096 = 0" "p + 4096 \<le> vend"
  shows "pages p vend = insert (of_nat p) (pages (p + 4096) vend)"
proof (intro set_eqI iffI)
  fix x
  assume "x \<in> pages p vend"
  then obtain a where a: "x = of_nat a" "p \<le> a" "a + 4096 \<le> vend" "a mod 4096 = 0"
    by (rule pagesE)
  show "x \<in> insert (of_nat p) (pages (p + 4096) vend)"
  proof (cases "a = p")
    case False
    then have "p + 4096 \<le> a" using a page_step[OF assms(1) a(4)] by simp
    then show ?thesis using a(1) pagesI[OF _ a(3,4)] by simp
  qed (simp add: a)
next
  fix x
  assume "x \<in> insert (of_nat p) (pages (p + 4096) vend)"
  then show "x \<in> pages p vend"
  proof
    assume "x = of_nat p"
    then show ?thesis using pagesI[OF order_refl assms(2,1)] by simp
  next
    assume "x \<in> pages (p + 4096) vend"
    then obtain a where a: "x = of_nat a" "p + 4096 \<le> a" "a + 4096 \<le> vend" "a mod 4096 = 0"
      by (rule pagesE)
    then show ?thesis using pagesI[OF _ a(3,4), of p] by simp
  qed
qed

lemma freerange_loop_free_list:
  assumes "free_list s xs" "kmem_unlocked s" "p mod 4096 = 0" "vend \<le> unat (P2V PHYSTOP)"
    "unat (kend s) \<le> p" "\<And>x. x \<in> set xs \<Longrightarrow> unat x < p"
  shows "wp (freerange_loop p vend)
    (\<lambda>_ t. \<exists>ys. free_list t ys \<and> mem_frame s t \<and>
       set ys = set xs \<union> pages p vend) s"
  using assms
proof (induction p vend arbitrary: s xs rule: freerange_loop.induct)
  case (1 p vend)
  show ?case
  proof (cases "p + 4096 \<le> vend")
    case False
    then have "pages p vend = {}" by (auto elim: pagesE)
    then show ?thesis using "1.prems"(1) False
      by (subst freerange_loop.simps) (auto intro!: exI[of _ xs] mem_frame_refl)
  next
    case True
    have lim: "vend \<le> 0x8E000000" using "1.prems"(4) by (simp add: layout_defs)
    have pu: "unat (of_nat p :: u32) = p" using True lim by (intro unat_of_nat_u32) simp
    have vp: "valid_page s (of_nat p)"
    proof -
      have "KERNBASE \<le> kend s" using "1.prems"(1) by (simp add: free_list_def)
      then have kb: "0x80000000 \<le> p"
        using "1.prems"(5) by (simp add: KERNBASE_def word_le_nat_alt)
      have "unat (of_nat p mod 4096 :: u32) = 0" using pu "1.prems"(3) by (simp add: unat_mod)
      then have "(of_nat p :: u32) mod PGSIZE = 0" by (simp add: PGSIZE_def unat_eq_zero)
      moreover have "kend s \<le> of_nat p" using pu "1.prems"(5) by (simp add: word_le_nat_alt)
      moreover have "unat (of_nat p - KERNBASE :: u32) = p - 0x80000000"
        using pu kb by (simp add: unat_sub word_le_nat_alt KERNBASE_def)
      then have "V2P (of_nat p) < PHYSTOP"
        using True lim kb by (simp add: V2P_def PHYSTOP_def word_less_nat_alt)
      ultimately show ?thesis by (simp add: valid_page_def)
    qed
    have new: "of_nat p \<notin> set xs" using "1.prems"(6)[of "of_nat p"] pu by auto
    have fl: "free_list (put_free (of_nat p) s) (of_nat p # xs)"
      by (rule put_free_list[OF "1.prems"(1) vp new])
    have rest: "wp (freerange_loop (p + 4096) vend)
      (\<lambda>_ t. \<exists>ys. free_list t ys \<and> mem_frame (put_free (of_nat p) s) t \<and>
         set ys = set (of_nat p # xs) \<union> pages (p + 4096) vend)
      (put_free (of_nat p) s)"
    proof (rule "1.IH"[OF True fl])
      show "kmem_unlocked (put_free (of_nat p) s)" using "1.prems"(2) by (simp add: put_free_def)
      show "(p + 4096) mod 4096 = 0" "vend \<le> unat (P2V PHYSTOP)" using "1.prems" by simp_all
      show "unat (kend (put_free (of_nat p) s)) \<le> p + 4096"
        using "1.prems"(5) by (simp add: put_free_def)
      fix x :: u32
      assume "x \<in> set (of_nat p # xs)"
      then show "unat x < p + 4096" using "1.prems"(6)[of x] pu by (cases "x = of_nat p") simp_all
    qed
    have kf: "kfree (of_nat p) s = Ok () (put_free (of_nat p) s)"
      using vp kfree_eq[OF "1.prems"(2), of "of_nat p"] by simp
    have "wp (freerange_loop p vend) Q s = wp (freerange_loop (p + 4096) vend) Q (put_free (of_nat p) s)"
      for Q using True by (subst freerange_loop.simps) (simp add: wp_Ok[where f = "kfree _", OF kf])
    then show ?thesis
      unfolding page_set[OF "1.prems"(3) True]
      by (simp only:) (rule wp_mono[OF rest], auto intro: kmemf.trans[OF put_free_frame])
  qed
qed

section \<open>Properties\<close>


definition boot_kmem :: kmem where
  "boot_kmem = \<lparr>held = [], console = [], cons_locking = True, pmem = (\<lambda>_. 0), use_lock = True, freelist = 0,
     kend = 0x80100000\<rparr>"


text \<open>C30. \<open>freerange\<close> on an empty allocator returns and leaves on the free list exactly the whole
  pages between the rounded-up start and the end of the range, each once, for every range that
  starts past the kernel image and ends at most at \<open>PHYSTOP\<close>.\<close>

theorem freerange_pages:
  assumes "free_list s []" and "kmem_unlocked s" and "unat (PGROUNDUP vstart) mod 4096 = 0"
    and "kend s \<le> PGROUNDUP vstart" and "vend \<le> P2V PHYSTOP"
  shows "wp (freerange vstart vend)
    (\<lambda>_ t. \<exists>ys. free_list t ys \<and> distinct ys \<and> mem_frame s t \<and>
       set ys = pages (unat (PGROUNDUP vstart)) (unat vend)) s"
proof -
  have "wp (freerange_loop (unat (PGROUNDUP vstart)) (unat vend))
    (\<lambda>_ t. \<exists>ys. free_list t ys \<and> mem_frame s t \<and>
       set ys = set [] \<union> pages (unat (PGROUNDUP vstart)) (unat vend)) s"
    using assms by (intro freerange_loop_free_list) (simp_all add: word_le_nat_alt)
  then show ?thesis
    unfolding freerange_def by (rule wp_mono) (auto simp: free_list_def)
qed

theorem freerange_pages_witness:
  "wp (freerange 0x80100001 0x80103000)
    (\<lambda>_ t. \<exists>ys. free_list t ys \<and> distinct ys \<and> mem_frame boot_kmem t \<and>
       set ys = pages 0x80101000 0x80103000) boot_kmem"
proof -
  have r: "PGROUNDUP 0x80100001 = 0x80101000" by (simp add: PGROUNDUP_def PGSIZE_def)
  have "free_list boot_kmem []"
    by (simp add: free_list_def boot_kmem_def layout_defs)
  then show ?thesis
    using freerange_pages[of boot_kmem "0x80100001" "0x80103000"]
    by (simp add: r boot_kmem_def layout_defs)
qed

end
