(* ===== verification/Printf.thy ===== *)
theory Printf
  imports Spinlock
begin

text \<open>
  Formatted output: the kernel's \<open>cprintf\<close> (\<open>src/console.c\<close>) and the user library's \<open>printf\<close>
  (\<open>src/printf.c\<close>). Both print a number by collecting its digits from the right and reversing
  them; the locale \<open>digits\<close> says what a digit table must satisfy for that to be invertible and is
  interpreted on the two tables. \<open>cprintf\<close> looks at the two characters of a directive at once,
  \<open>printf\<close> is a state machine over single characters.
\<close>

section \<open>Numbers\<close>

lemma div_smaller: "2 \<le> b \<Longrightarrow> x div b \<noteq> 0 \<Longrightarrow> x div b < (x :: nat)"
  by (cases "x = 0") simp_all

text \<open>The do-while loop of \<open>printint\<close>: the digits, least significant first. Only the bases 10 and
  16 occur; for a base below 2 the C loop would divide by 0 or never end.\<close>

function digit_buf :: "string \<Rightarrow> u32 \<Rightarrow> u32 \<Rightarrow> string" where
  "digit_buf digs base x = digs ! unat (x mod base) #
     (if x div base = 0 \<or> base < 2 then [] else digit_buf digs base (x div base))"
  by pat_completeness auto
termination
proof (relation "measure (\<lambda>(digs, base, x). unat x)", goal_cases)
  case (2 digs base x)
  then have "unat base \<ge> 2" "unat x div unat base \<noteq> 0"
    by (simp_all add: word_less_nat_alt word_unat_eq_iff unat_div)
  then have "unat x div unat base < unat x" by (rule div_smaller)
  then show ?case by (simp add: unat_div)
qed simp

declare digit_buf.simps [simp del]

definition printint :: "string \<Rightarrow> u32 \<Rightarrow> u32 \<Rightarrow> bool \<Rightarrow> string" where
  "printint digs xx base sign =
     (let neg = (sign \<and> sint xx < 0);
          x = (if neg then - xx else xx)
      in rev (digit_buf digs base x @ (if neg then ''-'' else [])))"

definition cons_digits :: string where "cons_digits = ''0123456789abcdef''"
definition user_digits :: string where "user_digits = ''0123456789ABCDEF''"

text \<open>Reading digits back.\<close>

definition digit_value :: "string \<Rightarrow> char \<Rightarrow> nat" where
  "digit_value digs c = length (takeWhile (\<lambda>d. d \<noteq> c) digs)"

definition value_of :: "string \<Rightarrow> nat \<Rightarrow> string \<Rightarrow> nat" where
  "value_of digs base str = foldl (\<lambda>a c. a * base + digit_value digs c) 0 str"

lemma value_snoc: "value_of digs base (str @ [c]) = value_of digs base str * base + digit_value digs c"
  by (simp add: value_of_def)

locale digits =
  fixes digs :: string
  assumes len: "length digs = 16" and dist: "distinct digs" and no_sign: "CHR ''-'' \<notin> set digs"
begin

lemma digit_value_nth:
  assumes "i < 16"
  shows "digit_value digs (digs ! i) = i"
proof -
  have e: "digs = take i digs @ digs ! i # drop (Suc i) digs"
    using assms len by (simp add: id_take_nth_drop)
  have "\<And>d. d \<in> set (take i digs) \<Longrightarrow> d \<noteq> digs ! i"
    using dist assms len by (auto simp: in_set_conv_nth nth_eq_iff_index_eq)
  then have "takeWhile (\<lambda>d. d \<noteq> digs ! i) (take i digs @ digs ! i # drop (Suc i) digs) = take i digs"
    by (subst takeWhile_append2) auto
  then show ?thesis using e assms len by (simp add: digit_value_def)
qed

lemma digit_buf_value:
  assumes "2 \<le> unat base" "unat base \<le> 16"
  shows "value_of digs (unat base) (rev (digit_buf digs base x)) = unat x"
proof (induction "unat x" arbitrary: x rule: less_induct)
  case less
  have m: "unat (x mod base) < 16"
    using assms by (simp add: unat_mod) (meson mod_less_divisor order_less_le_trans zero_less_numeral)
  have "\<not> base < 2" using assms(1) by (simp add: word_less_nat_alt)
  show ?case
  proof (cases "x div base = 0")
    case True
    then have "unat x div unat base = 0" by (simp add: unat_div[symmetric])
    then have "unat x < unat base" using assms by (simp add: div_eq_0_iff)
    then show ?thesis
      using True digit_value_nth[OF m] by (subst digit_buf.simps) (simp add: value_of_def unat_mod)
  next
    case False
    then have "unat x div unat base \<noteq> 0" by (simp add: word_unat_eq_iff unat_div)
    then have "unat (x div base) < unat x"
      using assms div_smaller by (simp add: unat_div)
    from less[OF this] show ?thesis
      using False \<open>\<not> base < 2\<close> digit_value_nth[OF m]
      by (subst digit_buf.simps) (simp add: value_snoc unat_div unat_mod)
  qed
qed

lemma digit_buf_set: "2 \<le> unat base \<Longrightarrow> unat base \<le> 16 \<Longrightarrow> set (digit_buf digs base x) \<subseteq> set digs"
proof (induction "unat x" arbitrary: x rule: less_induct)
  case less
  have m: "unat (x mod base) < 16"
    using less.prems by (simp add: unat_mod) (meson mod_less_divisor order_less_le_trans zero_less_numeral)
  have "unat (x div base) < unat x" if "x div base \<noteq> 0"
  proof -
    have "unat x div unat base \<noteq> 0" using that by (simp add: word_unat_eq_iff unat_div)
    then show ?thesis using less.prems div_smaller by (simp add: unat_div)
  qed
  then show ?case
    using less m len by (subst digit_buf.simps) (auto simp: in_set_conv_nth)
qed

text \<open>Printing a number and reading the digits after the sign gives its absolute value.\<close>

lemma printint_value:
  assumes "2 \<le> unat base" "unat base \<le> 16"
  shows "value_of digs (unat base) (printint digs xx base False) = unat xx"
    and "sint xx < 0 \<Longrightarrow> \<exists>ds. printint digs xx base True = CHR ''-'' # ds \<and>
           CHR ''-'' \<notin> set ds \<and> value_of digs (unat base) ds = unat (- xx)"
    and "\<not> sint xx < 0 \<Longrightarrow> printint digs xx base True = printint digs xx base False"
  using digit_buf_value[OF assms] digit_buf_set[OF assms] no_sign
  by (auto simp: printint_def Let_def)

end

interpretation consd: digits cons_digits
  by unfold_locales (simp_all add: cons_digits_def)

interpretation userd: digits user_digits
  by unfold_locales (simp_all add: user_digits_def)

text \<open>The C buffer has 16 bytes; a 32-bit number in base 10 or 16 has at most 10 digits.\<close>

lemma digit_buf_length:
  assumes "10 \<le> unat base" and "unat x < 10 ^ n" and "0 < n"
  shows "length (digit_buf digs base x) \<le> n"
  using assms(2,3)
proof (induction n arbitrary: x)
  case (Suc n)
  show ?case
  proof (cases "x div base = 0")
    case True
    then show ?thesis by (subst digit_buf.simps) simp
  next
    case False
    have "unat x div unat base \<le> unat x div 10" using assms(1) by (intro div_le_mono2) simp_all
    also have "\<dots> < 10 ^ n" using Suc.prems by (simp add: div_less_iff_less_mult mult.commute)
    finally have lt: "unat (x div base) < 10 ^ n" by (simp add: unat_div)
    then have "0 < n" using False by (cases n) (auto simp: unat_eq_zero)
    then show ?thesis using Suc.IH[OF lt] by (subst digit_buf.simps) simp
  qed
qed simp

section \<open>Format strings\<close>

text \<open>The variable arguments: words for numbers, pointers to strings (possibly null).\<close>

datatype arg = ANum u32 | AStr "string option"

definition str_arg :: "string option \<Rightarrow> string" where
  "str_arg s = (case s of None \<Rightarrow> ''(null)'' | Some cs \<Rightarrow> cs)"

text \<open>\<open>cprintf\<close>'s loop. A directive without an argument of its kind reads memory it should not,
  which is \<open>None\<close>.\<close>

fun cfmt :: "string \<Rightarrow> arg list \<Rightarrow> string option" where
  "cfmt [] args = Some []"
| "cfmt [c] args = Some (if c = CHR ''%'' then [] else [c])"
| "cfmt (c # d # cs) args =
     (if c \<noteq> CHR ''%'' then map_option (\<lambda>out. c # out) (cfmt (d # cs) args)
      else if d = CHR ''d'' then
        (case args of ANum n # as \<Rightarrow> map_option (\<lambda>out. printint cons_digits n 10 True @ out) (cfmt cs as)
         | _ \<Rightarrow> None)
      else if d = CHR ''x'' \<or> d = CHR ''p'' then
        (case args of ANum n # as \<Rightarrow> map_option (\<lambda>out. printint cons_digits n 16 False @ out) (cfmt cs as)
         | _ \<Rightarrow> None)
      else if d = CHR ''s'' then
        (case args of AStr s # as \<Rightarrow> map_option (\<lambda>out. str_arg s @ out) (cfmt cs as)
         | _ \<Rightarrow> None)
      else if d = CHR ''%'' then map_option (\<lambda>out. CHR ''%'' # out) (cfmt cs args)
      else map_option (\<lambda>out. CHR ''%'' # d # out) (cfmt cs args))"

definition cprintf :: "string \<Rightarrow> arg list \<Rightarrow> ('a kst_scheme, unit) kern" where
  "cprintf fmt args = bnd (rd cons_locking) (\<lambda>locking.
     sq (whenb locking (acquire ConsLock))
       (case cfmt fmt args of
          None \<Rightarrow> undef ''cprintf: missing argument''
        | Some out \<Rightarrow> sq (upd (\<lambda>s. s\<lparr>console := console s @ out\<rparr>))
                         (whenb locking (release ConsLock))))"

lemma held_console_comm: "s\<lparr>held := h, console := c\<rparr> = s\<lparr>console := c, held := h\<rparr>"
  by (rule kst.equality) simp_all

lemma cprintf_eq:
  assumes "cfmt fmt args = Some out" and "cons_locking s \<longrightarrow> ConsLock \<notin> set (held s)"
  shows "cprintf fmt args s = Ok () (s\<lparr>console := console s @ out\<rparr>)"
  using assms by (simp add: cprintf_def monad_defs acquire_def release_def held_console_comm)

lemma cprintf_Ok:
  assumes "cprintf fmt args s = Ok x t"
  shows "\<exists>out. t = s\<lparr>console := console s @ out\<rparr> \<and> cfmt fmt args = Some out"
  using assms
  by (auto simp: cprintf_def monad_defs acquire_def release_def held_console_comm
      split: if_splits option.splits)

text \<open>\<open>printf\<close> of the user library: \<open>pct\<close> is its variable \<open>state\<close>, 0 or \<open>'%'\<close>.\<close>

fun ufmt :: "bool \<Rightarrow> string \<Rightarrow> arg list \<Rightarrow> string option" where
  "ufmt pct [] args = Some []"
| "ufmt pct (c # cs) args =
     (if \<not> pct then
        if c = CHR ''%'' then ufmt True cs args
        else map_option (\<lambda>out. c # out) (ufmt False cs args)
      else if c = CHR ''d'' then
        (case args of ANum n # as \<Rightarrow> map_option (\<lambda>out. printint user_digits n 10 True @ out) (ufmt False cs as)
         | _ \<Rightarrow> None)
      else if c = CHR ''x'' \<or> c = CHR ''p'' then
        (case args of ANum n # as \<Rightarrow> map_option (\<lambda>out. printint user_digits n 16 False @ out) (ufmt False cs as)
         | _ \<Rightarrow> None)
      else if c = CHR ''s'' then
        (case args of AStr s # as \<Rightarrow> map_option (\<lambda>out. str_arg s @ out) (ufmt False cs as)
         | _ \<Rightarrow> None)
      else if c = CHR ''c'' then
        (case args of ANum n # as \<Rightarrow> map_option (\<lambda>out. char_of (unat n mod 256) # out) (ufmt False cs as)
         | _ \<Rightarrow> None)
      else if c = CHR ''%'' then map_option (\<lambda>out. c # out) (ufmt False cs args)
      else map_option (\<lambda>out. CHR ''%'' # c # out) (ufmt False cs args))"

definition printf :: "string \<Rightarrow> arg list \<Rightarrow> string option" where
  "printf fmt args = ufmt False fmt args"

text \<open>The two agree on formats whose directives are \<open>%d\<close>, \<open>%s\<close> and \<open>%%\<close>.\<close>

fun plain_fmt :: "string \<Rightarrow> bool" where
  "plain_fmt [] = True"
| "plain_fmt [c] = True"
| "plain_fmt (c # d # cs) =
     (if c = CHR ''%'' then (d = CHR ''d'' \<or> d = CHR ''s'' \<or> d = CHR ''%'') \<and> plain_fmt cs
      else plain_fmt (d # cs))"

lemma decimal_digits: "i < 10 \<Longrightarrow> cons_digits ! i = user_digits ! i" for i :: nat
  by (auto simp: cons_digits_def user_digits_def nth_Cons split: nat.split)

lemma digit_buf_decimal: "digit_buf cons_digits 10 x = digit_buf user_digits 10 x"
proof (induction "unat x" arbitrary: x rule: less_induct)
  case less
  have m: "unat (x mod 10) < 10" by (simp add: unat_mod)
  have "unat (x div 10) < unat x" if "x div 10 \<noteq> 0"
    using that div_smaller[of 10 "unat x"] by (simp add: word_unat_eq_iff unat_div)
  then show ?case
    using less decimal_digits[OF m] digit_buf.simps[of cons_digits 10 x] digit_buf.simps[of user_digits 10 x]
    by (cases "x div 10 = 0") simp_all
qed

lemma printint_decimal: "printint cons_digits n 10 True = printint user_digits n 10 True"
  by (simp add: printint_def digit_buf_decimal)

section \<open>Properties\<close>



text \<open>C38. The kernel's \<open>cprintf\<close> and the user library's \<open>printf\<close>, written differently, produce the
  same output for every format whose directives are \<open>%d\<close>, \<open>%s\<close> and \<open>%%\<close>, with any arguments.\<close>

theorem printf_cprintf_agree:
  assumes "plain_fmt fmt"
  shows "printf fmt args = cfmt fmt args"
  unfolding printf_def using assms
proof (induction fmt args rule: cfmt.induct)
  case (3 c d cs args)
  then show ?case
    by (cases "c = CHR ''%''") (auto simp: printint_decimal split: list.split arg.split)
qed auto

theorem printf_cprintf_agree_witness:
  "printf ''%d of %s%%'' [ANum 7, AStr None] = cfmt ''%d of %s%%'' [ANum 7, AStr None]"
  by (rule printf_cprintf_agree) simp

end
