(* ===== verification/Vm.thy ===== *)
theory Vm
  imports Kalloc Printf
begin

unbundle bit_operations_syntax

text \<open>
  Page tables (\<open>src/vm.c\<close>, with the layout macros of \<open>src/mmu.h\<close>). A page directory and its page
  tables are words in the physical memory of \<open>Kalloc\<close>, as they are for the MMU. \<open>entry\<close> is the
  MMU's two-level lookup; the lemmas relate each operation to it: what a directory maps is a
  partial function from page numbers to page-table entries, and \<open>walkpgdir\<close> with allocation
  leaves that function alone while \<open>mappages\<close> extends it.
\<close>

section \<open>Address and entry fields\<close>

definition PDX :: "u32 \<Rightarrow> u32" where "PDX va = drop_bit 22 va AND 0x3FF"
definition PTX :: "u32 \<Rightarrow> u32" where "PTX va = drop_bit 12 va AND 0x3FF"
definition PGADDR :: "u32 \<Rightarrow> u32 \<Rightarrow> u32 \<Rightarrow> u32" where
  "PGADDR d t off = push_bit 22 d OR push_bit 12 t OR off"
definition PTE_P :: u32 where "PTE_P = 1"
definition PTE_W :: u32 where "PTE_W = 2"
definition PTE_U :: u32 where "PTE_U = 4"
definition PTE_ADDR :: "u32 \<Rightarrow> u32" where "PTE_ADDR pte = pte AND NOT 0xFFF"
definition PTE_FLAGS :: "u32 \<Rightarrow> u32" where "PTE_FLAGS pte = pte AND 0xFFF"

lemma mod_page: "(x :: u32) mod PGSIZE = x AND 0xFFF"
  using take_bit_eq_mod[of 12 x] take_bit_eq_mask[of 12 x] 
  by (simp add: PGSIZE_def mask_eq_exp_minus_1)

lemma PGROUNDDOWN_split: "PGROUNDDOWN va + va mod PGSIZE = va"
proof -
  have m: "(4095::u32) = mask 12" by (simp add: mask_eq_exp_minus_1)
  have "PGROUNDDOWN va + (va AND 0xFFF) = PGROUNDDOWN va OR (va AND 0xFFF)"
    unfolding PGROUNDDOWN_def PGSIZE_def by (rule disjunctive_add) (simp add: m bit_simps)
  also have "\<dots> = va"
    unfolding PGROUNDDOWN_def PGSIZE_def by (rule bit_word_eqI) (auto simp: m bit_simps)
  finally show ?thesis by (simp add: mod_page)
qed

lemma unat_mod_page: "unat (va mod PGSIZE) = unat va mod 4096"
  by (simp add: PGSIZE_def unat_mod)

lemma page_off: "unat (va - PGROUNDDOWN va) = unat va mod 4096"
proof -
  have "va - PGROUNDDOWN va = va mod PGSIZE" using PGROUNDDOWN_split[of va] by (simp add: algebra_simps)
  then show ?thesis by (simp add: unat_mod_page)
qed
lemma PTE_ADDR_down: "PTE_ADDR x = PGROUNDDOWN x"
  by (simp add: PTE_ADDR_def PGROUNDDOWN_def PGSIZE_def)

lemma PGROUNDDOWN_aligned [simp]: "PGROUNDDOWN va mod PGSIZE = 0"
proof -
  have m: "(4095::u32) = mask 12" by (simp add: mask_eq_exp_minus_1)
  have "PGROUNDDOWN va AND 0xFFF = 0"
    unfolding PGROUNDDOWN_def PGSIZE_def by (rule bit_word_eqI) (simp add: m bit_simps)
  then show ?thesis unfolding mod_page .
qed

lemma PGROUNDDOWN_id: "x mod PGSIZE = 0 \<Longrightarrow> PGROUNDDOWN x = x"
  using PGROUNDDOWN_split[of x] by simp

lemma page_dvd: "x mod PGSIZE = 0 \<longleftrightarrow> 4096 dvd unat x"
  by (simp add: word_unat_eq_iff unat_mod_page mod_eq_0_iff_dvd)

lemma aligned_add: "x mod PGSIZE = 0 \<Longrightarrow> y mod PGSIZE = 0 \<Longrightarrow> (x + y :: u32) mod PGSIZE = 0"
  unfolding page_dvd by (simp add: unat_word_ariths dvd_mod)

lemma aligned_P2V [simp]: "P2V x mod PGSIZE = 0 \<longleftrightarrow> x mod PGSIZE = 0"
  and aligned_V2P [simp]: "V2P x mod PGSIZE = 0 \<longleftrightarrow> x mod PGSIZE = 0"
proof -
  have k: "KERNBASE mod PGSIZE = 0" by (simp add: KERNBASE_def PGSIZE_def)
  have p: "P2V y mod PGSIZE = 0" if "y mod PGSIZE = 0" for y
    unfolding P2V_def using that k by (rule aligned_add)
  have "V2P y = P2V y" for y by (simp add: V2P_def P2V_def KERNBASE_def)
  then show "P2V x mod PGSIZE = 0 \<longleftrightarrow> x mod PGSIZE = 0" "V2P x mod PGSIZE = 0 \<longleftrightarrow> x mod PGSIZE = 0"
    using p[of x] p[of "P2V x"] V2P_P2V[of x] by metis+
qed


lemma PTE_ADDR_flags: "x mod PGSIZE = 0 \<Longrightarrow> f AND NOT 0xFFF = 0 \<Longrightarrow> PTE_ADDR (x OR f) = x"
  using PGROUNDDOWN_id[of x]
  by (simp add: PTE_ADDR_def PGROUNDDOWN_def PGSIZE_def bit.conj_disj_distrib2)

lemma unat_PDX: "unat (PDX va) = unat va div 4194304"
proof -
  have "PDX va = take_bit 10 (drop_bit 22 va)"
    by (simp add: PDX_def take_bit_eq_mask mask_eq_exp_minus_1)
  then have "unat (PDX va) = unat va div 4194304 mod 1024"
    by (simp only: unsigned_take_bit_eq unsigned_drop_bit_eq) (simp add: take_bit_eq_mod drop_bit_eq_div unat_u32)
  also have "\<dots> = unat va div 4194304" 
   using unat_u32[of va] by (simp add: div_less_iff_less_mult)
  finally show ?thesis .
qed

lemma unat_PTX: "unat (PTX va) = unat va div 4096 mod 1024"
proof -
  have "PTX va = take_bit 10 (drop_bit 12 va)"
    by (simp add: PTX_def take_bit_eq_mask mask_eq_exp_minus_1)
  then show ?thesis
    by (simp only: unsigned_take_bit_eq unsigned_drop_bit_eq) (simp add: take_bit_eq_mod drop_bit_eq_div unat_u32)
qed

lemma PDX_bound: "PDX va < 1024" and PTX_bound: "PTX va < 1024"
  using unat_u32[of va] by (simp_all add: word_less_nat_alt unat_PDX unat_PTX div_less_iff_less_mult)

definition vpn :: "u32 \<Rightarrow> nat" where "vpn va = unat va div 4096"

lemma vpn_eq_iff: "vpn va = vpn vb \<longleftrightarrow> PDX va = PDX vb \<and> PTX va = PTX vb"
proof -
  have d: "unat va div 4194304 = vpn va div 1024" for va :: u32
    by (simp add: vpn_def div_mult2_eq[symmetric])
  show ?thesis
    unfolding word_unat_eq_iff[of "PDX va"] word_unat_eq_iff[of "PTX va"] unat_PDX unat_PTX d
    unfolding vpn_def[symmetric]
    by (metis div_mult_mod_eq)
qed

section \<open>Operations\<close>

definition ld32 :: "u32 \<Rightarrow> ('a kmem_scheme, u32) kern" where
  "ld32 a = rd (\<lambda>s. load32 (pmem s) a)"

definition st32 :: "u32 \<Rightarrow> u32 \<Rightarrow> ('a kmem_scheme, unit) kern" where
  "st32 a v = upd (\<lambda>s. s\<lparr>pmem := store32 a v (pmem s)\<rparr>)"

definition kmemset :: "u32 \<Rightarrow> u32 \<Rightarrow> u32 \<Rightarrow> ('a kmem_scheme, unit) kern" where
  "kmemset a c n = upd (\<lambda>s. s\<lparr>pmem := memset a c n (pmem s)\<rparr>)"

definition kmemmove :: "u32 \<Rightarrow> u32 \<Rightarrow> u32 \<Rightarrow> ('a kmem_scheme, unit) kern" where
  "kmemmove dst src n = upd (\<lambda>s. s\<lparr>pmem := memmove dst src n (pmem s)\<rparr>)"

text \<open>The bytes of a kernel object outside the modelled memory, copied to an address.\<close>

fun put_bytes :: "u32 \<Rightarrow> u8 list \<Rightarrow> mem \<Rightarrow> mem" where
  "put_bytes a [] m = m"
| "put_bytes a (b # bs) m = put_bytes (a + 1) bs (m(a := b))"

definition get_bytes :: "u32 \<Rightarrow> nat \<Rightarrow> mem \<Rightarrow> u8 list" where
  "get_bytes a n m = map (\<lambda>i. m (a + of_nat i)) [0..<n]"

text \<open>The kernel address of the entry for \<open>va\<close>, or 0.\<close>

definition walkpgdir :: "u32 \<Rightarrow> u32 \<Rightarrow> bool \<Rightarrow> ('a kmem_scheme, u32) kern" where
  "walkpgdir pgdir va alloc =
     bnd (ld32 (pgdir + 4 * PDX va)) (\<lambda>pde.
       if pde AND PTE_P \<noteq> 0 then ret (P2V (PTE_ADDR pde) + 4 * PTX va)
       else if \<not> alloc then ret 0
       else bnd kalloc (\<lambda>pgtab.
         if pgtab = 0 then ret 0
         else sq (kmemset pgtab 0 PGSIZE)
             (sq (st32 (pgdir + 4 * PDX va) (V2P pgtab OR PTE_P OR PTE_W OR PTE_U))
             (ret (pgtab + 4 * PTX va)))))"

text \<open>The loop of \<open>mappages\<close> ends when \<open>a\<close> reaches \<open>last\<close>. Both are page-aligned, so it does so
  after \<open>(last - a) / PGSIZE + 1\<close> rounds, modulo \<open>2\<^sup>3\<^sup>2\<close>; that is its fuel.\<close>

fun mappages_loop :: "nat \<Rightarrow> u32 \<Rightarrow> u32 \<Rightarrow> u32 \<Rightarrow> u32 \<Rightarrow> u32 \<Rightarrow> ('a kmem_scheme, int) kern" where
  "mappages_loop 0 pgdir a lastp pa perm = spins"
| "mappages_loop (Suc k) pgdir a lastp pa perm =
     bnd (walkpgdir pgdir a True) (\<lambda>pte.
       if pte = 0 then ret (-1)
       else bnd (ld32 pte) (\<lambda>e.
         if e AND PTE_P \<noteq> 0 then panic ''remap''
         else sq (st32 pte (pa OR perm OR PTE_P))
             (if a = lastp then ret 0
              else mappages_loop k pgdir (a + PGSIZE) lastp (pa + PGSIZE) perm)))"

definition mappages :: "u32 \<Rightarrow> u32 \<Rightarrow> u32 \<Rightarrow> u32 \<Rightarrow> u32 \<Rightarrow> ('a kmem_scheme, int) kern" where
  "mappages pgdir va sz pa perm =
     (let a = PGROUNDDOWN va; lastp = PGROUNDDOWN (va + sz - 1) in
      mappages_loop (Suc (unat ((lastp - a) div PGSIZE))) pgdir a lastp pa perm)"

text \<open>The loop of \<open>deallocuvm\<close>. The address only wraps when \<open>oldsz\<close> lies in the last 4 megabytes,
  and then the loop never ends.\<close>

function deallocuvm_loop :: "u32 \<Rightarrow> u32 \<Rightarrow> u32 \<Rightarrow> ('a kmem_scheme, unit) kern" where
  "deallocuvm_loop pgdir a oldsz =
     (if a < oldsz then
        bnd (walkpgdir pgdir a False) (\<lambda>pte.
          if pte = 0 then
            (let a' = PGADDR (PDX a + 1) 0 0 - PGSIZE + PGSIZE in
             if a' \<le> a then spins else deallocuvm_loop pgdir a' oldsz)
          else
            sq (bnd (ld32 pte) (\<lambda>e.
                  whenb (e AND PTE_P \<noteq> 0)
                    (if PTE_ADDR e = 0 then panic ''kfree''
                     else sq (kfree (P2V (PTE_ADDR e))) (st32 pte 0))))
               (let a' = a + PGSIZE in
                if a' \<le> a then spins else deallocuvm_loop pgdir a' oldsz))
      else ret ())"
  by pat_completeness auto
termination
proof (relation "measure (\<lambda>(pgdir, a, oldsz). unat oldsz - unat a)", goal_cases)
  case (2 pgdir a oldsz pte a')
  then show ?case by (simp add: word_less_nat_alt word_le_nat_alt)
next
  case (3 pgdir a oldsz pte a')
  then show ?case by (simp add: word_less_nat_alt word_le_nat_alt)
qed simp

declare deallocuvm_loop.simps [simp del]

definition deallocuvm :: "u32 \<Rightarrow> u32 \<Rightarrow> u32 \<Rightarrow> ('a kmem_scheme, u32) kern" where
  "deallocuvm pgdir oldsz newsz =
     (if newsz \<ge> oldsz then ret oldsz
      else sq (deallocuvm_loop pgdir (PGROUNDUP newsz) oldsz) (ret newsz))"

definition NPDENTRIES :: nat where "NPDENTRIES = 1024"

definition freevm :: "u32 \<Rightarrow> ('a kmem_scheme, unit) kern" where
  "freevm pgdir =
     (if pgdir = 0 then panic ''freevm: no pgdir''
      else sq (deallocuvm pgdir KERNBASE 0)
          (sq (for_each [0..<NPDENTRIES] (\<lambda>i.
                 bnd (ld32 (pgdir + 4 * of_nat i)) (\<lambda>e.
                   whenb (e AND PTE_P \<noteq> 0) (kfree (P2V (PTE_ADDR e))))))
              (kfree pgdir)))"

text \<open>The addresses a \<open>for(a = lo; a < hi; a += PGSIZE)\<close> visits; \<open>hi\<close> is at most \<open>KERNBASE\<close> in every
  use, so that \<open>a\<close> does not wrap.\<close>

definition page_range :: "u32 \<Rightarrow> u32 \<Rightarrow> u32 list" where
  "page_range lo hi = map (\<lambda>i. lo + PGSIZE * of_nat i) [0..<(unat hi - unat lo + 4095) div 4096]"

text \<open>The kernel's mappings: virtual address, physical start, physical end, permissions. \<open>data\<close>
  is the linker symbol at which the writable kernel data starts.\<close>

record vmst = kmem +
  data :: u32
  kpgdir :: u32
  cr3 :: u32

definition kmap :: "u32 \<Rightarrow> (u32 \<times> u32 \<times> u32 \<times> u32) list" where
  "kmap dat = [(KERNBASE, 0, EXTMEM, PTE_W),
               (KERNLINK, V2P KERNLINK, V2P dat, 0),
               (dat, V2P dat, PHYSTOP, PTE_W),
               (DEVSPACE, DEVSPACE, 0, PTE_W)]"

definition setupkvm :: "('a vmst_scheme, u32) kern" where
  "setupkvm = bnd kalloc (\<lambda>pgdir.
     if pgdir = 0 then ret 0
     else sq (kmemset pgdir 0 PGSIZE)
       (if P2V PHYSTOP > DEVSPACE then panic ''PHYSTOP too high''
        else bnd (rd data) (\<lambda>dat.
          bnd (scan (kmap dat) (\<lambda>(virt, phys_start, phys_end, perm).
                 bnd (mappages pgdir virt (phys_end - phys_start) phys_start perm) (\<lambda>r.
                   if r < 0 then sq (freevm pgdir) (ret (Some 0)) else ret None)))
            (\<lambda>r. case r of Some v \<Rightarrow> ret v | None \<Rightarrow> ret pgdir))))"

definition switchkvm :: "('a vmst_scheme, unit) kern" where
  "switchkvm = upd (\<lambda>s. s\<lparr>cr3 := V2P (kpgdir s)\<rparr>)"

definition kvmalloc :: "('a vmst_scheme, unit) kern" where
  "kvmalloc = bnd setupkvm (\<lambda>d. sq (upd (\<lambda>s. s\<lparr>kpgdir := d\<rparr>)) switchkvm)"

text \<open>\<open>init\<close> is the first program's code, linked into the kernel image.\<close>

definition inituvm :: "u32 \<Rightarrow> u8 list \<Rightarrow> ('a kmem_scheme, unit) kern" where
  "inituvm pgdir init =
     (if length init \<ge> 4096 then panic ''inituvm: more than a page''
      else bnd kalloc (\<lambda>mem.
        if mem = 0 then undef ''inituvm: memset of a null page''
        else sq (kmemset mem 0 PGSIZE)
            (sq (mappages pgdir 0 PGSIZE (V2P mem) (PTE_W OR PTE_U))
                (upd (\<lambda>s. s\<lparr>pmem := put_bytes mem init (pmem s)\<rparr>)))))"

definition allocuvm :: "u32 \<Rightarrow> u32 \<Rightarrow> u32 \<Rightarrow> ('a kmem_scheme, u32) kern" where
  "allocuvm pgdir oldsz newsz =
     (if newsz \<ge> KERNBASE then ret 0
      else if newsz < oldsz then ret oldsz
      else bnd (scan (page_range (PGROUNDUP oldsz) newsz) (\<lambda>a.
          bnd kalloc (\<lambda>mem.
            if mem = 0 then
              sq (cprintf ''allocuvm out of memory\<newline>'' [])
                 (sq (deallocuvm pgdir newsz oldsz) (ret (Some 0)))
            else sq (kmemset mem 0 PGSIZE)
              (bnd (mappages pgdir a PGSIZE (V2P mem) (PTE_W OR PTE_U)) (\<lambda>r.
                 if r < 0 then
                   sq (cprintf ''allocuvm out of memory (2)\<newline>'' [])
                      (sq (deallocuvm pgdir newsz oldsz) (sq (kfree mem) (ret (Some 0))))
                 else ret None)))))
        (\<lambda>r. case r of Some v \<Rightarrow> ret v | None \<Rightarrow> ret newsz))"

definition clearpteu :: "u32 \<Rightarrow> u32 \<Rightarrow> ('a kmem_scheme, unit) kern" where
  "clearpteu pgdir uva = bnd (walkpgdir pgdir uva False) (\<lambda>pte.
     if pte = 0 then panic ''clearpteu''
     else bnd (ld32 pte) (\<lambda>e. st32 pte (e AND NOT PTE_U)))"

definition copyuvm :: "u32 \<Rightarrow> u32 \<Rightarrow> ('a vmst_scheme, u32) kern" where
  "copyuvm pgdir sz = bnd setupkvm (\<lambda>d.
     if d = 0 then ret 0
     else bnd (scan (page_range 0 sz) (\<lambda>i.
         bnd (walkpgdir pgdir i False) (\<lambda>pte.
           if pte = 0 then panic ''copyuvm: pte should exist''
           else bnd (ld32 pte) (\<lambda>e.
             if e AND PTE_P = 0 then panic ''copyuvm: page not present''
             else bnd kalloc (\<lambda>mem.
               if mem = 0 then ret (Some ())
               else sq (kmemmove mem (P2V (PTE_ADDR e)) PGSIZE)
                 (bnd (mappages d i PGSIZE (V2P mem) (PTE_FLAGS e)) (\<lambda>r.
                    if r < 0 then sq (kfree mem) (ret (Some ())) else ret None)))))))
       (\<lambda>bad. case bad of Some _ \<Rightarrow> sq (freevm d) (ret 0) | None \<Rightarrow> ret d))"

definition uva2ka :: "u32 \<Rightarrow> u32 \<Rightarrow> ('a kmem_scheme, u32) kern" where
  "uva2ka pgdir uva = bnd (walkpgdir pgdir uva False) (\<lambda>pte.
     if pte = 0 then undef ''uva2ka: null page-table entry''
     else bnd (ld32 pte) (\<lambda>e.
       if e AND PTE_P = 0 then ret 0
       else if e AND PTE_U = 0 then ret 0
       else ret (P2V (PTE_ADDR e))))"

text \<open>\<open>copyout\<close> takes the bytes of its kernel buffer; \<open>len\<close> is their number.\<close>

function copyout :: "u32 \<Rightarrow> u32 \<Rightarrow> u8 list \<Rightarrow> ('a kmem_scheme, int) kern" where
  "copyout pgdir va buf =
     (if buf = [] then ret 0
      else let va0 = PGROUNDDOWN va; n = min (4096 - unat (va - va0)) (length buf) in
        bnd (uva2ka pgdir va0) (\<lambda>pa0.
          if pa0 = 0 then ret (-1)
          else sq (upd (\<lambda>s. s\<lparr>pmem := put_bytes (pa0 + (va - va0)) (take n buf) (pmem s)\<rparr>))
                  (copyout pgdir (va0 + PGSIZE) (drop n buf))))"
  by pat_completeness auto
termination
proof (relation "measure (\<lambda>(pgdir, va, buf). length buf)", goal_cases)
  case (2 pgdir va buf va0 n pa0)
  then have "0 < n" using page_off[of va] by simp
  then show ?case using 2 by simp
qed simp

declare copyout.simps [simp del]

section \<open>The kernel's accesses to user memory\<close>

text \<open>A user address is translated by the directory that \<open>cr3\<close> points to. The kernel may use a page
  without \<open>PTE_U\<close>, but \<open>CR0_WP\<close> (set in \<open>src/entry.S\<close>) makes it honour \<open>PTE_W\<close>. A fault taken in
  the kernel ends in \<open>panic("trap")\<close>.\<close>

definition xlate :: "mem \<Rightarrow> u32 \<Rightarrow> bool \<Rightarrow> u32 \<Rightarrow> u32 option" where
  "xlate m d wr va =
     (let pde = load32 m (d + 4 * PDX va); pte = load32 m (P2V (PTE_ADDR pde) + 4 * PTX va) in
      if pde AND PTE_P = 0 \<or> pte AND PTE_P = 0 \<or> wr \<and> pte AND PTE_W = 0 then None
      else Some (P2V (PTE_ADDR pte) + va mod PGSIZE))"

fun put_user :: "u32 \<Rightarrow> u8 list \<Rightarrow> ('a vmst_scheme, unit) kern" where
  "put_user va [] = ret ()"
| "put_user va (b # bs) = bnd (rd (\<lambda>s. xlate (pmem s) (P2V (cr3 s)) True va)) (\<lambda>r.
     case r of None \<Rightarrow> panic ''trap''
     | Some a \<Rightarrow> sq (upd (\<lambda>s. s\<lparr>pmem := (pmem s)(a := b)\<rparr>)) (put_user (va + 1) bs))"

fun get_user :: "u32 \<Rightarrow> nat \<Rightarrow> ('a vmst_scheme, u8 list) kern" where
  "get_user va 0 = ret []"
| "get_user va (Suc n) = bnd (rd (\<lambda>s. (pmem s, xlate (pmem s) (P2V (cr3 s)) False va))) (\<lambda>(m, r).
     case r of None \<Rightarrow> panic ''trap''
     | Some a \<Rightarrow> bnd (get_user (va + 1) n) (\<lambda>bs. ret (m a # bs)))"

text \<open>Little-endian words.\<close>

definition le32 :: "u32 \<Rightarrow> u8 list" where
  "le32 v = [ucast v, ucast (drop_bit 8 v), ucast (drop_bit 16 v), ucast (drop_bit 24 v)]"

definition of_le32 :: "u8 list \<Rightarrow> u32" where
  "of_le32 bs = ucast (bs ! 0) OR push_bit 8 (ucast (bs ! 1)) OR push_bit 16 (ucast (bs ! 2))
     OR push_bit 24 (ucast (bs ! 3))"

lemma length_le32 [simp]: "length (le32 v) = 4"
  by (simp add: le32_def)

lemma of_le32_le32 [simp]: "of_le32 (le32 v) = v"
  by (simp add: of_le32_def le32_def word32_bytes)

section \<open>Frames\<close>

text \<open>The page-table routines change memory, the free list and, for an error message, the console;
  they return with the locks they were called with.\<close>

definition vm_frame :: "'a kmem_scheme \<Rightarrow> 'a kmem_scheme \<Rightarrow> bool" where
  "vm_frame s t \<longleftrightarrow> (\<exists>c m f. t = s\<lparr>console := c, pmem := m, freelist := f\<rparr>)"

lemma vm_frameI: "t = s\<lparr>console := c, pmem := m, freelist := f\<rparr> \<Longrightarrow> vm_frame s t"
  unfolding vm_frame_def by blast

lemma vm_frameE:
  assumes "vm_frame s t"
  obtains c m f where "t = s\<lparr>console := c, pmem := m, freelist := f\<rparr>"
  using assms unfolding vm_frame_def by blast

lemma vm_upd_comm:
  "s\<lparr>pmem := m, freelist := f, console := c\<rparr> = s\<lparr>console := c, pmem := m, freelist := f\<rparr>"
  "s\<lparr>console := c, pmem := m, freelist := f, held := h\<rparr> =
     s\<lparr>held := h, console := c, pmem := m, freelist := f\<rparr>"
  by (rule kmem.equality; simp)+

interpretation vmf: lock_frame vm_frame
proof
  fix s t u :: "'a kmem_scheme" and h
  show "vm_frame s s"
    by (rule vm_frameI[where c = "console s" and m = "pmem s" and f = "freelist s"]) simp
  show "vm_frame s t \<Longrightarrow> vm_frame t u \<Longrightarrow> vm_frame s u"
    by (elim vm_frameE) (rule vm_frameI, simp add: vm_upd_comm)
  show "vm_frame s t \<Longrightarrow> held t = held s" by (elim vm_frameE) simp
  show "vm_frame s t \<Longrightarrow> vm_frame (s\<lparr>held := h\<rparr>) (t\<lparr>held := h\<rparr>)"
    by (elim vm_frameE) (rule vm_frameI, simp add: vm_upd_comm)
qed

lemma mem_vm_frame: "mem_frame s t \<Longrightarrow> vm_frame s t"
  by (elim mem_frameE) (rule vm_frameI[where c = "console s"], simp)

lemma vm_upd_pmem: "vm_frame s (s\<lparr>pmem := m\<rparr>)" and vm_upd_console: "vm_frame s (s\<lparr>console := c\<rparr>)"
  by (rule vm_frameI[where c = "console s" and f = "freelist s"], simp)
    (rule vm_frameI[where m = "pmem s" and f = "freelist s"], simp)

lemma cprintf_vm_frame: "keeps vm_frame (cprintf fmt args)"
  by (rule keepsI) (auto dest!: cprintf_Ok simp: vm_upd_console)

lemma vm_basic_frames [frame_intros]:
  "keeps vm_frame kalloc" "keeps vm_frame (kfree v)" "keeps vm_frame (ld32 a)"
  "keeps vm_frame (st32 a w)" "keeps vm_frame (kmemset a c n)" "keeps vm_frame (kmemmove a b n)"
  "keeps vm_frame (cprintf fmt args)"
  by (auto simp: ld32_def st32_def kmemset_def kmemmove_def
      intro!: keeps_mono[OF kalloc_frame mem_vm_frame] keeps_mono[OF kfree_frame mem_vm_frame]
        vmf.keeps_rd vmf.keeps_upd vm_upd_pmem cprintf_vm_frame)

lemmas vm_intros = vmf.lock_rules vm_basic_frames vmf.keeps_upd vm_upd_pmem

lemma walkpgdir_frame [frame_intros]: "keeps vm_frame (walkpgdir d va al)"
  unfolding walkpgdir_def by (intro vm_intros)

lemma mappages_loop_frame: "keeps vm_frame (mappages_loop k d a l pa perm)"
  by (induction k arbitrary: a pa) (auto intro!: vm_intros walkpgdir_frame)

lemma mappages_frame [frame_intros]: "keeps vm_frame (mappages d va sz pa perm)"
  unfolding mappages_def Let_def by (rule mappages_loop_frame)

lemma deallocuvm_loop_frame: "keeps vm_frame (deallocuvm_loop d a b)"
proof (induction d a b rule: deallocuvm_loop.induct)
  case (1 d a b)
  show ?case
    by (subst deallocuvm_loop.simps, unfold Let_def)
      (intro vm_intros walkpgdir_frame;
        ((rule "1.IH"(1); (assumption | rule refl)) | (rule "1.IH"(2); (assumption | rule refl))))
qed

lemma deallocuvm_frame [frame_intros]: "keeps vm_frame (deallocuvm d a b)"
  unfolding deallocuvm_def by (intro vm_intros deallocuvm_loop_frame)

lemma freevm_frame [frame_intros]: "keeps vm_frame (freevm d)"
  unfolding freevm_def by (intro vm_intros deallocuvm_frame)

lemma setupkvm_frame [frame_intros]: "keeps vm_frame setupkvm"
  unfolding setupkvm_def by (intro vm_intros mappages_frame freevm_frame)

lemma inituvm_frame [frame_intros]: "keeps vm_frame (inituvm d code)"
  unfolding inituvm_def by (intro vm_intros mappages_frame)

lemma allocuvm_frame [frame_intros]: "keeps vm_frame (allocuvm d a b)"
  unfolding allocuvm_def by (intro vm_intros mappages_frame deallocuvm_frame)

lemma clearpteu_frame [frame_intros]: "keeps vm_frame (clearpteu d a)"
  unfolding clearpteu_def by (intro vm_intros walkpgdir_frame)

lemma copyuvm_frame [frame_intros]: "keeps vm_frame (copyuvm d sz)"
  unfolding copyuvm_def by (intro vm_intros setupkvm_frame walkpgdir_frame mappages_frame freevm_frame)

lemma uva2ka_frame [frame_intros]: "keeps vm_frame (uva2ka d a)"
  unfolding uva2ka_def by (intro vm_intros walkpgdir_frame)

lemma copyout_frame [frame_intros]: "keeps vm_frame (copyout d va buf)"
proof (induction d va buf rule: copyout.induct)
  case (1 d va buf)
  show ?case
    by (subst copyout.simps, unfold Let_def)
      (intro vm_intros uva2ka_frame; rule "1.IH"; (assumption | rule refl))
qed

lemma put_user_frame [frame_intros]: "keeps vm_frame (put_user va bs)"
  by (induction bs arbitrary: va) (auto intro!: vm_intros)

lemma get_user_frame [frame_intros]: "keeps vm_frame (get_user va n)"
  by (induction n arbitrary: va) (auto intro!: vm_intros)

section \<open>Pages as arrays of words\<close>
definition slot :: "mem \<Rightarrow> u32 \<Rightarrow> u32 \<Rightarrow> u32" where
  "slot m p i = load32 m (p + 4 * i)"

lemma slot_addr:
  assumes "p mod PGSIZE = 0" "i < 1024"
  shows "unat (4 * i) = 4 * unat i" and "4 * i < PGSIZE" and "(p + 4 * i) mod 4 = 0"
proof -
  have i: "unat i < 1024" using assms(2) by (simp add: word_less_nat_alt)
  then show u: "unat (4 * i) = 4 * unat i" by (simp add: unat_word_ariths)
  then show "4 * i < PGSIZE" using i by (simp add: word_less_nat_alt PGSIZE_def)
  have "4 dvd unat p" using assms(1) unfolding page_dvd by (rule dvd_trans[rotated]) simp
  then have "4 dvd unat (p + 4 * i)" by (simp add: unat_word_ariths u dvd_mod)
  then show "(p + 4 * i) mod 4 = 0" by (simp add: word_unat_eq_iff unat_mod mod_eq_0_iff_dvd)
qed

lemma slot_inj:
  assumes "p mod PGSIZE = 0" "q mod PGSIZE = 0" "i < 1024" "j < 1024" "p + 4 * i = q + 4 * j"
  shows "p = q \<and> i = j"
proof -
  have "p = q"
  proof (rule ccontr)
    assume "p \<noteq> q"
    then have "4096 \<le> unat (p + 4 * i - q)"
      by (rule page_disjoint[OF assms(1,2) _ slot_addr(2)[OF assms(1,3)]])
    then show False using assms(5) slot_addr(2)[OF assms(2,4)] by (simp add: word_less_nat_alt PGSIZE_def)
  qed
  moreover from this have "4 * i = 4 * j" using assms(5) by simp
  then have "i = j" using slot_addr(1)[OF assms(1,3)] slot_addr(1)[OF assms(2,4)]
    by (simp add: word_unat_eq_iff)
  ultimately show ?thesis by simp
qed

lemma slot_store:
  assumes "p mod PGSIZE = 0" "q mod PGSIZE = 0" "i < 1024" "j < 1024"
  shows "slot (store32 (p + 4 * i) v m) q j = (if q = p \<and> j = i then v else slot m q j)"
proof (cases "q = p \<and> j = i")
  case False
  then have "p + 4 * i \<noteq> q + 4 * j" using slot_inj[OF assms] by auto
  then show ?thesis unfolding slot_def
    using False load32_store32_other[OF slot_addr(3)[OF assms(1,3)] slot_addr(3)[OF assms(2,4)]] by auto
qed (simp add: slot_def)

text \<open>Memories that agree on a page.\<close>
definition same_page :: "u32 \<Rightarrow> mem \<Rightarrow> mem \<Rightarrow> bool" where
  "same_page p m m' \<longleftrightarrow> (\<forall>i<PGSIZE. m' (p + i) = m (p + i))"

lemma slot_bytes: "i < 1024 \<Longrightarrow> k < 4 \<Longrightarrow> 4 * i + k < PGSIZE" for i k :: u32
proof -
  assume "i < 1024" "k < 4"
  then have "unat i < 1024" "unat k < 4" by (simp_all add: word_less_nat_alt)
  then show ?thesis by (simp add: word_less_nat_alt unat_word_ariths PGSIZE_def)
qed

lemma slot_cong: "same_page p m m' \<Longrightarrow> i < 1024 \<Longrightarrow> slot m' p i = slot m p i"
  unfolding slot_def same_page_def
  by (rule load32_cong) (use slot_bytes[of i] in \<open>simp add: add.assoc\<close>)

lemma same_page_store:
  assumes "p mod PGSIZE = 0" "q mod PGSIZE = 0" "i < 1024" "q \<noteq> p"
  shows "same_page q m (store32 (p + 4 * i) v m)"
  unfolding same_page_def
proof (intro allI impI)
  fix k :: u32
  assume k: "k < PGSIZE"
  have "store32 (p + 4 * i) v m b = m b" if "\<And>j. j < 4 \<Longrightarrow> b \<noteq> p + 4 * i + j" for b
    using that[of 0] that[of 1] that[of 2] that[of 3] by (simp add: store32_def)
  moreover have "q + k \<noteq> p + 4 * i + j" if "j < 4" for j
  proof
    assume e: "q + k = p + 4 * i + j"
    have "4096 \<le> unat (q + k - p)" using assms(4) by (intro page_disjoint[OF assms(2,1) _ k])
    then show False using e slot_bytes[OF assms(3) that] by (simp add: word_less_nat_alt PGSIZE_def)
  qed
  ultimately show "store32 (p + 4 * i) v m (q + k) = m (q + k)" by blast
qed

lemma same_page_fill:
  assumes "p mod PGSIZE = 0" "q mod PGSIZE = 0" "q \<noteq> p"
  shows "same_page q m (fill p c 4096 m)"
  unfolding same_page_def fill_def using page_disjoint[OF assms(2,1,3)] by (simp add: not_less[symmetric])

lemma slot_fill0: "i < 1024 \<Longrightarrow> slot (fill p 0 4096 m) p i = 0"
proof -
  assume i: "i < 1024"
  have b: "fill p 0 4096 m (p + 4 * i + k) = 0" if "k < 4" for k
    using slot_bytes[OF i that] by (simp add: fill_def word_less_nat_alt PGSIZE_def add.assoc)
  show ?thesis unfolding slot_def
    using b[of 0] b[of 1] b[of 2] b[of 3] by (simp add: load32_def)
qed

section \<open>What a page directory maps\<close>

text \<open>The MMU's lookup: the page-table entry for \<open>va\<close>, if both levels have the present bit.\<close>

definition table :: "mem \<Rightarrow> u32 \<Rightarrow> u32 \<Rightarrow> u32 option" where
  "table m d i = (if slot m d i AND PTE_P = 0 then None else Some (P2V (PTE_ADDR (slot m d i))))"

definition entry :: "mem \<Rightarrow> u32 \<Rightarrow> u32 \<Rightarrow> u32 option" where
  "entry m d va = (case table m d (PDX va) of None \<Rightarrow> None
     | Some p \<Rightarrow> (let e = slot m p (PTX va) in if e AND PTE_P = 0 then None else Some e))"

text \<open>A directory owns its own page and the pages of its tables, all different.\<close>

definition pt_pages :: "mem \<Rightarrow> u32 \<Rightarrow> u32 set" where
  "pt_pages m d = insert d {p. \<exists>i<1024. table m d i = Some p}"

definition pt_wf :: "mem \<Rightarrow> u32 \<Rightarrow> bool" where
  "pt_wf m d \<longleftrightarrow> d mod PGSIZE = 0 \<and>
     (\<forall>i<1024. \<forall>p. table m d i = Some p \<longrightarrow> p \<noteq> 0 \<and> p \<noteq> d \<and> (\<forall>j<1024. table m d j = Some p \<longrightarrow> j = i))"

definition vm_ok :: "'a kmem_scheme \<Rightarrow> u32 \<Rightarrow> u32 list \<Rightarrow> bool" where
  "vm_ok s d xs \<longleftrightarrow> free_list s xs \<and> kmem_unlocked s \<and> pt_wf (pmem s) d \<and>
     pt_pages (pmem s) d \<inter> set xs = {}"

lemma table_aligned [simp]: "table m d i = Some p \<Longrightarrow> p mod PGSIZE = 0"
  by (auto simp: table_def PTE_ADDR_down split: if_splits)

lemma pt_wfD:
  assumes "pt_wf m d"
  shows "d mod PGSIZE = 0"
    and "table m d i = Some p \<Longrightarrow> i < 1024 \<Longrightarrow> p \<noteq> 0 \<and> p \<noteq> d"
    and "table m d i = Some p \<Longrightarrow> table m d j = Some p \<Longrightarrow> i < 1024 \<Longrightarrow> j < 1024 \<Longrightarrow> j = i"
  using assms unfolding pt_wf_def by blast+

lemma entry_vpn: "vpn vb = vpn va \<Longrightarrow> entry m d vb = entry m d va"
  by (simp add: entry_def vpn_eq_iff split: option.split)

lemma walk_noalloc:
  "walkpgdir d va False s = Ok (case table (pmem s) d (PDX va) of None \<Rightarrow> 0
     | Some p \<Rightarrow> p + 4 * PTX va) s"
  by (simp add: walkpgdir_def table_def slot_def ld32_def monad_defs)

lemma chain_cong:
  assumes "\<And>x. x \<in> set xs \<Longrightarrow> load32 m' x = load32 m x"
  shows "chain m' a xs = chain m a xs"
  using assms by (induction xs arbitrary: a) auto

lemma same_page_load32: "same_page p m m' \<Longrightarrow> load32 m' p = load32 m p"
  using slot_cong[of p m m' 0] by (simp add: slot_def)

lemma upd_freelist_pmem [simp]: "s\<lparr>freelist := f, pmem := m\<rparr> = s\<lparr>pmem := m, freelist := f\<rparr>"
  by (rule kmem.equality) simp_all

text \<open>Writing to pages that are not free leaves the free list alone.\<close>

lemma free_list_pmem:
  assumes "free_list s xs" and "\<And>x. x \<in> set xs \<Longrightarrow> same_page x (pmem s) m"
  shows "free_list (s\<lparr>pmem := m\<rparr>) xs"
proof -
  have "chain m (freelist s) xs = chain (pmem s) (freelist s) xs"
    by (rule chain_cong) (rule same_page_load32[OF assms(2)])
  then show ?thesis using assms(1) by (simp add: free_list_def valid_page_def)
qed

text \<open>Storing an entry in a page table changes the mapping of that page only.\<close>

lemma entry_store:
  fixes v :: u32
  assumes wf: "pt_wf m d" and p: "table m d (PDX va) = Some p"
  defines "m' \<equiv> store32 (p + 4 * PTX va) v m"
  shows "\<And>i. i < 1024 \<Longrightarrow> table m' d i = table m d i"
    and "entry m' d vb = (if vpn vb = vpn va then (if v AND PTE_P = 0 then None else Some v)
           else entry m d vb)"
proof -
  have pa: "p mod PGSIZE = 0" and da: "d mod PGSIZE = 0" and pd: "p \<noteq> d"
    using pt_wfD[OF wf] table_aligned[OF p] p PDX_bound[of va] by blast+
  show t: "table m' d i = table m d i" if "i < 1024" for i
    using slot_store[OF pa da PTX_bound that] pd by (simp add: table_def m'_def)
  show "entry m' d vb = (if vpn vb = vpn va then (if v AND PTE_P = 0 then None else Some v)
           else entry m d vb)"
  proof (cases "table m d (PDX vb)")
    case None
    then show ?thesis using t[OF PDX_bound] p by (auto simp: entry_def vpn_eq_iff)
  next
    case (Some q)
    have "q = p \<longleftrightarrow> PDX vb = PDX va"
      using pt_wfD(3)[OF wf Some, of "PDX va"] p Some PDX_bound by (metis option.inject)
    moreover have "slot m' q (PTX vb) = (if q = p \<and> PTX vb = PTX va then v else slot m q (PTX vb))"
      unfolding m'_def by (rule slot_store[OF pa table_aligned[OF Some] PTX_bound PTX_bound])
    ultimately show ?thesis
      using Some t[OF PDX_bound, of vb]
      by (cases "PDX vb = PDX va \<and> PTX vb = PTX va") (auto simp: entry_def vpn_eq_iff Let_def)
  qed
qed

text \<open>Hooking a zeroed page in as a new page table changes no mapping.\<close>

lemma PTE_P_flags: "(v OR f OR PTE_P) AND PTE_P \<noteq> 0"
  by (simp add: PTE_P_def bit.conj_disj_distrib2 ac_simps)

lemma new_table_entry:
  assumes "x mod PGSIZE = 0"
  shows "(V2P x OR PTE_P OR PTE_W OR PTE_U) AND PTE_P \<noteq> 0"
    and "P2V (PTE_ADDR (V2P x OR PTE_P OR PTE_W OR PTE_U)) = x"
proof -
  show "(V2P x OR PTE_P OR PTE_W OR PTE_U) AND PTE_P \<noteq> 0"
    by (simp add: PTE_P_def PTE_W_def PTE_U_def bit.conj_disj_distrib2)
  have "PTE_ADDR (V2P x OR (PTE_P OR PTE_W OR PTE_U)) = V2P x"
    using assms by (intro PTE_ADDR_flags) (simp_all add: PTE_P_def PTE_W_def PTE_U_def)
  then show "P2V (PTE_ADDR (V2P x OR PTE_P OR PTE_W OR PTE_U)) = x" by (simp add: ac_simps)
qed

lemma table_fresh:
  assumes wf: "pt_wf m d" and i: "i < 1024" and none: "table m d i = None"
    and x: "x mod PGSIZE = 0" "x \<notin> pt_pages m d"
  defines "m' \<equiv> store32 (d + 4 * i) (V2P x OR PTE_P OR PTE_W OR PTE_U) (fill x 0 4096 m)"
  shows "\<And>j. j < 1024 \<Longrightarrow> table m' d j = (if j = i then Some x else table m d j)"
    and "entry m' d = entry m d"
    and "\<And>q. q mod PGSIZE = 0 \<Longrightarrow> q \<noteq> d \<Longrightarrow> q \<noteq> x \<Longrightarrow> same_page q m m'"
proof -
  have da: "d mod PGSIZE = 0" and dx: "d \<noteq> x" using pt_wfD(1)[OF wf] x(2) by (simp, auto simp: pt_pages_def)
  show same: "same_page q m m'" if "q mod PGSIZE = 0" "q \<noteq> d" "q \<noteq> x" for q
    using same_page_store[OF da that(1) i that(2)] same_page_fill[OF x(1) that(1,3), of m 0]
    unfolding m'_def same_page_def by simp
  have ds: "slot (fill x 0 4096 m) d j = slot m d j" if "j < 1024" for j
    by (rule slot_cong[OF same_page_fill[OF x(1) da dx] that])
  show t: "table m' d j = (if j = i then Some x else table m d j)" if "j < 1024" for j
    using slot_store[OF da da i that] slot_store[OF da da i i] ds[OF that] new_table_entry[OF x(1)]
    by (cases "j = i") (simp_all add: table_def m'_def)
  show "entry m' d = entry m d"
  proof
    fix va
    have xs: "slot m' x (PTX va) = 0"
      using slot_store[OF da x(1) i PTX_bound] dx slot_fill0[OF PTX_bound] by (simp add: m'_def)
    show "entry m' d va = entry m d va"
    proof (cases "PDX va = i")
      case True
      then show ?thesis using t[OF i] none xs by (simp add: entry_def)
    next
      case False
      have "slot m' q (PTX va) = slot m q (PTX va)" if "table m d (PDX va) = Some q" for q
      proof (rule slot_cong[OF same PTX_bound])
        show "q \<noteq> d" "q \<noteq> x" "q mod PGSIZE = 0"
          using pt_wfD(2)[OF wf that PDX_bound] x(2) that PDX_bound[of va] table_aligned[OF that]
          by (simp_all add: pt_pages_def) blast
      qed
      then show ?thesis using t[OF PDX_bound, of va] False by (simp add: entry_def split: option.split)
    qed
  qed
qed

lemma pt_pages_cong: "(\<And>i. i < 1024 \<Longrightarrow> table m' d i = table m d i) \<Longrightarrow> pt_pages m' d = pt_pages m d"
  by (auto simp: pt_pages_def)

lemma pt_wf_cong: "(\<And>i. i < 1024 \<Longrightarrow> table m' d i = table m d i) \<Longrightarrow> pt_wf m' d = pt_wf m d"
  by (auto simp: pt_wf_def)

lemma pt_pages_extend:
  assumes ext: "\<And>j. j < 1024 \<Longrightarrow> table m' d j = (if j = i then Some x else table m d j)"
    and "i < 1024" "table m d i = None"
  shows "pt_pages m' d = insert x (pt_pages m d)"
proof -
  have "(\<exists>j<1024. table m' d j = Some p) \<longleftrightarrow> p = x \<or> (\<exists>j<1024. table m d j = Some p)" (is "?l \<longleftrightarrow> ?r") for p
  proof
    assume ?l
    then obtain j where "j < 1024" "table m' d j = Some p" by blast
    then show ?r using ext[of j] by (cases "j = i") auto
  next
    assume ?r
    then show ?l
    proof
      assume "p = x"
      then show ?l using ext[OF assms(2)] assms(2) by auto
    next
      assume "\<exists>j<1024. table m d j = Some p"
      then obtain j where j: "j < 1024" "table m d j = Some p" by blast
      then have "j \<noteq> i" using assms(3) by auto
      then show ?l using ext[OF j(1)] j by auto
    qed
  qed
  then show ?thesis by (auto simp: pt_pages_def)
qed

lemma pt_wf_extend:
  assumes wf: "pt_wf m d"
    and ext: "\<And>j. j < 1024 \<Longrightarrow> table m' d j = (if j = i then Some x else table m d j)"
    and x: "x \<notin> pt_pages m d" "x \<noteq> 0"
  shows "pt_wf m' d"
  unfolding pt_wf_def
proof (intro conjI allI impI)
  show "d mod PGSIZE = 0" using wf by (simp add: pt_wf_def)
  fix j p
  assume j: "j < 1024" and p: "table m' d j = Some p"
  have old: "table m d k = Some q \<Longrightarrow> k < 1024 \<Longrightarrow> q \<noteq> 0 \<and> q \<noteq> d \<and> q \<noteq> x" for k q
    using pt_wfD(2)[OF wf] x(1) unfolding pt_pages_def by blast
  show "p \<noteq> 0" "p \<noteq> d"
    using ext[OF j] p x old[OF _ j, of p] by (cases "j = i"; simp add: pt_pages_def)+
  fix k
  assume k: "k < 1024" "table m' d k = Some p"
  have jx: "p = x \<longleftrightarrow> j = i" using ext[OF j] p old[OF _ j, of p] by (cases "j = i") simp_all
  have kx: "p = x \<longleftrightarrow> k = i" using ext[OF k(1)] k(2) old[OF _ k(1), of p] by (cases "k = i") simp_all
  show "k = j"
  proof (cases "p = x")
    case False
    then have "table m d j = Some p" "table m d k = Some p"
      using ext[OF j] ext[OF k(1)] jx kx p k(2) by simp_all
    then show ?thesis using pt_wfD(3)[OF wf _ _ j k(1)] by blast
  qed (use jx kx in simp)
qed

text \<open>The part of memory that a routine working on directory \<open>d\<close> with the free pages \<open>xs\<close> must not
  touch.\<close>

definition others_kept :: "'a kmem_scheme \<Rightarrow> u32 \<Rightarrow> u32 list \<Rightarrow> 'a kmem_scheme \<Rightarrow> bool" where
  "others_kept s d xs t \<longleftrightarrow>
     (\<forall>q. q mod PGSIZE = 0 \<longrightarrow> q \<notin> pt_pages (pmem s) d \<longrightarrow> q \<notin> set xs \<longrightarrow> same_page q (pmem s) (pmem t))"

lemma walkpgdir_present:
  assumes "table (pmem s) d (PDX va) = Some p"
  shows "walkpgdir d va alloc s = Ok (p + 4 * PTX va) s"
  using assms by (auto simp: walkpgdir_def table_def slot_def ld32_def monad_defs split: if_splits)

lemma walkpgdir_fresh:
  assumes ok: "vm_ok s d xs" and none: "table (pmem s) d (PDX va) = None"
  shows "xs = [] \<and> walkpgdir d va True s = Ok 0 s \<or>
    (\<exists>x ys t. xs = x # ys \<and> walkpgdir d va True s = Ok (x + 4 * PTX va) t \<and> vm_ok t d ys \<and>
       mem_frame s t \<and> entry (pmem t) d = entry (pmem s) d \<and> table (pmem t) d (PDX va) = Some x \<and>
       pt_pages (pmem t) d = insert x (pt_pages (pmem s) d) \<and> others_kept s d xs t)"
proof (cases xs)
  case Nil
  then have "kalloc s = Ok 0 s"
    using ok kalloc_eq[of s] by (simp add: vm_ok_def free_list_def)
  then show ?thesis using Nil none
    by (auto simp: walkpgdir_def table_def slot_def ld32_def monad_defs split: if_splits)
next
  case (Cons x ys)
  define m where "m = pmem s"
  define t where "t = s\<lparr>pmem := store32 (d + 4 * PDX va) (V2P x OR PTE_P OR PTE_W OR PTE_U)
      (fill x 0 4096 m), freelist := load32 m x\<rparr>"
  have fl: "free_list s (x # ys)" and un: "kmem_unlocked s" and wf: "pt_wf m d"
    and dj: "pt_pages m d \<inter> set xs = {}" using ok Cons by (simp_all add: vm_ok_def m_def)
  have x: "x mod PGSIZE = 0" "x \<notin> pt_pages m d" "freelist s = x" "x \<noteq> 0" "x \<notin> set ys"
    using fl dj Cons by (auto simp: free_list_def valid_page_def)
  note fresh = table_fresh[OF wf PDX_bound none[folded m_def] x(1,2)]
  have ka: "kalloc s = Ok x (s\<lparr>freelist := load32 m x\<rparr>)"
    using kalloc_eq[OF un] x(3,4) by (simp add: m_def)
  have run: "walkpgdir d va True s = Ok (x + 4 * PTX va) t"
    using none ka x(4)
    by (simp add: walkpgdir_def table_def slot_def ld32_def kmemset_def st32_def monad_defs t_def
        m_def memset_eq PGSIZE_def split: if_splits)
  have "free_list (s\<lparr>freelist := load32 m x\<rparr>) ys"
    using kalloc_free_list[OF fl un ka] by simp
  moreover have ysd: "q \<in> set ys \<Longrightarrow> q mod PGSIZE = 0 \<and> q \<noteq> d \<and> q \<noteq> x" for q
    using fl dj Cons x(5) by (auto simp: free_list_def valid_page_def pt_pages_def)
  ultimately have "free_list t ys"
    using free_list_pmem[of "s\<lparr>freelist := load32 m x\<rparr>" ys "pmem t"] fresh(3)
    by (simp add: t_def m_def)
  moreover have pp: "pt_pages (pmem t) d = insert x (pt_pages m d)"
    using pt_pages_extend[OF fresh(1) PDX_bound none[folded m_def]] by (simp add: t_def)
  moreover have "pt_wf (pmem t) d"
    using pt_wf_extend[OF wf fresh(1) x(2,4)] by (simp add: t_def)
  ultimately have "vm_ok t d ys"
    using dj Cons un ysd x(5) by (auto simp: vm_ok_def t_def)
  moreover have "mem_frame s t" unfolding t_def by (rule mem_frameI) simp
  moreover have "others_kept s d xs t"
    using fresh(3) Cons by (auto simp: others_kept_def t_def m_def pt_pages_def)
  ultimately show ?thesis
    using run Cons fresh(1)[OF PDX_bound, of va] fresh(2) pp by (simp add: t_def m_def)
qed

text \<open>One round of \<open>mappages\<close>: either there is no page for a table, or the entry is written.\<close>

lemma set_entry:
  fixes v :: u32
  assumes ok: "vm_ok s d xs" and p: "table (pmem s) d (PDX va) = Some p"
  defines "t \<equiv> s\<lparr>pmem := store32 (p + 4 * PTX va) v (pmem s)\<rparr>"
  shows "vm_ok t d xs" and "others_kept s d xs t" and "pt_pages (pmem t) d = pt_pages (pmem s) d"
    and "entry (pmem t) d vb = (if vpn vb = vpn va then (if v AND PTE_P = 0 then None else Some v)
           else entry (pmem s) d vb)"
proof -
  have wf: "pt_wf (pmem s) d" and fl: "free_list s xs" and dj: "pt_pages (pmem s) d \<inter> set xs = {}"
    using ok by (simp_all add: vm_ok_def)
  note st = entry_store[OF wf p, where v = v]
  have pa: "p mod PGSIZE = 0" by (rule table_aligned[OF p])
  have pin: "p \<in> pt_pages (pmem s) d" using p PDX_bound by (auto simp: pt_pages_def)
  have same: "same_page q (pmem s) (pmem t)" if "q mod PGSIZE = 0" "q \<noteq> p" for q
    using same_page_store[OF pa that(1) PTX_bound that(2)] by (simp add: t_def)
  show pp: "pt_pages (pmem t) d = pt_pages (pmem s) d"
    unfolding t_def by (simp add: pt_pages_cong[OF st(1)])
  have "pt_wf (pmem t) d" unfolding t_def using pt_wf_cong[OF st(1)] wf by simp
  moreover have "free_list t xs" unfolding t_def
  proof (rule free_list_pmem[OF fl])
    fix q
    assume q: "q \<in> set xs"
    then have "q mod PGSIZE = 0" using fl by (simp add: free_list_def valid_page_def)
    moreover have "q \<noteq> p" using q dj pin by blast
    ultimately show "same_page q (pmem s) (store32 (p + 4 * PTX va) v (pmem s))"
      using same by (simp add: t_def)
  qed
  ultimately show "vm_ok t d xs" using ok pp by (simp add: vm_ok_def) (simp add: t_def)
  show "others_kept s d xs t" unfolding others_kept_def
    using same pin by (intro allI impI) metis
  show "entry (pmem t) d vb = (if vpn vb = vpn va then (if v AND PTE_P = 0 then None else Some v)
           else entry (pmem s) d vb)"
    using st(2) by (simp add: t_def)
qed

lemma slot_nonzero:
  assumes "p mod PGSIZE = 0" "p \<noteq> 0" "i < 1024"
  shows "p + 4 * i \<noteq> 0"
  using slot_inj[OF assms(1) _ assms(3), of 0 0] assms(2) by auto

text \<open>What is true of directory \<open>d\<close> after some rounds: the invariant, with fewer free pages, and
  nothing changed outside the directory and the pages taken from the free list.\<close>

definition vm_step :: "'a kmem_scheme \<Rightarrow> u32 \<Rightarrow> u32 list \<Rightarrow> 'a kmem_scheme \<Rightarrow> u32 list \<Rightarrow> bool" where
  "vm_step s d xs t ys \<longleftrightarrow> vm_ok t d ys \<and> mem_frame s t \<and> others_kept s d xs t \<and>
     pt_pages (pmem t) d \<union> set ys = pt_pages (pmem s) d \<union> set xs"

lemma vm_step_refl: "vm_ok s d xs \<Longrightarrow> vm_step s d xs s xs"
  by (simp add: vm_step_def mem_frame_refl others_kept_def same_page_def)

lemma vm_step_trans:
  assumes "vm_step s d xs t ys" "vm_step t d ys u zs"
  shows "vm_step s d xs u zs"
proof -
  have "others_kept s d xs u"
    unfolding others_kept_def
  proof (intro allI impI)
    fix q :: u32
    assume q: "q mod PGSIZE = 0" "q \<notin> pt_pages (pmem s) d" "q \<notin> set xs"
    then have "q \<notin> pt_pages (pmem t) d" "q \<notin> set ys" using assms(1) unfolding vm_step_def by blast+
    then have "same_page q (pmem t) (pmem u)" using assms(2) q(1) by (simp add: vm_step_def others_kept_def)
    moreover have "same_page q (pmem s) (pmem t)"
      using assms(1) q by (simp add: vm_step_def others_kept_def)
    ultimately show "same_page q (pmem s) (pmem u)" by (simp add: same_page_def)
  qed
  then show ?thesis using assms kmemf.trans unfolding vm_step_def by blast
qed

lemma walkpgdir_step:
  assumes ok: "vm_ok s d xs"
  shows "xs = [] \<and> walkpgdir d va True s = Ok 0 s \<or>
    (\<exists>p ys t. walkpgdir d va True s = Ok (p + 4 * PTX va) t \<and> p + 4 * PTX va \<noteq> 0 \<and>
       vm_step s d xs t ys \<and> entry (pmem t) d = entry (pmem s) d \<and>
       table (pmem t) d (PDX va) = Some p)"
proof (cases "table (pmem s) d (PDX va)")
  case None
  from walkpgdir_fresh[OF ok None] show ?thesis
  proof (elim disjE exE conjE)
    fix x ys t
    assume *: "xs = x # ys" "walkpgdir d va True s = Ok (x + 4 * PTX va) t" "vm_ok t d ys"
      "mem_frame s t" "entry (pmem t) d = entry (pmem s) d" "table (pmem t) d (PDX va) = Some x"
      "pt_pages (pmem t) d = insert x (pt_pages (pmem s) d)" "others_kept s d xs t"
    have "x mod PGSIZE = 0 \<and> x \<noteq> 0"
      using pt_wfD(2)[OF _ *(6) PDX_bound] *(3) table_aligned[OF *(6)] by (simp add: vm_ok_def)
    then have "x + 4 * PTX va \<noteq> 0" by (intro slot_nonzero PTX_bound) simp_all
    moreover have "vm_step s d xs t ys" using * by (simp add: vm_step_def)
    ultimately show ?thesis using * by blast
  qed simp
next
  case (Some p)
  have "p mod PGSIZE = 0 \<and> p \<noteq> 0"
    using pt_wfD(2)[OF _ Some PDX_bound] ok table_aligned[OF Some] by (simp add: vm_ok_def)
  then have "p + 4 * PTX va \<noteq> 0" by (intro slot_nonzero PTX_bound) simp_all
  then show ?thesis
    using walkpgdir_present[OF Some, of True] vm_step_refl[OF ok] Some by blast
qed

definition range_mapped ::
    "(u32 \<Rightarrow> u32 option) \<Rightarrow> (u32 \<Rightarrow> u32 option) \<Rightarrow> nat \<Rightarrow> nat \<Rightarrow> u32 \<Rightarrow> u32 \<Rightarrow> bool" where
  "range_mapped old new first n pa perm \<longleftrightarrow>
     (\<forall>vb. new vb = (if first \<le> vpn vb \<and> vpn vb \<le> first + n
        then Some ((pa + PGSIZE * of_nat (vpn vb - first)) OR perm OR PTE_P) else old vb))"

lemma vpn_step:
  assumes "vpn a + 1 < 2 ^ 20" "a mod PGSIZE = 0"
  shows "vpn (a + PGSIZE) = vpn a + 1" and "(a + PGSIZE) mod PGSIZE = 0"
proof -
  have "unat a < 2 ^ 32 - 4096" using assms(1) unfolding vpn_def by auto
  then have "unat (a + PGSIZE) = unat a + 4096" by (simp add: unat_word_ariths PGSIZE_def)
  then show "vpn (a + PGSIZE) = vpn a + 1" by (simp add: vpn_def)
  show "(a + PGSIZE) mod PGSIZE = 0" using assms(2) by (rule aligned_add) (simp add: PGSIZE_def)
qed

lemma page_mult_neq:
  assumes "vpn a + Suc n < 2 ^ 20"
  shows "a \<noteq> a + PGSIZE * of_nat (Suc n)"
proof
  assume "a = a + PGSIZE * of_nat (Suc n)"
  then have "(of_nat (4096 * Suc n) :: u32) = 0" by (simp add: PGSIZE_def)
  moreover have "unat (of_nat (4096 * Suc n) :: u32) = 4096 * Suc n"
    using assms by (intro unat_of_nat_u32) simp
  ultimately show False by simp
qed

lemma range_mapped_step:
  assumes "\<forall>vb. mid vb = (if vpn vb = p then Some (pa OR perm OR PTE_P) else old vb)"
    and "range_mapped mid new (p + 1) n (pa + PGSIZE) perm"
  shows "range_mapped old new p (Suc n) pa perm"
  unfolding range_mapped_def
proof
  fix vb
  consider "vpn vb = p" | "p + 1 \<le> vpn vb" "vpn vb \<le> p + Suc n" | "vpn vb < p \<or> p + Suc n < vpn vb"
    by linarith
  then show "new vb = (if p \<le> vpn vb \<and> vpn vb \<le> p + Suc n
      then Some ((pa + PGSIZE * of_nat (vpn vb - p)) OR perm OR PTE_P) else old vb)"
  proof cases
    case 2
    then have "vpn vb - p = Suc (vpn vb - (p + 1))" by simp
    then have "pa + PGSIZE * of_nat (vpn vb - p) = pa + PGSIZE + PGSIZE * of_nat (vpn vb - (p + 1))"
      by (simp only: of_nat_Suc) (simp add: algebra_simps)
    then show ?thesis using assms(2) 2 by (simp add: range_mapped_def add.assoc)
  qed (use assms in \<open>auto simp: range_mapped_def\<close>)
qed

text \<open>One round.\<close>

lemma map_one:
  assumes ok: "vm_ok s d xs" and free: "entry (pmem s) d a = None"
  shows "xs = [] \<and> walkpgdir d a True s = Ok 0 s \<or>
    (\<exists>ys t. vm_step s d xs t ys \<and>
       (\<forall>vb. entry (pmem t) d vb = (if vpn vb = vpn a then Some (pa OR perm OR PTE_P)
             else entry (pmem s) d vb)) \<and>
       (\<forall>k lastp Q. wp (mappages_loop (Suc k) d a lastp pa perm) Q s \<longleftrightarrow>
          (if a = lastp then Q 0 t
           else wp (mappages_loop k d (a + PGSIZE) lastp (pa + PGSIZE) perm) Q t)))"
  using walkpgdir_step[OF ok, of a]
proof (elim disjE exE conjE)
  fix p ys t
  assume w: "walkpgdir d a True s = Ok (p + 4 * PTX a) t" "p + 4 * PTX a \<noteq> 0" "vm_step s d xs t ys"
    "entry (pmem t) d = entry (pmem s) d" "table (pmem t) d (PDX a) = Some p"
  let ?v = "pa OR perm OR PTE_P"
  let ?u = "t\<lparr>pmem := store32 (p + 4 * PTX a) ?v (pmem t)\<rparr>"
  have okt: "vm_ok t d ys" using w(3) by (simp add: vm_step_def)
  note se = set_entry[OF okt w(5), of ?v]
  have "slot (pmem t) p (PTX a) AND PTE_P = 0"
    using free w(4,5) by (auto simp: entry_def Let_def dest: fun_cong[of _ _ a] split: if_splits)
  then have run: "wp (mappages_loop (Suc k) d a lastp pa perm) Q s \<longleftrightarrow>
      (if a = lastp then Q 0 ?u else wp (mappages_loop k d (a + PGSIZE) lastp (pa + PGSIZE) perm) Q ?u)"
    for k lastp Q
    using w(2) by (simp add: wp_Ok[where f = "walkpgdir d a True", OF w(1)] ld32_def st32_def slot_def)
  have "mem_frame t ?u" by (rule mem_frameI[where f = "freelist t"]) simp
  then have "vm_step t d ys ?u ys" using se(1-3) by (simp add: vm_step_def)
  then have "vm_step s d xs ?u ys" by (rule vm_step_trans[OF w(3)])
  moreover have "\<forall>vb. entry (pmem ?u) d vb = (if vpn vb = vpn a then Some ?v else entry (pmem s) d vb)"
    using se(4) w(4) PTE_P_flags by simp
  ultimately show ?thesis using run by blast
qed simp

lemma mappages_loop_correct:
  assumes "vm_ok s d xs" "a mod PGSIZE = 0" "vpn a + n < 2 ^ 20"
    and "\<And>vb. vpn a \<le> vpn vb \<Longrightarrow> vpn vb \<le> vpn a + n \<Longrightarrow> entry (pmem s) d vb = None"
  shows "wp (mappages_loop (Suc n) d a (a + PGSIZE * of_nat n) pa perm) (\<lambda>r t. \<exists>ys.
      vm_step s d xs t ys \<and>
      (\<forall>vb. vpn vb < vpn a \<or> vpn a + n < vpn vb \<longrightarrow> entry (pmem t) d vb = entry (pmem s) d vb) \<and>
      (r = -1 \<and> ys = [] \<or> r = 0 \<and>
         range_mapped (entry (pmem s) d) (entry (pmem t) d) (vpn a) n pa perm)) s"
  using assms
proof (induction n arbitrary: s xs a pa)
  case (0 s xs a pa)
  have "entry (pmem s) d a = None" using "0.prems"(4) by simp
  from map_one[OF "0.prems"(1) this, of pa perm] show ?case
  proof (elim disjE exE conjE)
    assume w: "xs = []" "walkpgdir d a True s = Ok 0 s"
    show ?thesis using w(1) vm_step_refl[OF "0.prems"(1)] by (auto simp: wp_Ok[where f = "walkpgdir d a True", OF w(2)])
  next
    fix ys t
    assume t: "vm_step s d xs t ys" "\<forall>vb. entry (pmem t) d vb = (if vpn vb = vpn a then Some (pa OR perm OR PTE_P)
             else entry (pmem s) d vb)" "\<forall>k lastp Q. wp (mappages_loop (Suc k) d a lastp pa perm) Q s \<longleftrightarrow>
          (if a = lastp then Q 0 t
           else wp (mappages_loop k d (a + PGSIZE) lastp (pa + PGSIZE) perm) Q t)"
    have "range_mapped (entry (pmem s) d) (entry (pmem t) d) (vpn a) 0 pa perm"
      using t(2) by (auto simp: range_mapped_def)
    then show ?thesis using t by (auto simp del: mappages_loop.simps)
  qed
next
  case (Suc n s xs a pa)
  let ?l = "a + PGSIZE * of_nat (Suc n)"
  have l: "?l = (a + PGSIZE) + PGSIZE * of_nat n" by (simp add: algebra_simps)
  have "vpn a + Suc n < 2 ^ 20" using Suc.prems(3) by simp
  then have ne: "a \<noteq> ?l" by (rule page_mult_neq)
  have "entry (pmem s) d a = None" using Suc.prems(4) by simp
  from map_one[OF Suc.prems(1) this, of pa perm] show ?case
  proof (elim disjE exE conjE)
    assume w: "xs = []" "walkpgdir d a True s = Ok 0 s"
    show ?thesis using w(1) vm_step_refl[OF Suc.prems(1)]
      by (auto simp: wp_Ok[where f = "walkpgdir d a True", OF w(2)] mappages_loop.simps(2)[of "Suc n"] simp del: mappages_loop.simps)
  next
    fix ys t
    assume t: "vm_step s d xs t ys" "\<forall>vb. entry (pmem t) d vb = (if vpn vb = vpn a then Some (pa OR perm OR PTE_P)
             else entry (pmem s) d vb)" "\<forall>k lastp Q. wp (mappages_loop (Suc k) d a lastp pa perm) Q s \<longleftrightarrow>
          (if a = lastp then Q 0 t
           else wp (mappages_loop k d (a + PGSIZE) lastp (pa + PGSIZE) perm) Q t)"
    have st: "vpn (a + PGSIZE) = vpn a + 1" "(a + PGSIZE) mod PGSIZE = 0"
      using vpn_step[of a] Suc.prems(2,3) by simp_all
    have okt: "vm_ok t d ys" using t(1) by (simp add: vm_step_def)
    have free: "entry (pmem t) d vb = None"
      if "vpn (a + PGSIZE) \<le> vpn vb" "vpn vb \<le> vpn (a + PGSIZE) + n" for vb
      using that t(2) Suc.prems(4)[of vb] st(1) by simp
    have bd: "vpn (a + PGSIZE) + n < 2 ^ 20" using st(1) Suc.prems(3) by simp
    show ?thesis
      unfolding t(3)[rule_format] l if_not_P[OF ne[unfolded l]]
    proof (rule wp_mono, rule Suc.IH[OF okt st(2) bd free], assumption, assumption, elim exE conjE)
      fix r u zs
      assume u: "vm_step t d ys u zs"
        "\<forall>vb. vpn vb < vpn (a + PGSIZE) \<or> vpn (a + PGSIZE) + n < vpn vb \<longrightarrow>
           entry (pmem u) d vb = entry (pmem t) d vb"
        "r = -1 \<and> zs = [] \<or> r = 0 \<and> range_mapped (entry (pmem t) d) (entry (pmem u) d) (vpn (a + PGSIZE)) n
           (pa + PGSIZE) perm"
      have "range_mapped (entry (pmem s) d) (entry (pmem u) d) (vpn a) (Suc n) pa perm"
        if "range_mapped (entry (pmem t) d) (entry (pmem u) d) (vpn (a + PGSIZE)) n (pa + PGSIZE) perm"
        using that range_mapped_step[OF t(2)] st(1) by simp
      moreover have "\<forall>vb. vpn vb < vpn a \<or> vpn a + Suc n < vpn vb \<longrightarrow>
          entry (pmem u) d vb = entry (pmem s) d vb" using u(2) t(2) st(1) by simp
      ultimately show "\<exists>ys. vm_step s d xs u ys \<and>
        (\<forall>vb. vpn vb < vpn a \<or> vpn a + Suc n < vpn vb \<longrightarrow> entry (pmem u) d vb = entry (pmem s) d vb) \<and>
        (r = -1 \<and> ys = [] \<or> r = 0 \<and> range_mapped (entry (pmem s) d) (entry (pmem u) d) (vpn a) (Suc n) pa perm)"
        using vm_step_trans[OF t(1) u(1)] u(3) by blast
    qed
  qed
qed

lemma PGROUNDDOWN_vpn: "PGROUNDDOWN va = of_nat (4096 * vpn va)"
  and vpn_PGROUNDDOWN [simp]: "vpn (PGROUNDDOWN va) = vpn va"
  and vpn_bound: "vpn va < 2 ^ 20"
  and unat_PGROUNDDOWN: "unat (PGROUNDDOWN va) = 4096 * vpn va"
proof -
  have "PGROUNDDOWN va = va - va mod PGSIZE"
    using PGROUNDDOWN_split[of va] by (metis add_diff_cancel_right')
  also have "\<dots> = of_nat (unat va) - of_nat (unat (va mod PGSIZE))" by simp
  also have "\<dots> = of_nat (unat va - unat va mod 4096)"
    unfolding unat_mod_page by (rule of_nat_diff[symmetric]) simp
  also have "unat va - unat va mod 4096 = 4096 * vpn va"
    by (simp add: vpn_def minus_mod_eq_mult_div)
  finally show e: "PGROUNDDOWN va = of_nat (4096 * vpn va)" .
  show b: "vpn va < 2 ^ 20" using unat_u32[of va] by (simp add: vpn_def div_less_iff_less_mult)
  then have "unat (of_nat (4096 * vpn va) :: u32) = 4096 * vpn va" by (intro unat_of_nat_u32) simp
  then show u: "unat (PGROUNDDOWN va) = 4096 * vpn va" unfolding e .
  then show "vpn (PGROUNDDOWN va) = vpn va" by (simp add: vpn_def)
qed

section \<open>Bytes in mapped pages\<close>

text \<open>What user code reads at \<open>vb\<close>, if its page is mapped for the user.\<close>

definition uread :: "mem \<Rightarrow> u32 \<Rightarrow> u32 \<Rightarrow> u8 option" where
  "uread m d vb = (case entry m d vb of None \<Rightarrow> None
     | Some e \<Rightarrow> if e AND PTE_U = 0 then None else Some (m (P2V (PTE_ADDR e) + vb mod PGSIZE)))"

text \<open>The user pages of a directory lie in frames of their own, none of them a page of the
  directory.\<close>

definition user_frame :: "mem \<Rightarrow> u32 \<Rightarrow> u32 \<Rightarrow> u32 \<Rightarrow> bool" where
  "user_frame m d va p \<longleftrightarrow> (\<exists>e. entry m d va = Some e \<and> e AND PTE_U \<noteq> 0 \<and> p = P2V (PTE_ADDR e))"

definition user_wf :: "mem \<Rightarrow> u32 \<Rightarrow> bool" where
  "user_wf m d \<longleftrightarrow> pt_wf m d \<and>
     (\<forall>va p. user_frame m d va p \<longrightarrow> p \<noteq> 0 \<and> p \<notin> pt_pages m d \<and>
        (\<forall>vb. user_frame m d vb p \<longrightarrow> vpn vb = vpn va))"

lemma put_bytes_eq:
  "length bs \<le> 2 ^ 32 \<Longrightarrow>
     put_bytes a bs m x = (if unat (x - a) < length bs then bs ! unat (x - a) else m x)"
proof (induction bs arbitrary: a m)
  case (Cons b bs)
  show ?case
  proof (cases "x = a")
    case True
    have "unat (- 1 :: u32) = 2 ^ 32 - 1" by (simp add: unsigned_minus_1_eq_mask mask_eq_exp_minus_1)
    then have "\<not> unat (a - (a + 1)) < length bs" using Cons.prems by simp
    then show ?thesis using Cons True by simp
  next
    case False
    then have "x - a \<noteq> 0" by simp
    then have "unat (x - a) = Suc (unat (x - a - 1))"
      by (simp add: unat_minus_one unat_gt_0)
    then show ?thesis using Cons False by (simp add: diff_diff_eq[symmetric])
  qed
qed simp

lemma same_page_put_bytes:
  assumes "p mod PGSIZE = 0" "q mod PGSIZE = 0" "q \<noteq> p" "unat off + length bs \<le> 4096"
  shows "same_page q m (put_bytes (p + off) bs m)"
  unfolding same_page_def
proof (intro allI impI)
  fix i :: u32
  assume i: "i < PGSIZE"
  have far: "4096 \<le> unat (q + i - p)" by (rule page_disjoint[OF assms(2,1,3) i])
  have "unat off \<le> unat (q + i - p)" using far assms(4) by simp
  then have "unat (q + i - p - off) = unat (q + i - p) - unat off"
    by (simp add: unat_sub word_le_nat_alt)
  then have "\<not> unat (q + i - (p + off)) < length bs"
    using far assms(4) by (simp add: diff_diff_eq[symmetric])
  then show "put_bytes (p + off) bs m (q + i) = m (q + i)" using assms(4) by (simp add: put_bytes_eq)
qed

text \<open>Writing to a frame outside the directory changes no mapping.\<close>

lemma entry_same_pages:
  assumes "\<And>q. q \<in> pt_pages m d \<Longrightarrow> same_page q m m'"
  shows "\<And>i. i < 1024 \<Longrightarrow> table m' d i = table m d i" and "entry m' d = entry m d"
proof -
  have d: "same_page d m m'" using assms by (simp add: pt_pages_def)
  show t: "table m' d i = table m d i" if "i < 1024" for i
    using slot_cong[OF d that] by (simp add: table_def)
  have "slot m' p (PTX va) = slot m p (PTX va)" if "table m d (PDX va) = Some p" for p va
    using that PDX_bound by (intro slot_cong[OF assms PTX_bound]) (auto simp: pt_pages_def)
  then show "entry m' d = entry m d"
    by (auto simp: entry_def t[OF PDX_bound] split: option.split)
qed

lemma pt_page_aligned: "pt_wf m d \<Longrightarrow> q \<in> pt_pages m d \<Longrightarrow> q mod PGSIZE = 0"
  unfolding pt_pages_def by (elim insertE CollectE exE conjE) (simp_all add: pt_wfD(1))

lemma user_frame_aligned: "user_frame m d va p \<Longrightarrow> p mod PGSIZE = 0"
  unfolding user_frame_def PTE_ADDR_down
  by (elim exE conjE) (simp only: aligned_P2V PGROUNDDOWN_aligned)

text \<open>One round of \<open>copyout\<close>: \<open>bs\<close> goes to \<open>va\<close>, all in one user page.\<close>

lemma uread_put_bytes:
  assumes wf: "user_wf m d" and fr: "user_frame m d va p"
    and off: "unat va mod 4096 + length bs \<le> 4096"
  defines "m' \<equiv> put_bytes (p + (va - PGROUNDDOWN va)) bs m"
  shows "entry m' d = entry m d" and "user_wf m' d"
    and "uread m' d vb = (if unat va \<le> unat vb \<and> unat vb < unat va + length bs
           then Some (bs ! (unat vb - unat va)) else uread m d vb)"
proof -
  have pw: "pt_wf m d" and pn: "p \<notin> pt_pages m d" using wf fr by (auto simp: user_wf_def)
  have pa: "p mod PGSIZE = 0" by (rule user_frame_aligned[OF fr])
  have o: "unat (va - PGROUNDDOWN va) + length bs \<le> 4096" using off page_off by simp
  have same: "same_page q m m'" if "q mod PGSIZE = 0" "q \<noteq> p" for q
    unfolding m'_def by (rule same_page_put_bytes[OF pa that o])
  have pts: "same_page q m m'" if "q \<in> pt_pages m d" for q
    using same[OF pt_page_aligned[OF pw that]] that pn by metis
  note ent = entry_same_pages[OF pts]
  show e: "entry m' d = entry m d" by (rule ent(2))
  have uf: "user_frame m' d = user_frame m d" by (intro ext) (simp add: user_frame_def e)
  show "user_wf m' d"
  proof -
    have "pt_wf m' d = pt_wf m d" by (rule pt_wf_cong, rule ent(1))
    moreover have "pt_pages m' d = pt_pages m d" by (rule pt_pages_cong, rule ent(1))
    ultimately show ?thesis using wf unfolding user_wf_def uf
      by (elim conjE) (simp only: simp_thms)
  qed
  have le: "vb mod PGSIZE < PGSIZE" for vb :: u32
    by (simp add: word_less_nat_alt unat_mod_page) (simp add: PGSIZE_def)
  have un: "unat x = 4096 * vpn x + unat x mod 4096" for x :: u32
    unfolding vpn_def by (rule mult_div_mod_eq[symmetric])
  show "uread m' d vb = (if unat va \<le> unat vb \<and> unat vb < unat va + length bs
           then Some (bs ! (unat vb - unat va)) else uread m d vb)"
  proof (cases "vpn vb = vpn va")
    case True
    have ur: "uread m d vb = Some (m (p + vb mod PGSIZE))"
      using fr entry_vpn[OF True] by (auto simp: uread_def user_frame_def)
    have ur': "uread m' d vb = Some (m' (p + vb mod PGSIZE))"
      using fr entry_vpn[OF True] by (auto simp: uread_def user_frame_def e)
    have un': "unat vb = 4096 * vpn va + unat vb mod 4096" using un[of vb] True by simp
    have sub: "p + vb mod PGSIZE - (p + (va - PGROUNDDOWN va)) = vb - va"
    proof -
      have "vb mod PGSIZE = vb - PGROUNDDOWN va"
        using PGROUNDDOWN_split[of vb] True by (simp add: PGROUNDDOWN_vpn algebra_simps)
      then show ?thesis by simp
    qed
    have within: "unat (vb - va) < length bs \<longleftrightarrow> unat va \<le> unat vb \<and> unat vb < unat va + length bs"
    proof (cases "unat va \<le> unat vb")
      case True
      then show ?thesis by (auto simp: unat_sub word_le_nat_alt)
    next
      case False
      have "unat (va - vb) = unat va - unat vb" using False by (simp add: unat_sub word_le_nat_alt)
      moreover have "unat (vb - va) = 4294967296 - unat (va - vb)"
        using False by (simp add: unat_sub_if_size word_size)
      ultimately have "\<not> unat (vb - va) < length bs" using un' un[of va] off unat_u32[of va] by linarith
      then show ?thesis using False by simp
    qed
    have len: "length bs \<le> 2 ^ 32" using off by simp
    show ?thesis
      unfolding ur' unfolding ur m'_def put_bytes_eq[OF len] sub within
      by (simp add: unat_sub word_le_nat_alt)
  next
    case False
    have "\<not> (unat va \<le> unat vb \<and> unat vb < unat va + length bs)"
    proof -
      have "unat vb mod 4096 < 4096" by simp
      moreover from False consider "vpn vb < vpn va" | "vpn va < vpn vb" by linarith
      then have "4096 * vpn vb + 4096 \<le> 4096 * vpn va \<or> 4096 * vpn va + 4096 \<le> 4096 * vpn vb"
        by cases simp_all
      ultimately show ?thesis using un[of va] un[of vb] off by linarith
    qed
    moreover have "m' (q + vb mod PGSIZE) = m (q + vb mod PGSIZE)" if "user_frame m d vb q" for q
    proof -
      have "q \<noteq> p" using wf fr that False unfolding user_wf_def by blast
      then show ?thesis using same[OF user_frame_aligned[OF that]] le unfolding same_page_def by blast
    qed
    ultimately show ?thesis by (auto simp: uread_def e user_frame_def split: option.split)
  qed
qed

lemma uva2ka_user:
  assumes "pt_wf (pmem s) d" "user_frame (pmem s) d va p"
  shows "uva2ka d va s = Ok p s"
proof -
  obtain e q where e: "entry (pmem s) d va = Some e" "e AND PTE_U \<noteq> 0" "p = P2V (PTE_ADDR e)"
    and q: "table (pmem s) d (PDX va) = Some q"
    using assms(2) by (auto simp: user_frame_def entry_def split: option.splits)
  then have "q + 4 * PTX va \<noteq> 0"
    using pt_wfD(2)[OF assms(1) q PDX_bound] table_aligned[OF q] by (intro slot_nonzero PTX_bound) simp_all
  then show ?thesis using e q
    by (auto simp: uva2ka_def ld32_def monad_defs walkpgdir_present[OF q] entry_def slot_def Let_def
        split: if_splits)
qed

lemma uva2ka_no_table:
  "table (pmem s) d (PDX va) = None \<Longrightarrow> uva2ka d va s = Undef ''uva2ka: null page-table entry''"
  by (simp add: uva2ka_def monad_defs walk_noalloc)

section \<open>Properties\<close>

text \<open>C14. \<open>mappages\<close> on an unmapped range that does not wrap always returns. It keeps the directory
  well formed, takes new page tables from the free list only, and touches no other page. When it
  returns 0, each page of the range maps to the next physical page with the given permissions and
  every other mapping is as before; it returns -1 only when it has used up the free list.\<close>

theorem mappages_correct:
  assumes ok: "vm_ok s d xs" and sz: "0 < sz" "unat va + unat sz \<le> 2 ^ 32"
    and free: "\<And>vb. vpn va \<le> vpn vb \<Longrightarrow> vpn vb \<le> vpn (va + sz - 1) \<Longrightarrow> entry (pmem s) d vb = None"
  shows "wp (mappages d va sz pa perm) (\<lambda>r t. \<exists>ys. vm_step s d xs t ys \<and>
      (r = -1 \<and> ys = [] \<or> r = 0 \<and> range_mapped (entry (pmem s) d) (entry (pmem t) d)
         (vpn va) (vpn (va + sz - 1) - vpn va) pa perm)) s"
proof -
  define n where "n = vpn (va + sz - 1) - vpn va"
  have u: "unat (va + sz - 1) = unat va + unat sz - 1"
  proof -
    have "unat (sz - 1) = unat sz - 1" "0 < unat sz" using sz(1) by (auto simp: unat_minus_one unat_gt_0)
    then have "unat (va + (sz - 1)) = unat va + (unat sz - 1)" using sz(2) by (simp add: unat_word_ariths)
    then show ?thesis using \<open>0 < unat sz\<close> by (simp add: add_diff_eq)
  qed
  have le: "vpn va \<le> vpn (va + sz - 1)"
    unfolding vpn_def u using sz(1) by (intro div_le_mono) (simp add: word_less_nat_alt)
  have lp: "PGROUNDDOWN (va + sz - 1) = PGROUNDDOWN va + PGSIZE * of_nat n"
    unfolding PGROUNDDOWN_vpn n_def using le by (simp add: PGSIZE_def algebra_simps of_nat_diff)
  have nb: "vpn va + n < 2 ^ 20" using vpn_bound[of "va + sz - 1"] le by (simp add: n_def)
  have "unat (PGSIZE * of_nat n) = 4096 * n"
    using nb unat_of_nat_u32[of "4096 * n"] by (simp add: PGSIZE_def)
  then have fuel: "unat ((PGROUNDDOWN (va + sz - 1) - PGROUNDDOWN va) div PGSIZE) = n"
    unfolding lp by (simp add: unat_div) (simp add: PGSIZE_def)
  have fr: "entry (pmem s) d vb = None"
    if "vpn (PGROUNDDOWN va) \<le> vpn vb" "vpn vb \<le> vpn (PGROUNDDOWN va) + n" for vb
    using that le by (intro free) (simp_all add: n_def)
  show ?thesis
    unfolding mappages_def Let_def fuel unfolding lp n_def[symmetric]
    by (rule wp_mono, rule mappages_loop_correct[OF ok PGROUNDDOWN_aligned _ fr]) (use nb in \<open>auto simp: n_def\<close>)
qed

theorem mappages_correct_witness:
  "wp (mappages 0x80300000 0x1000 8192 0x400000 PTE_W) (\<lambda>r t. \<exists>ys.
      vm_step (boot_kmem\<lparr>freelist := 0x80200000\<rparr>) 0x80300000 [0x80200000] t ys \<and>
      (r = -1 \<and> ys = [] \<or> r = 0 \<and> range_mapped Map.empty (entry (pmem t) 0x80300000) 1 1 0x400000 PTE_W))
    (boot_kmem\<lparr>freelist := 0x80200000\<rparr>)"
proof -
  let ?s = "boot_kmem\<lparr>freelist := 0x80200000\<rparr> :: kmem"
  have s0: "slot (pmem boot_kmem) p i = 0" for p i by (simp add: boot_kmem_def slot_def load32_def)
  have t0: "table (pmem boot_kmem) 0x80300000 i = None" for i by (simp add: table_def s0)
  have e0: "entry (pmem ?s) 0x80300000 = Map.empty" by (rule ext) (simp add: entry_def t0)
  have "free_list ?s [0x80200000]"
    by (simp add: free_list_def boot_kmem_def valid_page_def layout_defs load32_def)
  moreover have "pt_wf (pmem ?s) 0x80300000" by (simp add: pt_wf_def t0 PGSIZE_def)
  moreover have "pt_pages (pmem ?s) 0x80300000 = {0x80300000}" by (simp add: pt_pages_def t0)
  ultimately have ok: "vm_ok ?s 0x80300000 [0x80200000]" by (simp add: vm_ok_def boot_kmem_def)
  have v: "vpn 0x1000 = 1" "vpn 12287 = 2" by (simp_all add: vpn_def)
  show ?thesis
    using mappages_correct[OF ok, of 8192 "0x1000" "0x400000" PTE_W] unfolding e0 by (simp add: v)
qed

text \<open>C15. \<open>copyout\<close> to user pages that are mapped returns 0, and afterwards user code reads exactly
  the copied bytes at \<open>va\<close> and everything else as before, however the range straddles pages; the
  page tables are unchanged.\<close>

theorem copyout_correct:
  assumes "user_wf (pmem s) d" and "unat va + length buf \<le> 2 ^ 32"
    and "\<And>vb. unat va \<le> unat vb \<Longrightarrow> unat vb < unat va + length buf \<Longrightarrow> \<exists>p. user_frame (pmem s) d vb p"
  shows "wp (copyout d va buf) (\<lambda>r t. r = 0 \<and> (\<exists>m. t = s\<lparr>pmem := m\<rparr>) \<and>
      entry (pmem t) d = entry (pmem s) d \<and>
      (\<forall>vb. uread (pmem t) d vb = (if unat va \<le> unat vb \<and> unat vb < unat va + length buf
           then Some (buf ! (unat vb - unat va)) else uread (pmem s) d vb))) s"
  using assms
proof (induction d va buf arbitrary: s rule: copyout.induct)
  case (1 d va buf)
  show ?case
  proof (cases "buf = []")
    case True
    then show ?thesis by (subst copyout.simps) (auto intro!: exI[of _ "pmem s"])
  next
    case False
    define va0 where "va0 = PGROUNDDOWN va"
    define n where "n = min (4096 - unat (va - va0)) (length buf)"
    have off: "unat (va - va0) = unat va mod 4096" unfolding va0_def by (rule page_off)
    obtain p where p: "user_frame (pmem s) d va p" using "1.prems"(3)[of va] False by auto
    have p0: "user_frame (pmem s) d va0 p"
      using p by (simp add: user_frame_def va0_def entry_vpn[OF vpn_PGROUNDDOWN])
    have pn: "p \<noteq> 0" and pw: "pt_wf (pmem s) d"
      using "1.prems"(1) p unfolding user_wf_def by blast+
    let ?m = "put_bytes (p + (va - va0)) (take n buf) (pmem s)"
    let ?t = "s\<lparr>pmem := ?m\<rparr>"
    have "unat va mod 4096 + length (take n buf) \<le> 4096" using off by (simp add: n_def)
    note ch = uread_put_bytes[OF "1.prems"(1) p this, folded va0_def]
    have run: "wp (copyout d va buf) Q s = wp (copyout d (va0 + PGSIZE) (drop n buf)) Q ?t" for Q
      using False pn
      by (subst copyout.simps)
        (simp add: Let_def va0_def[symmetric] n_def[symmetric] wp_Ok[where f = "uva2ka d va0", OF uva2ka_user[OF pw p0]])
    have uf: "user_frame ?m d = user_frame (pmem s) d"
      by (intro ext) (simp add: user_frame_def ch(1))
    show ?thesis
    proof (cases "drop n buf = []")
      case True
      then have "take n buf = buf" by simp
      then show ?thesis unfolding run True using ch(1,3) by (subst copyout.simps) auto
    next
      case more: False
      then have nl: "n = 4096 - unat va mod 4096" using off by (simp add: n_def min_def split: if_splits)
      have nb: "n < length buf" using more by simp
      have va0u: "unat va0 = unat va - unat va mod 4096"
        unfolding va0_def unat_PGROUNDDOWN vpn_def by (rule minus_mod_eq_mult_div[symmetric])
      have next_pg: "unat (va0 + PGSIZE) = unat va + n"
        unfolding nl using nb "1.prems"(2) va0u by (simp add: unat_word_ariths PGSIZE_def nl)
      have fr: "\<exists>p. user_frame (pmem ?t) d vb p"
        if "unat (va0 + PGSIZE) \<le> unat vb" "unat vb < unat (va0 + PGSIZE) + length (drop n buf)" for vb
        using that "1.prems"(3)[of vb] nb next_pg by (simp add: uf)
      have "wp (copyout d (va0 + PGSIZE) (drop n buf)) (\<lambda>r t. r = 0 \<and> (\<exists>m. t = ?t\<lparr>pmem := m\<rparr>) \<and>
          entry (pmem t) d = entry (pmem ?t) d \<and>
          (\<forall>vb. uread (pmem t) d vb = (if unat (va0 + PGSIZE) \<le> unat vb \<and>
               unat vb < unat (va0 + PGSIZE) + length (drop n buf)
             then Some (drop n buf ! (unat vb - unat (va0 + PGSIZE))) else uread (pmem ?t) d vb))) ?t"
        using False ch(2) nb "1.prems"(2) next_pg pn
        by (intro "1.IH"[of va0 n p] fr) (simp_all add: va0_def n_def)
      then show ?thesis unfolding run next_pg
      proof (rule wp_mono, elim conjE exE, intro conjI allI)
        fix r t m vb
        assume t: "t = ?t\<lparr>pmem := m\<rparr>" and e: "entry (pmem t) d = entry (pmem ?t) d"
          and u: "\<forall>vb. uread (pmem t) d vb = (if unat va + n \<le> unat vb \<and>
               unat vb < unat va + n + length (drop n buf)
             then Some (drop n buf ! (unat vb - (unat va + n))) else uread (pmem ?t) d vb)"
        show "\<exists>m. t = s\<lparr>pmem := m\<rparr>" using t by auto
        show "entry (pmem t) d = entry (pmem s) d" using e ch(1) by simp
        show "uread (pmem t) d vb = (if unat va \<le> unat vb \<and> unat vb < unat va + length buf
           then Some (buf ! (unat vb - unat va)) else uread (pmem s) d vb)"
          using u ch(3)[of vb] nb by auto
      qed
    qed
  qed
qed

text \<open>A directory with one user page, at address 0, in the frame at \<open>0x80302000\<close>.\<close>

definition one_page :: mem where
  "one_page = store32 (0x80301000 + 4 * 0) 0x302007 (store32 (0x80300000 + 4 * 0) 0x301007 (\<lambda>_. 0))"

lemma one_page_slot:
  assumes "q mod PGSIZE = 0" "j < 1024"
  shows "slot one_page q j = (if q = 0x80301000 \<and> j = 0 then 0x302007
     else if q = 0x80300000 \<and> j = 0 then 0x301007 else 0)"
proof -
  have al: "0x80301000 mod PGSIZE = 0" "0x80300000 mod PGSIZE = 0" "(0::u32) < 1024"
    by (simp_all add: PGSIZE_def)
  show ?thesis
    unfolding one_page_def slot_store[OF al(1) assms(1) al(3) assms(2)] slot_store[OF al(2) assms(1) al(3) assms(2)]
    by (simp add: slot_def load32_def)
qed

lemma one_page_entry:
  shows "\<And>i. i < 1024 \<Longrightarrow> table one_page 0x80300000 i = (if i = 0 then Some 0x80301000 else None)"
    and "entry one_page 0x80300000 va = (if vpn va = 0 then Some 0x302007 else None)"
proof -
  have al: "0x80301000 mod PGSIZE = 0" "0x80300000 mod PGSIZE = 0" by (simp_all add: PGSIZE_def)
  show t: "table one_page 0x80300000 i = (if i = 0 then Some 0x80301000 else None)" if "i < 1024" for i
    using one_page_slot[OF al(2) that]
    by (cases "i = 0") (simp_all add: table_def PTE_P_def PTE_ADDR_def P2V_def KERNBASE_def)
  have "vpn va = 0 \<longleftrightarrow> PDX va = 0 \<and> PTX va = 0"
    using vpn_eq_iff[of va 0] by (simp add: vpn_def PDX_def PTX_def)
  then show "entry one_page 0x80300000 va = (if vpn va = 0 then Some 0x302007 else None)"
    using one_page_slot[OF al(1) PTX_bound, of va]
    by (cases "PTX va = 0") (simp_all add: entry_def t[OF PDX_bound] PTE_P_def Let_def)
qed

lemma one_page_wf:
  shows "user_wf one_page 0x80300000" and "user_frame one_page 0x80300000 va p \<longleftrightarrow> vpn va = 0 \<and> p = 0x80302000"
proof -
  show uf: "user_frame one_page 0x80300000 va p \<longleftrightarrow> vpn va = 0 \<and> p = 0x80302000" for va p
    by (simp add: user_frame_def one_page_entry(2) PTE_U_def PTE_ADDR_def P2V_def KERNBASE_def)
  have "pt_wf one_page 0x80300000" unfolding pt_wf_def
    by (simp add: one_page_entry(1) PGSIZE_def)
  moreover have "p \<in> pt_pages one_page 0x80300000 \<Longrightarrow> p = 0x80300000 \<or> p = 0x80301000" for p
    unfolding pt_pages_def by (auto simp: one_page_entry(1) split: if_splits)
  ultimately show "user_wf one_page 0x80300000" unfolding user_wf_def uf by fastforce
qed

theorem copyout_correct_witness:
  "wp (copyout 0x80300000 4094 [7, 9]) (\<lambda>r t. r = 0 \<and>
      uread (pmem t) 0x80300000 4094 = Some 7 \<and> uread (pmem t) 0x80300000 4095 = Some 9)
    (boot_kmem\<lparr>pmem := one_page\<rparr>)"
proof -
  let ?s = "boot_kmem\<lparr>pmem := one_page\<rparr> :: kmem"
  have "vpn vb = 0" if "unat vb < 4096" for vb using that by (simp add: vpn_def)
  then have "\<exists>p. user_frame (pmem ?s) 0x80300000 vb p" if "unat vb < 4096" for vb
    using that by (simp add: one_page_wf(2))
  then have "wp (copyout 0x80300000 4094 [7, 9]) (\<lambda>r t. r = 0 \<and> (\<exists>m. t = ?s\<lparr>pmem := m\<rparr>) \<and>
      entry (pmem t) 0x80300000 = entry (pmem ?s) 0x80300000 \<and>
      (\<forall>vb. uread (pmem t) 0x80300000 vb = (if unat (4094 :: u32) \<le> unat vb \<and> unat vb < unat (4094 :: u32) + length [7, 9 :: u8]
           then Some ([7, 9] ! (unat vb - unat (4094 :: u32))) else uread (pmem ?s) 0x80300000 vb))) ?s"
    by (intro copyout_correct) (simp_all add: one_page_wf(1))
  then show ?thesis by (rule wp_mono) simp
qed

end
