(* ===== verification/Proc.thy ===== *)
theory Proc
  imports Vm
begin

unbundle bit_operations_syntax

text \<open>
  The process table and the operations on it (\<open>src/proc.c\<close>, \<open>src/proc.h\<close>): allocation of a table
  entry, sleep and wakeup, switching to the scheduler, kill, wait, waitx, growth of the address
  space, the priorities and the process listing. The scheduler itself is in \<open>Sched\<close>; fork, exit
  and userinit, which also need the file system, are in \<open>ProcOps\<close>.

  A \<open>struct proc *\<close> is its index in \<open>ptable.proc\<close>, null is \<open>None\<close>. The build flag that selects the
  scheduler (\<open>SCHEDPOLICY\<close> in \<open>src/Makefile\<close>) is an argument of the routines it changes. A routine
  that gives up the CPU ends in \<open>Switches\<close> with the state in which the scheduler takes over.
\<close>

section \<open>State\<close>

datatype policy = MLFQ | FCFS | DEFAULT | PRIORITY

datatype procstate = UNUSED | EMBRYO | SLEEPING | RUNNABLE | RUNNING | ZOMBIE

text \<open>The fields of \<open>struct proc\<close> that the kernel uses.\<close>

record proc =
  p_sz :: u32
  p_pgdir :: u32
  p_kstack :: u32
  p_state :: procstate
  p_pid :: int
  p_parent :: "nat option"
  p_tf :: u32
  p_context :: u32
  p_chan :: "chan option"
  p_killed :: int
  p_ofile :: "nat option list"
  p_cwd :: "nat option"
  p_name :: "u8 list"
  p_ctime :: int
  p_etime :: int
  p_rtime :: int
  p_iotime :: int
  p_num_r :: int
  p_priority :: int
  p_start :: int
  p_waittime :: int
  p_current_queue :: int
  p_total_ticks :: "int list"
  p_ticks :: "int list"

record segdesc =
  lim_15_0 :: u32
  base_15_0 :: u32
  base_23_16 :: u32
  seg_type :: u32
  seg_s :: u32
  seg_dpl :: u32
  seg_p :: u32
  lim_19_16 :: u32
  seg_avl :: u32
  seg_rsv1 :: u32
  seg_db :: u32
  seg_g :: u32
  base_31_24 :: u32

text \<open>\<open>queue q i\<close> and \<open>qcount q\<close> are the arrays \<open>queue0\<close> to \<open>queue4\<close> and the indices \<open>c0\<close> to \<open>c4\<close>
  of their last entries. \<open>curproc\<close> is \<open>cpu->proc\<close>. The last group are link-time addresses.\<close>

record pst = vmst +
  ptable :: "nat \<Rightarrow> proc"
  initproc :: "nat option"
  nextpid :: int
  queue :: "nat \<Rightarrow> nat \<Rightarrow> nat option"
  qcount :: "nat \<Rightarrow> int"
  curproc :: "nat option"
  ticks :: u32
  gdt :: "nat \<Rightarrow> segdesc"
  ts_ss0 :: u16
  ts_esp0 :: u32
  ts_iomb :: u16
  task_reg :: u32
  trapret_addr :: u32
  forkret_addr :: u32
  ts_addr :: u32

definition NPROC :: nat where "NPROC = 64"
definition KSTACKSIZE :: u32 where "KSTACKSIZE = 4096"
definition NOFILE :: nat where "NOFILE = 16"

definition modp :: "nat \<Rightarrow> (proc \<Rightarrow> proc) \<Rightarrow> ('a pst_scheme, unit) kern" where
  "modp i f = upd (\<lambda>s. s\<lparr>ptable := (ptable s)(i := f (ptable s i))\<rparr>)"

definition getp :: "nat \<Rightarrow> ('a pst_scheme, proc) kern" where
  "getp i = rd (\<lambda>s. ptable s i)"

text \<open>\<open>ticks\<close> is unsigned and the time fields of a process are signed.\<close>

definition now :: "'a pst_scheme \<Rightarrow> int" where
  "now s = sint (ticks s)"

definition modt :: "nat \<Rightarrow> (int \<Rightarrow> proc \<Rightarrow> proc) \<Rightarrow> ('a pst_scheme, unit) kern" where
  "modt i f = bnd (rd now) (\<lambda>t. modp i (f t))"

section \<open>The running CPU and process\<close>

text \<open>\<open>mycpu\<close>: the entry of \<open>cpus\<close> with this CPU's APIC id.\<close>

definition mycpu :: "bool \<Rightarrow> nat \<Rightarrow> (nat \<Rightarrow> u8) \<Rightarrow> u8 \<Rightarrow> string + nat" where
  "mycpu interrupts_on ncpu apicid_of lapicid =
     (if interrupts_on then Inl ''mycpu called with interrupts enabled''
      else case find (\<lambda>i. apicid_of i = lapicid) [0..<ncpu] of
        Some i \<Rightarrow> Inr i
      | None \<Rightarrow> Inl ''unknown apicid'')"

definition myproc :: "('a pst_scheme, nat option) kern" where
  "myproc = rd curproc"

text \<open>A dereference of \<open>myproc()\<close>.\<close>

definition myproc_deref :: "('a pst_scheme, nat) kern" where
  "myproc_deref = bnd myproc (\<lambda>r. case r of None \<Rightarrow> undef ''null process'' | Some p \<Rightarrow> ret p)"

text \<open>The segment descriptor of the task state segment.\<close>

definition SEG16 :: "u32 \<Rightarrow> u32 \<Rightarrow> u32 \<Rightarrow> u32 \<Rightarrow> segdesc" where
  "SEG16 ty base lim dpl = \<lparr>lim_15_0 = lim AND 0xffff, base_15_0 = base AND 0xffff,
     base_23_16 = drop_bit 16 base AND 0xff, seg_type = ty, seg_s = 1, seg_dpl = dpl, seg_p = 1,
     lim_19_16 = drop_bit 16 lim, seg_avl = 0, seg_rsv1 = 0, seg_db = 1, seg_g = 0,
     base_31_24 = drop_bit 24 base\<rparr>"

definition SEG_TSS :: nat where "SEG_TSS = 5"

definition switchuvm :: "nat option \<Rightarrow> ('a pst_scheme, unit) kern" where
  "switchuvm r = (case r of None \<Rightarrow> panic ''switchuvm: no process''
     | Some p \<Rightarrow> bnd (getp p) (\<lambda>x.
         if p_kstack x = 0 then panic ''switchuvm: no kstack''
         else if p_pgdir x = 0 then panic ''switchuvm: no pgdir''
         else upd (\<lambda>s. s\<lparr>cr3 := V2P (p_pgdir x),
                gdt := (gdt s)(SEG_TSS := (SEG16 9 (ts_addr s) (104 - 1) 0)\<lparr>seg_s := 0\<rparr>),
                ts_ss0 := push_bit 3 2, ts_esp0 := p_kstack x + KSTACKSIZE, ts_iomb := 0xFFFF,
                task_reg := push_bit 3 5\<rparr>)))"

section \<open>Queues of the multi-level feedback scheduler\<close>

text \<open>\<open>cq++; queueq[cq] = p;\<close> The arrays have 64 entries and the code does not check.\<close>

definition enqueue :: "nat \<Rightarrow> nat \<Rightarrow> ('a pst_scheme, unit) kern" where
  "enqueue q p = bnd (rd (\<lambda>s. qcount s q + 1)) (\<lambda>c.
     if c < 0 \<or> c \<ge> 64 then undef ''queue index out of range''
     else upd (\<lambda>s. s\<lparr>queue := (queue s)(q := (queue s q)(nat c := Some p)),
                     qcount := (qcount s)(q := c)\<rparr>))"

text \<open>\<open>for (j = i; j < i + n; j++) queue[j] = queue[j + 1];\<close>\<close>

fun shift_down :: "nat \<Rightarrow> nat \<Rightarrow> (nat \<Rightarrow> nat option) \<Rightarrow> (nat \<Rightarrow> nat option)" where
  "shift_down i 0 a = a"
| "shift_down i (Suc n) a = shift_down (Suc i) n (a(i := a (Suc i)))"

text \<open>The loop of \<open>rem_process\<close> over one queue, from \<open>i\<close> with last index \<open>c\<close>; \<open>None\<close> when it follows
  a null entry or leaves the array.\<close>

function rem_loop ::
    "(nat \<Rightarrow> proc) \<Rightarrow> int \<Rightarrow> nat \<Rightarrow> (nat \<Rightarrow> nat option) \<Rightarrow> int \<Rightarrow> ((nat \<Rightarrow> nat option) \<times> int) option" where
  "rem_loop tab pd i a c =
     (if int i \<le> c then
        (if c \<ge> 64 then None
         else case a i of None \<Rightarrow> None
           | Some p \<Rightarrow>
               if p_pid (tab p) = pd then
                 rem_loop tab pd (Suc i) (shift_down i (nat (c - int i)) a) (c - 1)
               else rem_loop tab pd (Suc i) a c)
      else Some (a, c))"
  by pat_completeness auto
termination
  by (relation "measure (\<lambda>(tab, pd, i, a, c). nat (c + 1) - i)") auto

declare rem_loop.simps [simp del]

definition rem_process :: "int \<Rightarrow> int \<Rightarrow> ('a pst_scheme, unit) kern" where
  "rem_process pd curq =
     (if 0 \<le> curq \<and> curq \<le> 4 then
        let q = nat curq in
        bnd (rd (\<lambda>s. rem_loop (ptable s) pd 0 (queue s q) (qcount s q))) (\<lambda>r.
          case r of None \<Rightarrow> undef ''rem_process: bad queue entry''
          | Some (a, c) \<Rightarrow> upd (\<lambda>s. s\<lparr>queue := (queue s)(q := a), qcount := (qcount s)(q := c)\<rparr>))
      else ret ())"

section \<open>Allocating a process\<close>

definition allocproc :: "('a pst_scheme, nat option) kern" where
  "allocproc = sq (acquire PtableLock)
     (bnd (rd (\<lambda>s. find (\<lambda>i. p_state (ptable s i) = UNUSED) [0..<NPROC])) (\<lambda>r. case r of
        None \<Rightarrow> sq (release PtableLock) (ret None)
      | Some p \<Rightarrow>
          sq (steps [modp p (\<lambda>x. x\<lparr>p_state := EMBRYO\<rparr>),
                     upd (\<lambda>s. s\<lparr>ptable := (ptable s)(p := (ptable s p)\<lparr>p_pid := nextpid s\<rparr>),
                                nextpid := nextpid s + 1\<rparr>),
                     modp p (\<lambda>x. x\<lparr>p_current_queue := 0, p_ticks := [0, 0, 0, 0, 0], p_waittime := 5\<rparr>),
                     enqueue 0 p,
                     release PtableLock])
          (bnd kalloc (\<lambda>k.
             sq (modp p (\<lambda>x. x\<lparr>p_kstack := k\<rparr>))
               (if k = 0 then sq (modp p (\<lambda>x. x\<lparr>p_state := UNUSED\<rparr>)) (ret None)
                else let sp = k + KSTACKSIZE - 76; ctx = sp - 4 - 20 in
                  sq (steps [modp p (\<lambda>x. x\<lparr>p_tf := sp\<rparr>),
                             bnd (rd trapret_addr) (st32 (sp - 4)),
                             modp p (\<lambda>x. x\<lparr>p_context := ctx\<rparr>),
                             kmemset ctx 0 20,
                             bnd (rd forkret_addr) (st32 (ctx + 16)),
                             acquire PtableLock,
                             modt p (\<lambda>t x. x\<lparr>p_ctime := t, p_etime := 0, p_rtime := 0, p_iotime := 0,
                                             p_num_r := 0\<rparr>),
                             release PtableLock,
                             modp p (\<lambda>x. x\<lparr>p_priority := (if p_pid x = 1 \<or> p_pid x = 2 then 1 else 60)\<rparr>)])
                     (ret (Some p)))))))"

definition growproc :: "int \<Rightarrow> ('a pst_scheme, int) kern" where
  "growproc n = bnd myproc_deref (\<lambda>cur. bnd (getp cur) (\<lambda>x.
     let done = (\<lambda>sz. sq (modp cur (\<lambda>x. x\<lparr>p_sz := sz\<rparr>)) (sq (switchuvm (Some cur)) (ret 0))) in
     if n > 0 then
       bnd (allocuvm (p_pgdir x) (p_sz x) (p_sz x + word_of_int n)) (\<lambda>sz.
         if sz = 0 then ret (-1) else done sz)
     else if n < 0 then
       bnd (deallocuvm (p_pgdir x) (p_sz x) (p_sz x + word_of_int n)) (\<lambda>sz.
         if sz = 0 then ret (-1) else done sz)
     else done (p_sz x)))"

section \<open>Giving up the CPU\<close>

text \<open>\<open>sched\<close> never returns here: what the code does after it is what the process does when it is
  next resumed. With interrupts off exactly while a lock is held, its last check cannot fail.\<close>

definition sched :: "('a pst_scheme, 'b) kern" where
  "sched = bnd myproc (\<lambda>r. bnd (rd held) (\<lambda>h.
     if PtableLock \<notin> set h then panic ''sched ptable.lock''
     else if length h \<noteq> 1 then panic ''sched locks''
     else case r of None \<Rightarrow> undef ''null process''
       | Some p \<Rightarrow> bnd (getp p) (\<lambda>x.
           if p_state x = RUNNING then panic ''sched running'' else (\<lambda>s. Switches s))))"

definition yield :: "('a pst_scheme, 'b) kern" where
  "yield = sq (acquire PtableLock) (bnd myproc_deref (\<lambda>p.
     sq (modp p (\<lambda>x. x\<lparr>p_state := RUNNABLE\<rparr>))
     (sq (modt p (\<lambda>t x. x\<lparr>p_start := t\<rparr>)) sched)))"

definition yield_resume :: "('a pst_scheme, unit) kern" where
  "yield_resume = release PtableLock"

definition sleep :: "chan \<Rightarrow> lockid \<Rightarrow> ('a pst_scheme, 'b) kern" where
  "sleep ch lk = bnd myproc (\<lambda>r. case r of None \<Rightarrow> panic ''sleep''
     | Some p \<Rightarrow>
         sq (whenb (lk \<noteq> PtableLock) (sq (acquire PtableLock) (release lk)))
         (sq (modp p (\<lambda>x. x\<lparr>p_chan := Some ch\<rparr>))
         (sq (modp p (\<lambda>x. x\<lparr>p_state := SLEEPING\<rparr>))
             sched)))"

definition sleep_resume :: "lockid \<Rightarrow> ('a pst_scheme, unit) kern" where
  "sleep_resume lk = bnd myproc_deref (\<lambda>p.
     sq (modp p (\<lambda>x. x\<lparr>p_chan := None\<rparr>))
        (whenb (lk \<noteq> PtableLock) (sq (release PtableLock) (acquire lk))))"

definition wakeup1 :: "chan \<Rightarrow> ('a pst_scheme, unit) kern" where
  "wakeup1 ch = for_each [0..<NPROC] (\<lambda>i. bnd (getp i) (\<lambda>x.
     whenb (p_state x = SLEEPING \<and> p_chan x = Some ch)
       (sq (modp i (\<lambda>x. x\<lparr>p_state := RUNNABLE\<rparr>))
           (modt i (\<lambda>t x. x\<lparr>p_start := t\<rparr>)))))"

definition wakeup :: "chan \<Rightarrow> ('a pst_scheme, unit) kern" where
  "wakeup ch = with_lock PtableLock (wakeup1 ch)"

definition kill :: "int \<Rightarrow> ('a pst_scheme, int) kern" where
  "kill pd = sq (acquire PtableLock)
     (bnd (rd (\<lambda>s. find (\<lambda>i. p_pid (ptable s i) = pd) [0..<NPROC])) (\<lambda>r. case r of
        None \<Rightarrow> sq (release PtableLock) (ret (-1))
      | Some p \<Rightarrow>
          sq (modp p (\<lambda>x. x\<lparr>p_killed := 1\<rparr>))
          (sq (bnd (getp p) (\<lambda>x. whenb (p_state x = SLEEPING)
                 (modt p (\<lambda>t x. x\<lparr>p_start := t, p_state := RUNNABLE\<rparr>))))
          (sq (release PtableLock) (ret 0)))))"

section \<open>Waiting for children\<close>

text \<open>The children of \<open>cur\<close> and the first zombie among them, as the loop over the table finds
  them.\<close>

definition kids :: "nat \<Rightarrow> 'a pst_scheme \<Rightarrow> nat list" where
  "kids cur s = filter (\<lambda>i. p_parent (ptable s i) = Some cur) [0..<NPROC]"

definition zombie_kid :: "nat \<Rightarrow> 'a pst_scheme \<Rightarrow> nat option" where
  "zombie_kid cur s = find (\<lambda>i. p_state (ptable s i) = ZOMBIE) (kids cur s)"

text \<open>The \<open>for(;;)\<close> of \<open>wait\<close>, once, with \<open>ptable.lock\<close> held; it is entered again when the process
  wakes up from the sleep at its end.\<close>

definition wait_loop :: "policy \<Rightarrow> nat \<Rightarrow> ('a pst_scheme, int) kern" where
  "wait_loop pol cur = bnd (rd (zombie_kid cur)) (\<lambda>r. case r of
     Some p \<Rightarrow> bnd (getp p) (\<lambda>x.
       sq (steps [kfree (p_kstack x),
                  modp p (\<lambda>x. x\<lparr>p_kstack := 0\<rparr>),
                  freevm (p_pgdir x),
                  whenb (pol = MLFQ) (rem_process (p_pid x) (p_current_queue x)),
                  modp p (\<lambda>x. x\<lparr>p_pid := 0, p_parent := None, p_name := (p_name x)[0 := 0],
                                  p_killed := 0, p_state := UNUSED\<rparr>),
                  release PtableLock])
          (ret (p_pid x)))
   | None \<Rightarrow> bnd (rd (kids cur)) (\<lambda>ks. bnd (getp cur) (\<lambda>me.
       if ks = [] \<or> p_killed me \<noteq> 0 then sq (release PtableLock) (ret (-1))
       else sleep (ChProc cur) PtableLock)))"

definition wait :: "policy \<Rightarrow> ('a pst_scheme, int) kern" where
  "wait pol = bnd myproc_deref (\<lambda>cur. sq (acquire PtableLock) (wait_loop pol cur))"

text \<open>\<open>wtime\<close> and \<open>rtime\<close> are the user addresses the results go to. The time fields and their
  difference are 32-bit ints.\<close>

definition int32 :: "int \<Rightarrow> u32" where "int32 i = word_of_int i"

definition waitx_loop :: "nat \<Rightarrow> u32 \<Rightarrow> u32 \<Rightarrow> ('a pst_scheme, int) kern" where
  "waitx_loop cur wtime rtime = bnd (rd (zombie_kid cur)) (\<lambda>r. case r of
     Some p \<Rightarrow> bnd (getp p) (\<lambda>x.
       sq (steps [put_user wtime (le32 (int32 (p_etime x - p_ctime x - p_rtime x - p_iotime x))),
                  cprintf ''\<newline>etime %d  ctime %d    rtime %d    iotime %d \<newline>''
                    [ANum (int32 (p_etime x)), ANum (int32 (p_ctime x)), ANum (int32 (p_rtime x)),
                     ANum (int32 (p_iotime x))],
                  put_user rtime (le32 (int32 (p_rtime x))),
                  kfree (p_kstack x),
                  modp p (\<lambda>x. x\<lparr>p_kstack := 0\<rparr>),
                  freevm (p_pgdir x),
                  modp p (\<lambda>x. x\<lparr>p_state := UNUSED, p_pid := 0, p_parent := None,
                                  p_name := (p_name x)[0 := 0], p_killed := 0\<rparr>),
                  release PtableLock])
          (ret (p_pid x)))
   | None \<Rightarrow> bnd (rd (kids cur)) (\<lambda>ks. bnd (getp cur) (\<lambda>me.
       if \<not> (ks = [] \<or> p_killed me \<noteq> 0) then sleep (ChProc cur) PtableLock
       else sq (release PtableLock) (ret (-1)))))"

definition waitx :: "u32 \<Rightarrow> u32 \<Rightarrow> ('a pst_scheme, int) kern" where
  "waitx wtime rtime =
     bnd myproc_deref (\<lambda>cur. sq (acquire PtableLock) (waitx_loop cur wtime rtime))"

section \<open>Priorities and listings\<close>

definition chpr :: "int \<Rightarrow> int \<Rightarrow> ('a pst_scheme, int) kern" where
  "chpr pd priority = sq (acquire PtableLock)
     (bnd (rd (\<lambda>s. find (\<lambda>i. p_pid (ptable s i) = pd) [0..<NPROC])) (\<lambda>r.
        sq (case r of None \<Rightarrow> ret () | Some p \<Rightarrow> modp p (\<lambda>x. x\<lparr>p_priority := priority\<rparr>))
       (sq (release PtableLock) (ret pd))))"

definition setPriority :: "int \<Rightarrow> int \<Rightarrow> ('a pst_scheme, int) kern" where
  "setPriority priority pd =
     (if priority < 0 \<or> priority > 100 then ret (-2)
      else sq (acquire PtableLock)
       (bnd (rd (\<lambda>s. find (\<lambda>i. p_pid (ptable s i) = pd) [0..<NPROC])) (\<lambda>r. case r of
          None \<Rightarrow> sq (release PtableLock) (ret (-1))
        | Some p \<Rightarrow> sq (modp p (\<lambda>x. x\<lparr>p_priority := priority\<rparr>))
                      (sq (release PtableLock) (ret 24)))))"

text \<open>A byte string up to its terminator, as \<open>%s\<close> prints it.\<close>

definition cstring :: "u8 list \<Rightarrow> string" where
  "cstring bs = map (\<lambda>b. char_of (unat b)) (takeWhile (\<lambda>b. b \<noteq> 0) bs)"

definition state_name :: "procstate \<Rightarrow> string" where
  "state_name st = (case st of UNUSED \<Rightarrow> ''unused'' | EMBRYO \<Rightarrow> ''embryo'' | SLEEPING \<Rightarrow> ''sleep ''
     | RUNNABLE \<Rightarrow> ''runble'' | RUNNING \<Rightarrow> ''run   '' | ZOMBIE \<Rightarrow> ''zombie'')"

definition procdump :: "('a pst_scheme, unit) kern" where
  "procdump = for_each [0..<NPROC] (\<lambda>i. bnd (getp i) (\<lambda>x.
     whenb (p_state x \<noteq> UNUSED)
       (sq (cprintf ''%d %s %s'' [ANum (int32 (p_pid x)), AStr (Some (state_name (p_state x))),
                                  AStr (Some (cstring (p_name x)))])
       (sq (whenb (p_state x = SLEEPING)
              (bnd (rd (\<lambda>s. getcallerpcs (load32 (pmem s)) (load32 (pmem s) (p_context x + 12) + 8)))
                (\<lambda>pcs. for_each (takeWhile (\<lambda>pc. pc \<noteq> 0) pcs) (\<lambda>pc. cprintf '' %p'' [ANum pc]))))
           (cprintf ''\<newline>'' [])))))"

definition cps_line :: "policy \<Rightarrow> proc \<Rightarrow> ('a pst_scheme, unit) kern" where
  "cps_line pol x =
     (let n = (\<lambda>v. ANum (int32 v)); base = [n (p_pid x), n (p_priority x), n (p_rtime x), n (p_waittime x)];
          mlfq = base @ [n (p_num_r x), n (p_current_queue x)] @ map n (take 5 (p_ticks x)) in
      if pol = MLFQ then
        if p_state x = RUNNABLE then
          cprintf ''%d   %d        RUNNABLE    %d     %d     %d     %d    %d  %d  %d  %d  %d\<newline>'' mlfq
        else if p_state x = SLEEPING then
          cprintf ''%d   %d        SLEEPING   %d     %d     %d     %d    %d  %d  %d  %d  %d\<newline>'' mlfq
        else if p_state x = RUNNING then
          cprintf ''%d   %d        RUNNING   %d     %d      %d     %d    %d  %d  %d  %d  %d\<newline>'' mlfq
        else ret ()
      else
        if p_state x = RUNNING then cprintf ''%d   %d        RUNNING    %d   %d\<newline>'' base
        else if p_state x = SLEEPING then cprintf ''%d   %d        SLEEPING    %d   %d\<newline>'' base
        else if p_state x = ZOMBIE then cprintf ''%d   %d        ZOMBIE    %d     %d\<newline>'' base
        else if p_state x = EMBRYO then cprintf ''%d             EMBRYO\<newline>'' [n (p_pid x)]
        else ret ())"

definition cps :: "policy \<Rightarrow> ('a pst_scheme, int) kern" where
  "cps pol =
     sq (cprintf (if pol = MLFQ then ''PID Priority   State   rtime wtime n_run curr_q q0 q1 q2 q3 q4 \<newline>''
                  else ''PID Priority   State   rtime wtime \<newline>'') [])
     (sq (acquire PtableLock)
     (sq (for_each [0..<NPROC] (\<lambda>i. bnd (getp i) (cps_line pol)))
     (sq (release PtableLock) (ret 22))))"

section \<open>Queues as lists\<close>

definition qlist :: "'a pst_scheme \<Rightarrow> nat \<Rightarrow> nat option list" where
  "qlist s q = map (queue s q) [0..<nat (qcount s q + 1)]"

definition queue_wf :: "'a pst_scheme \<Rightarrow> nat \<Rightarrow> bool" where
  "queue_wf s q \<longleftrightarrow> -1 \<le> qcount s q \<and> qcount s q < 64 \<and> None \<notin> set (qlist s q)"

lemma enqueue_eq:
  assumes "-1 \<le> qcount s q" "qcount s q < 63"
  shows "enqueue q p s = Ok () (s\<lparr>queue := (queue s)(q := (queue s q)(nat (qcount s q + 1) := Some p)),
     qcount := (qcount s)(q := qcount s q + 1)\<rparr>)"
  using assms by (simp add: enqueue_def monad_defs)

lemma enqueue_full: "63 \<le> qcount s q \<Longrightarrow> enqueue q p s = Undef ''queue index out of range''"
  by (simp add: enqueue_def monad_defs)

lemma qlist_enqueue:
  fixes s t :: "'a pst_scheme"
  assumes "-1 \<le> qcount s q" "queue t q = (queue s q)(nat (qcount s q + 1) := Some p)"
    "qcount t q = qcount s q + 1"
  shows "qlist t q = qlist s q @ [Some p]"
proof -
  have "nat (qcount s q + 1 + 1) = Suc (nat (qcount s q + 1))" using assms(1) by simp
  then show ?thesis using assms(2,3) by (simp add: qlist_def)
qed

lemma shift_down_eq: "shift_down i n a = (\<lambda>j. if i \<le> j \<and> j < i + n then a (Suc j) else a j)"
proof (induction n arbitrary: i a)
  case (Suc n)
  show ?case unfolding shift_down.simps Suc by (rule ext) auto
qed (rule ext, auto)

text \<open>What the loop of \<open>rem_process\<close> does to the list: it steps over the element that moves into the
  place of a removed one.\<close>

fun drop_matches :: "('x \<Rightarrow> bool) \<Rightarrow> 'x list \<Rightarrow> 'x list" where
  "drop_matches P [] = []"
| "drop_matches P [x] = (if P x then [] else [x])"
| "drop_matches P (x # y # zs) =
     (if P x then y # drop_matches P zs else x # drop_matches P (y # zs))"

lemma drop_matches_none: "\<forall>x \<in> set xs. \<not> P x \<Longrightarrow> drop_matches P xs = xs"
  by (induction P xs rule: drop_matches.induct) auto

lemma drop_matches_one:
  "length (filter P xs) \<le> 1 \<Longrightarrow> drop_matches P xs = filter (\<lambda>x. \<not> P x) xs"
proof (induction P xs rule: drop_matches.induct)
  case (3 P x y zs)
  then show ?case
  proof (cases "P x")
    case True
    then have "filter P (y # zs) = []" using "3.prems" by (auto split: if_splits)
    then have no: "\<forall>v \<in> set (y # zs). \<not> P v" by (simp only: filter_empty_conv)
    then show ?thesis using True by (simp add: drop_matches_none)
  next
    case False
    then show ?thesis using 3 by simp
  qed
qed auto

lemma rem_loop_list:
  assumes "c < 64" and "\<forall>j. i \<le> j \<and> int j \<le> c \<longrightarrow> a j \<noteq> None"
  shows "\<exists>a' c'. rem_loop tab pd i a c = Some (a', c') \<and> c' \<le> c \<and>
    (\<forall>j<i. a' j = a j) \<and> (int i - 1 \<le> c \<longrightarrow> int i - 1 \<le> c') \<and>
    map a' [i..<nat (c' + 1)] =
      drop_matches (\<lambda>r. \<exists>p. r = Some p \<and> p_pid (tab p) = pd) (map a [i..<nat (c + 1)])"
  using assms
proof (induction tab pd i a c rule: rem_loop.induct)
  case (1 tab pd i a c)
  let ?P = "\<lambda>r. \<exists>p. r = Some p \<and> p_pid (tab p) = pd"
  show ?case
  proof (cases "int i \<le> c")
    case False
    then have "rem_loop tab pd i a c = Some (a, c)" by (subst rem_loop.simps) simp
    moreover have "nat (c + 1) \<le> i" using False by linarith
    ultimately show ?thesis by auto
  next
    case le: True
    then obtain p where p: "a i = Some p" using "1.prems"(2) by auto
    have up: "[i..<nat (c + 1)] = i # [Suc i..<nat (c + 1)]" using le by (simp add: upt_conv_Cons)
    show ?thesis
    proof (cases "p_pid (tab p) = pd")
      case False
      have run: "rem_loop tab pd i a c = rem_loop tab pd (Suc i) a c"
        using le "1.prems"(1) p False by (subst rem_loop.simps) simp
      have nc: "\<not> c \<ge> 64" using "1.prems"(1) by simp
      have as: "\<forall>j. Suc i \<le> j \<and> int j \<le> c \<longrightarrow> a j \<noteq> None" using "1.prems"(2) by simp
      obtain a' c' where r: "rem_loop tab pd (Suc i) a c = Some (a', c')" "c' \<le> c" "\<forall>j<Suc i. a' j = a j"
        "int (Suc i) - 1 \<le> c \<longrightarrow> int (Suc i) - 1 \<le> c'"
        "map a' [Suc i..<nat (c' + 1)] = drop_matches ?P (map a [Suc i..<nat (c + 1)])"
        using "1.IH"(2)[OF le nc p False "1.prems"(1) as] by blast
      have "[i..<nat (c' + 1)] = i # [Suc i..<nat (c' + 1)]" using r(4) le by (simp add: upt_conv_Cons)
      then have "map a' [i..<nat (c' + 1)] = a i # drop_matches ?P (map a [Suc i..<nat (c + 1)])"
        using r(3,5) by simp
      also have "\<dots> = drop_matches ?P (map a [i..<nat (c + 1)])"
        using p False unfolding up by (cases "map a [Suc i..<nat (c + 1)]") auto
      finally show ?thesis unfolding run using r le by auto
    next
      case True
      let ?b = "shift_down i (nat (c - int i)) a"
      have run: "rem_loop tab pd i a c = rem_loop tab pd (Suc i) ?b (c - 1)"
        using le "1.prems"(1) p True by (subst rem_loop.simps) simp
      have nc: "\<not> c \<ge> 64" using "1.prems"(1) by simp
      have b: "?b j = (if i \<le> j \<and> int j < c then a (Suc j) else a j)" for j
        using le by (auto simp: shift_down_eq)
      have bs: "\<forall>j. Suc i \<le> j \<and> int j \<le> c - 1 \<longrightarrow> ?b j \<noteq> None"
        using "1.prems"(2) by (simp add: b)
      have eq: "map ?b [Suc i..<nat c] = map a [Suc (Suc i)..<nat (c + 1)]"
      proof -
        have "map ?b [Suc i..<nat c] = map (\<lambda>j. a (Suc j)) [Suc i..<nat c]" by (auto simp: b)
        also have "\<dots> = map a (map Suc [Suc i..<nat c])" by simp
        also have "map Suc [Suc i..<nat c] = [Suc (Suc i)..<nat (c + 1)]"
          using le by (simp add: map_Suc_upt nat_add_distrib)
        finally show ?thesis .
      qed
      show ?thesis
      proof (cases "int i = c")
        case True
        have "rem_loop tab pd (Suc i) ?b (c - 1) = Some (?b, c - 1)"
          using True by (subst rem_loop.simps) simp
        moreover have "map a [i..<nat (c + 1)] = [a i]" using True up by simp
        moreover have "\<forall>j<i. ?b j = a j" using b by simp
        ultimately show ?thesis unfolding run using p True \<open>p_pid (tab p) = pd\<close> by auto
      next
        case False
        then have lt: "int i < c" using le by simp
      obtain a' c' where r: "rem_loop tab pd (Suc i) ?b (c - 1) = Some (a', c')" "c' \<le> c - 1"
        "\<forall>j<Suc i. a' j = ?b j" "int (Suc i) - 1 \<le> c - 1 \<longrightarrow> int (Suc i) - 1 \<le> c'"
        "map a' [Suc i..<nat (c' + 1)] = drop_matches ?P (map ?b [Suc i..<nat (c - 1 + 1)])"
        using "1.IH"(1)[OF le nc p \<open>p_pid (tab p) = pd\<close> _ bs] "1.prems"(1) by (elim exE conjE meta_impE) auto
        have ci: "int i \<le> c'" using r(4) lt by simp
        have "[i..<nat (c' + 1)] = i # [Suc i..<nat (c' + 1)]" using ci by (simp add: upt_conv_Cons)
        then have "map a' [i..<nat (c' + 1)] = a (Suc i) # drop_matches ?P (map a [Suc (Suc i)..<nat (c + 1)])"
          using r(3,5) lt eq by (simp add: b)
        also have "\<dots> = drop_matches ?P (map a [i..<nat (c + 1)])"
        proof -
          have "[Suc i..<nat (c + 1)] = Suc i # [Suc (Suc i)..<nat (c + 1)]"
            using lt by (simp add: upt_conv_Cons)
          then show ?thesis using p \<open>p_pid (tab p) = pd\<close> unfolding up by simp
        qed
        finally show ?thesis unfolding run using r(1,2,3) ci b by auto
      qed
    qed
  qed
qed
lemma rem_process_list:
  assumes wf: "queue_wf s q" and q: "q \<le> 4"
    and one: "length (filter (\<lambda>r. \<exists>p. r = Some p \<and> p_pid (ptable s p) = pd) (qlist s q)) \<le> 1"
  shows "\<exists>a c. rem_process pd (int q) s = Ok () (s\<lparr>queue := (queue s)(q := a), qcount := (qcount s)(q := c)\<rparr>) \<and>
     -1 \<le> c \<and> c \<le> qcount s q \<and>
     map a [0..<nat (c + 1)] = filter (\<lambda>r. \<not> (\<exists>p. r = Some p \<and> p_pid (ptable s p) = pd)) (qlist s q)"
proof -
  have c: "qcount s q < 64" "-1 \<le> qcount s q" using wf by (simp_all add: queue_wf_def)
  have some: "\<forall>j. 0 \<le> j \<and> int j \<le> qcount s q \<longrightarrow> queue s q j \<noteq> None"
  proof (intro allI impI)
    fix j :: nat
    assume "0 \<le> j \<and> int j \<le> qcount s q"
    then have "j < nat (qcount s q + 1)" by simp
    then have "queue s q j \<in> set (qlist s q)" by (simp add: qlist_def)
    then show "queue s q j \<noteq> None" using wf unfolding queue_wf_def by metis
  qed
  obtain a c' where r: "rem_loop (ptable s) pd 0 (queue s q) (qcount s q) = Some (a, c')" "c' \<le> qcount s q"
    "int 0 - 1 \<le> qcount s q \<longrightarrow> int 0 - 1 \<le> c'" "map a [0..<nat (c' + 1)] =
      drop_matches (\<lambda>r. \<exists>p. r = Some p \<and> p_pid (ptable s p) = pd) (map (queue s q) [0..<nat (qcount s q + 1)])"
    using rem_loop_list[where i = 0 and tab = "ptable s" and pd = pd and a = "queue s q", OF c(1) some]
    by (elim exE conjE) (rule that; assumption)
  have "rem_process pd (int q) s = Ok () (s\<lparr>queue := (queue s)(q := a), qcount := (qcount s)(q := c')\<rparr>)"
    using q by (simp add: rem_process_def Let_def bnd_def rd_def r(1) upd_def)
  moreover have "map a [0..<nat (c' + 1)] = filter (\<lambda>r. \<not> (\<exists>p. r = Some p \<and> p_pid (ptable s p) = pd)) (qlist s q)"
    using r(4) drop_matches_one[OF one] by (simp add: qlist_def)
  moreover have "-1 \<le> c'" using r(3) c(2) by simp
  ultimately show ?thesis using r(2) by (intro exI[of _ a] exI[of _ c'] conjI)
qed

section \<open>Loops over the table\<close>

text \<open>A loop whose body changes only its own entry changes every entry by the same function.\<close>

lemma for_each_table:
  assumes "\<And>i t. i < n \<Longrightarrow> now t = now s \<Longrightarrow>
      f i t = Ok () (t\<lparr>ptable := (ptable t)(i := g (ptable t i))\<rparr>)"
  shows "for_each [0..<n] f s = Ok () (s\<lparr>ptable := (\<lambda>i. if i < n then g (ptable s i) else ptable s i)\<rparr>)"
proof -
  have "now t = now s \<Longrightarrow> k \<le> n \<Longrightarrow> for_each [k..<n] f t =
      Ok () (t\<lparr>ptable := (\<lambda>i. if k \<le> i \<and> i < n then g (ptable t i) else ptable t i)\<rparr>)" for k t
  proof (induction "n - k" arbitrary: k t)
    case 0
    have e: "(\<lambda>i. if k \<le> i \<and> i < n then g (ptable t i) else ptable t i) = ptable t"
      using 0 by (intro ext) auto
    show ?case using 0 unfolding e by (simp add: ret_def)
  next
    case (Suc d)
    let ?u = "t\<lparr>ptable := (ptable t)(k := g (ptable t k))\<rparr>"
    have k: "k < n" using Suc.hyps(2) by simp
    have "for_each [Suc k..<n] f ?u = Ok () (?u\<lparr>ptable := (\<lambda>i. if Suc k \<le> i \<and> i < n then g (ptable ?u i) else ptable ?u i)\<rparr>)"
      using Suc.hyps k Suc.prems by (intro Suc.hyps(1)) (auto simp: now_def)
    moreover have "(\<lambda>i. if Suc k \<le> i \<and> i < n then g (ptable ?u i) else ptable ?u i) =
        (\<lambda>i. if k \<le> i \<and> i < n then g (ptable t i) else ptable t i)"
      using k by (intro ext) auto
    ultimately show ?case
      using k assms[OF k Suc.prems(1)] by (simp add: upt_conv_Cons sq_def)
  qed
  from this[of s 0] show ?thesis by simp
qed

definition woken :: "chan \<Rightarrow> int \<Rightarrow> proc \<Rightarrow> proc" where
  "woken ch t x = (if p_state x = SLEEPING \<and> p_chan x = Some ch
     then x\<lparr>p_state := RUNNABLE, p_start := t\<rparr> else x)"

definition wake_table :: "chan \<Rightarrow> int \<Rightarrow> (nat \<Rightarrow> proc) \<Rightarrow> nat \<Rightarrow> proc" where
  "wake_table ch t tab = (\<lambda>i. if i < NPROC then woken ch t (tab i) else tab i)"

lemma wakeup1_eq: "wakeup1 ch s = Ok () (s\<lparr>ptable := wake_table ch (now s) (ptable s)\<rparr>)"
  unfolding wakeup1_def wake_table_def
  by (rule for_each_table)
    (simp add: getp_def modp_def modt_def monad_defs woken_def now_def)

section \<open>What the operations do\<close>

lemma modp_eq: "modp i f s = Ok () (s\<lparr>ptable := (ptable s)(i := f (ptable s i))\<rparr>)"
  by (simp add: modp_def upd_def)

lemma modt_eq: "modt i f s = Ok () (s\<lparr>ptable := (ptable s)(i := f (now s) (ptable s i))\<rparr>)"
  by (simp add: modt_def modp_eq rd_eq)

lemma getp_eq: "getp i s = Ok (ptable s i) s"
  by (simp add: getp_def rd_eq)

lemma myproc_eq: "myproc s = Ok (curproc s) s"
  by (simp add: myproc_def rd_eq)

lemma myproc_deref_eq: "curproc s = Some p \<Longrightarrow> myproc_deref s = Ok p s"
  by (simp add: myproc_deref_def myproc_eq ret_eq)

lemmas proc_runs = lock_runs modp_eq modt_eq getp_eq myproc_eq myproc_deref_eq

lemma now_upd [simp]: "now (s\<lparr>ptable := f\<rparr>) = now s" "now (s\<lparr>held := h\<rparr>) = now s"
  "now (s\<lparr>pmem := m\<rparr>) = now s" "now (s\<lparr>freelist := fl\<rparr>) = now s" "now (s\<lparr>nextpid := n\<rparr>) = now s"
  "now (s\<lparr>queue := q\<rparr>) = now s" "now (s\<lparr>qcount := c\<rparr>) = now s"
  by (simp_all add: now_def)

text \<open>The entry \<open>allocproc\<close> fills in, with its kernel stack at \<open>k\<close>.\<close>

definition newproc :: "int \<Rightarrow> int \<Rightarrow> u32 \<Rightarrow> proc \<Rightarrow> proc" where
  "newproc t pd k x = x\<lparr>p_state := EMBRYO, p_pid := pd, p_current_queue := 0, p_ticks := [0, 0, 0, 0, 0],
     p_waittime := 5, p_kstack := k, p_tf := 4020 + k, p_context := 3996 + k, p_ctime := t, p_etime := 0,
     p_rtime := 0, p_iotime := 0, p_num_r := 0, p_priority := (if pd = 1 \<or> pd = 2 then 1 else 60)\<rparr>"

lemma allocproc_eq:
  assumes "held s = []" and "find (\<lambda>i. p_state (ptable s i) = UNUSED) [0..<NPROC] = Some p"
    and "-1 \<le> qcount s 0" "qcount s 0 < 63" and "freelist s \<noteq> 0"
  shows "allocproc s = Ok (Some p) (s\<lparr>
      pmem := store32 (4012 + freelist s) (forkret_addr s) (memset (3996 + freelist s) 0 20
                (store32 (4016 + freelist s) (trapret_addr s) (pmem s))),
      freelist := load32 (pmem s) (freelist s),
      ptable := (ptable s)(p := newproc (now s) (nextpid s) (freelist s) (ptable s p)),
      nextpid := nextpid s + 1,
      queue := (queue s)(0 := (queue s 0)(nat (qcount s 0 + 1) := Some p)),
      qcount := (qcount s)(0 := qcount s 0 + 1)\<rparr>)"
  using assms
  by (simp add: allocproc_def proc_runs st32_def kmemset_def enqueue_eq kalloc_eq Let_def KSTACKSIZE_def
      newproc_def)

lemma allocproc_no_slot:
  assumes "held s = []" and "find (\<lambda>i. p_state (ptable s i) = UNUSED) [0..<NPROC] = None"
  shows "allocproc s = Ok None s"
  using assms by (simp add: allocproc_def proc_runs)

lemma allocproc_no_memory:
  assumes "held s = []" and "find (\<lambda>i. p_state (ptable s i) = UNUSED) [0..<NPROC] = Some p"
    and "-1 \<le> qcount s 0" "qcount s 0 < 63" and "freelist s = 0"
  shows "allocproc s = Ok None (s\<lparr>
      ptable := (ptable s)(p := (ptable s p)\<lparr>p_pid := nextpid s, p_current_queue := 0,
                  p_ticks := [0, 0, 0, 0, 0], p_waittime := 5, p_kstack := 0, p_state := UNUSED\<rparr>),
      nextpid := nextpid s + 1,
      queue := (queue s)(0 := (queue s 0)(nat (qcount s 0 + 1) := Some p)),
      qcount := (qcount s)(0 := qcount s 0 + 1)\<rparr>)"
  using assms
  by (simp add: allocproc_def proc_runs enqueue_eq kalloc_eq)

lemma allocproc_full_queue:
  assumes "held s = []" and "find (\<lambda>i. p_state (ptable s i) = UNUSED) [0..<NPROC] = Some p"
    and "63 \<le> qcount s 0"
  shows "allocproc s = Undef ''queue index out of range''"
  using assms by (simp add: allocproc_def proc_runs enqueue_full sq_def bnd_def)

lemma kill_eq:
  assumes "PtableLock \<notin> set (held s)"
  shows "kill pd s = (case find (\<lambda>i. p_pid (ptable s i) = pd) [0..<NPROC] of
      None \<Rightarrow> Ok (-1) s
    | Some p \<Rightarrow> Ok 0 (s\<lparr>ptable := (ptable s)(p :=
        (if p_state (ptable s p) = SLEEPING
         then (ptable s p)\<lparr>p_killed := 1, p_start := now s, p_state := RUNNABLE\<rparr>
         else (ptable s p)\<lparr>p_killed := 1\<rparr>))\<rparr>))"
  using assms by (simp add: kill_def proc_runs split: option.split)

lemma setPriority_eq:
  assumes "PtableLock \<notin> set (held s)"
  shows "setPriority pr pd s =
    (if pr < 0 \<or> pr > 100 then Ok (-2) s
     else case find (\<lambda>i. p_pid (ptable s i) = pd) [0..<NPROC] of
       None \<Rightarrow> Ok (-1) s
     | Some p \<Rightarrow> Ok 24 (s\<lparr>ptable := (ptable s)(p := (ptable s p)\<lparr>p_priority := pr\<rparr>)\<rparr>))"
  using assms by (simp add: setPriority_def proc_runs split: option.split)

lemma chpr_eq:
  assumes "PtableLock \<notin> set (held s)"
  shows "chpr pd pr s = Ok pd (case find (\<lambda>i. p_pid (ptable s i) = pd) [0..<NPROC] of
      None \<Rightarrow> s | Some p \<Rightarrow> s\<lparr>ptable := (ptable s)(p := (ptable s p)\<lparr>p_priority := pr\<rparr>)\<rparr>)"
  using assms by (simp add: chpr_def proc_runs split: option.split)

lemma wakeup_eq:
  assumes "PtableLock \<notin> set (held s)"
  shows "wakeup ch s = Ok () (s\<lparr>ptable := wake_table ch (now s) (ptable s)\<rparr>)"
  using assms by (simp add: wakeup_def with_lock_def wakeup1_eq proc_runs)

lemma sched_eq:
  assumes "held s = [PtableLock]" "curproc s = Some p" "p_state (ptable s p) \<noteq> RUNNING"
  shows "sched s = Switches s"
  using assms by (simp add: sched_def proc_runs)

lemma sleep_eq:
  assumes "curproc s = Some p"
    and "if lk = PtableLock then held s = [PtableLock] else held s = [lk]"
  shows "sleep ch lk s = Switches (s\<lparr>held := [PtableLock],
     ptable := (ptable s)(p := (ptable s p)\<lparr>p_chan := Some ch, p_state := SLEEPING\<rparr>)\<rparr>)"
  using assms
  by (cases "lk = PtableLock") (simp_all add: sleep_def proc_runs sched_eq release_def)

lemma sleep_resume_eq:
  assumes "curproc s = Some p" "held s = [PtableLock]"
  shows "sleep_resume lk s = Ok () (s\<lparr>held := [lk], ptable := (ptable s)(p := (ptable s p)\<lparr>p_chan := None\<rparr>)\<rparr>)"
  using assms by (simp add: sleep_resume_def proc_runs)

section \<open>Waiting\<close>

text \<open>Everything outside memory, console, free list and the parts listed survives freeing a child.\<close>

lemma kids_iff: "i \<in> set (kids cur s) \<longleftrightarrow> i < NPROC \<and> p_parent (ptable s i) = Some cur"
  by (auto simp: kids_def)

lemma zombie_kid_Some:
  assumes "zombie_kid cur s = Some p"
  shows "p < NPROC" "p_parent (ptable s p) = Some cur" "p_state (ptable s p) = ZOMBIE"
  using find_SomeD[OF assms[unfolded zombie_kid_def]] kids_iff by auto

lemma zombie_kid_None:
  "zombie_kid cur s = None \<longleftrightarrow>
     (\<forall>i<NPROC. p_parent (ptable s i) = Some cur \<longrightarrow> p_state (ptable s i) \<noteq> ZOMBIE)"
  by (auto simp: zombie_kid_def find_None_iff kids_iff)

lemma vm_frame_pst:
  assumes "vm_frame s t"
  shows "ptable t = ptable s" "held t = held s" "queue t = queue s" "qcount t = qcount s"
    "nextpid t = nextpid s" "curproc t = curproc s" "ticks t = ticks s" "initproc t = initproc s"
  using assms by (auto elim!: vm_frameE)

text \<open>No zombie child: \<open>wait_loop\<close> returns -1 or goes to sleep on the caller's own entry.\<close>

lemma wait_loop_none:
  assumes "zombie_kid cur s = None" "held s = [PtableLock]" "curproc s = Some cur"
  shows "wait_loop pol cur s =
    (if kids cur s = [] \<or> p_killed (ptable s cur) \<noteq> 0 then Ok (-1) (s\<lparr>held := []\<rparr>)
     else Switches (s\<lparr>ptable := (ptable s)(cur :=
            (ptable s cur)\<lparr>p_chan := Some (ChProc cur), p_state := SLEEPING\<rparr>)\<rparr>))"
  using assms by (simp add: wait_loop_def proc_runs sleep_eq)

lemma rem_process_Ok:
  "rem_process pd q s = Ok x t \<Longrightarrow> \<exists>a c. t = s\<lparr>queue := a, qcount := c\<rparr>"
proof -
  have same: "\<exists>a c. s = s\<lparr>queue := a, qcount := c\<rparr>"
    by (rule exI[of _ "queue s"], rule exI[of _ "qcount s"]) simp
  assume "rem_process pd q s = Ok x t"
  then show ?thesis using same
    by (auto simp: rem_process_def monad_defs Let_def split: if_splits option.splits prod.splits)
qed

lemma wait_loop_zombie:
  assumes z: "zombie_kid cur s = Some p" and ok: "wait_loop pol cur s = Ok r t"
  shows "r = p_pid (ptable s p)"
    and "ptable t = (ptable s)(p := (ptable s p)\<lparr>p_kstack := 0, p_pid := 0, p_parent := None,
           p_name := (p_name (ptable s p))[0 := 0], p_killed := 0, p_state := UNUSED\<rparr>)"
    and "held t = remove1 PtableLock (held s)" and "nextpid t = nextpid s"
    and "pol \<noteq> MLFQ \<Longrightarrow> queue t = queue s \<and> qcount t = qcount s"
proof -
  let ?x = "ptable s p"
  obtain s1 where s1: "kfree (p_kstack ?x) s = Ok () s1"
    using ok z by (auto simp: wait_loop_def proc_runs sq_def bnd_eq_Ok)
  note f1 = vm_frame_pst[OF keeps_Ok[OF vm_basic_frames(2) s1]]
  let ?s2 = "s1\<lparr>ptable := (ptable s1)(p := (ptable s1 p)\<lparr>p_kstack := 0\<rparr>)\<rparr>"
  obtain s3 where s3: "freevm (p_pgdir ?x) ?s2 = Ok () s3"
    using ok z s1 by (auto simp: wait_loop_def proc_runs sq_def bnd_eq_Ok)
  note f3 = vm_frame_pst[OF keeps_Ok[OF freevm_frame s3]]
  obtain s4 where s4: "whenb (pol = MLFQ) (rem_process (p_pid ?x) (p_current_queue ?x)) s3 = Ok () s4"
    using ok z s1 s3 by (auto simp: wait_loop_def proc_runs sq_def bnd_eq_Ok)
  obtain a c where a: "s4 = s3\<lparr>queue := a, qcount := c\<rparr>" "pol \<noteq> MLFQ \<Longrightarrow> a = queue s3 \<and> c = qcount s3"
  proof (cases "pol = MLFQ")
    case True
    then have "rem_process (p_pid ?x) (p_current_queue ?x) s3 = Ok () s4" using s4 by (simp add: whenb_eq)
    from rem_process_Ok[OF this] show ?thesis using that True by blast
  next
    case False
    then show ?thesis using s4 by (intro that[where a = "queue s3" and c = "qcount s3"]) (simp_all add: whenb_eq)
  qed
  let ?s5 = "s4\<lparr>ptable := (ptable s4)(p := (ptable s4 p)\<lparr>p_pid := 0, p_parent := None,
     p_name := (p_name (ptable s4 p))[0 := 0], p_killed := 0, p_state := UNUSED\<rparr>)\<rparr>"
  have "release PtableLock ?s5 = Ok () t \<and> r = p_pid ?x"
    using ok z s1 s3 s4 by (auto simp: wait_loop_def proc_runs sq_def bnd_eq_Ok)
  then have t: "t = ?s5\<lparr>held := remove1 PtableLock (held ?s5)\<rparr>" "r = p_pid ?x"
    by (auto simp: release_def split: if_splits)
  show "r = p_pid (ptable s p)" by (rule t(2))
  show "ptable t = (ptable s)(p := (ptable s p)\<lparr>p_kstack := 0, p_pid := 0, p_parent := None,
           p_name := (p_name (ptable s p))[0 := 0], p_killed := 0, p_state := UNUSED\<rparr>)"
    using t(1) a(1) f1 f3 by simp
  show "held t = remove1 PtableLock (held s)" "nextpid t = nextpid s" using t(1) a(1) f1 f3 by simp_all
  show "pol \<noteq> MLFQ \<Longrightarrow> queue t = queue s \<and> qcount t = qcount s" using t(1) a f1 f3 by simp
qed

section \<open>Process ids\<close>

text \<open>Used entries have positive ids below \<open>nextpid\<close>, all different.\<close>

definition used :: "'a pst_scheme \<Rightarrow> nat set" where
  "used s = {i. i < NPROC \<and> p_state (ptable s i) \<noteq> UNUSED}"

definition pid_inv :: "'a pst_scheme \<Rightarrow> bool" where
  "pid_inv s \<longleftrightarrow> 0 < nextpid s \<and> (\<forall>i \<in> used s. 0 < p_pid (ptable s i) \<and> p_pid (ptable s i) < nextpid s) \<and>
     inj_on (\<lambda>i. p_pid (ptable s i)) (used s)"

lemma pid_inv_keep:
  assumes "pid_inv s" "nextpid t = nextpid s"
    and "\<And>i. i \<in> used t \<Longrightarrow> i \<in> used s \<and> p_pid (ptable t i) = p_pid (ptable s i)"
  shows "pid_inv t"
  using assms unfolding pid_inv_def inj_on_def by simp

lemma pid_inv_new:
  assumes inv: "pid_inv s" and n: "nextpid t = nextpid s + 1"
    and p: "p_pid (ptable t p) = nextpid s"
    and others: "\<And>i. i \<noteq> p \<Longrightarrow> ptable t i = ptable s i"
  shows "pid_inv t"
proof -
  have u: "i \<in> used s" if "i \<in> used t" "i \<noteq> p" for i using that others by (simp add: used_def)
  show ?thesis unfolding pid_inv_def
  proof (intro conjI ballI inj_onI)
    show "0 < nextpid t" using inv n by (simp add: pid_inv_def)
    fix i
    assume i: "i \<in> used t"
    show "0 < p_pid (ptable t i)" "p_pid (ptable t i) < nextpid t"
      using inv n p others[of i] u[OF i] by (cases "i = p"; force simp: pid_inv_def)+
    fix j
    assume j: "j \<in> used t" "p_pid (ptable t i) = p_pid (ptable t j)"
    show "i = j"
    proof (cases "i = p \<or> j = p")
      case True
      then show ?thesis using inv p j others u[OF i] u[OF j(1)] by (force simp: pid_inv_def)
    next
      case False
      then show ?thesis using inv j others u[OF i] u[OF j(1)] unfolding pid_inv_def inj_on_def by metis
    qed
  qed
qed

text \<open>The operations as steps. \<open>Mark\<close> is the assignment of a state to a used entry, as \<open>fork\<close>,
  \<open>exit\<close>, \<open>yield\<close>, \<open>sleep\<close> and the scheduler do.\<close>

inductive pstep :: "policy \<Rightarrow> 'a pst_scheme \<Rightarrow> 'a pst_scheme \<Rightarrow> bool" for pol where
  Alloc: "held s = [] \<Longrightarrow> -1 \<le> qcount s 0 \<Longrightarrow> allocproc s = Ok r t \<Longrightarrow> pstep pol s t"
| Wait: "held s = [] \<Longrightarrow> wait pol s = Ok r t \<Longrightarrow> pstep pol s t"
| Kill: "held s = [] \<Longrightarrow> kill pd s = Ok r t \<Longrightarrow> pstep pol s t"
| Wakeup: "held s = [] \<Longrightarrow> wakeup ch s = Ok () t \<Longrightarrow> pstep pol s t"
| SetPriority: "held s = [] \<Longrightarrow> setPriority pr pd s = Ok r t \<Longrightarrow> pstep pol s t"
| Chpr: "held s = [] \<Longrightarrow> chpr pd pr s = Ok r t \<Longrightarrow> pstep pol s t"
| Mark: "p_state (ptable s p) \<noteq> UNUSED \<Longrightarrow> st \<noteq> UNUSED \<Longrightarrow>
    pstep pol s (s\<lparr>ptable := (ptable s)(p := (ptable s p)\<lparr>p_state := st\<rparr>)\<rparr>)"

inductive preach :: "policy \<Rightarrow> 'a pst_scheme \<Rightarrow> 'a pst_scheme \<Rightarrow> bool" for pol s where
  start: "preach pol s s"
| more: "preach pol s t \<Longrightarrow> pstep pol t u \<Longrightarrow> preach pol s u"

text \<open>The outcomes of \<open>allocproc\<close>: null with nothing changed, null with an entry left behind in the
  queue, or a new process.\<close>

lemma allocproc_cases:
  assumes h: "held s = []" and c: "-1 \<le> qcount s 0" and ok: "allocproc s = Ok r t"
  obtains (none) "r = None" "t = s"
  | (new) p where "p < NPROC" "p_state (ptable s p) = UNUSED" "p_pid (ptable t p) = nextpid s"
      "nextpid t = nextpid s + 1" "\<And>i. i \<noteq> p \<Longrightarrow> ptable t i = ptable s i"
      "p_killed (ptable t p) = p_killed (ptable s p)" "qcount t 0 = qcount s 0 + 1" "qcount s 0 < 63"
      "r = Some p \<and> p_state (ptable t p) = EMBRYO \<or> r = None \<and> p_state (ptable t p) = UNUSED"
proof (cases "find (\<lambda>i. p_state (ptable s i) = UNUSED) [0..<NPROC]")
  case None
  then show ?thesis using none allocproc_no_slot[OF h None] ok by simp
next
  case (Some p)
  note p = find_upt_Some[OF Some]
  have q: "qcount s 0 < 63" using allocproc_full_queue[OF h Some] ok by (cases "63 \<le> qcount s 0") auto
  show ?thesis
  proof (cases "freelist s = 0")
    case True
    show ?thesis
      using allocproc_no_memory[OF h Some c q True] ok p q by (intro new[of p]) auto
  next
    case False
    show ?thesis
      using allocproc_eq[OF h Some c q False] ok p q by (intro new[of p]) (auto simp: newproc_def)
  qed
qed

lemma wait_cases:
  assumes h: "held s = []" and ok: "wait pol s = Ok r t"
  obtains (none) "r = -1" "t = s"
  | (child) cur p where "curproc s = Some cur" "p < NPROC" "p_state (ptable s p) = ZOMBIE"
      "r = p_pid (ptable s p)" "p_state (ptable t p) = UNUSED" "\<And>i. i \<noteq> p \<Longrightarrow> ptable t i = ptable s i"
      "nextpid t = nextpid s" "pol \<noteq> MLFQ \<Longrightarrow> queue t = queue s \<and> qcount t = qcount s"
proof -
  obtain cur where cur: "curproc s = Some cur"
    using ok by (auto simp: wait_def myproc_deref_def myproc_eq undef_eq bnd_eq_Ok split: option.splits)
  let ?s = "s\<lparr>held := [PtableLock]\<rparr>"
  have w: "wait_loop pol cur ?s = Ok r t" using ok cur h by (simp add: wait_def proc_runs)
  show ?thesis
  proof (cases "zombie_kid cur ?s")
    case None
    have "t = ?s\<lparr>held := []\<rparr> \<and> r = -1"
      using wait_loop_none[OF None, of pol] w cur by (simp split: if_splits)
    then show ?thesis using none h by simp
  next
    case (Some p)
    show ?thesis
      using wait_loop_zombie[OF Some w] zombie_kid_Some[OF Some] cur by (intro child[of cur p]) auto
  qed
qed

lemma pid_inv_upd:
  assumes "pid_inv s" "p_pid x = p_pid (ptable s p)"
    "p_state x \<noteq> UNUSED \<Longrightarrow> p_state (ptable s p) \<noteq> UNUSED"
  shows "pid_inv (s\<lparr>ptable := (ptable s)(p := x)\<rparr>)"
proof (rule pid_inv_keep[OF assms(1)])
  fix i
  assume "i \<in> used (s\<lparr>ptable := (ptable s)(p := x)\<rparr>)"
  then show "i \<in> used s \<and> p_pid (ptable (s\<lparr>ptable := (ptable s)(p := x)\<rparr>) i) = p_pid (ptable s i)"
    using assms(2,3) by (cases "i = p") (simp_all add: used_def)
qed simp

lemma find_pid_pid_inv:
  assumes "pid_inv s" and "t = (case find (\<lambda>i. p_pid (ptable s i) = pd) [0..<NPROC] of
      None \<Rightarrow> s | Some p \<Rightarrow> s\<lparr>ptable := (ptable s)(p := f (ptable s p))\<rparr>)"
    and "\<And>x. p_pid (f x) = p_pid x" "\<And>x. p_state (f x) \<noteq> UNUSED \<Longrightarrow> p_state x \<noteq> UNUSED"
  shows "pid_inv t"
  using assms by (cases "find (\<lambda>i. p_pid (ptable s i) = pd) [0..<NPROC]") (simp_all add: pid_inv_upd)

lemma kill_pid_inv:
  assumes "pid_inv s" "held s = []" "kill pd s = Ok r t"
  shows "pid_inv t"
proof (rule find_pid_pid_inv[OF assms(1)])
  let ?f = "\<lambda>x. if p_state x = SLEEPING then x\<lparr>p_killed := 1, p_start := now s, p_state := RUNNABLE\<rparr>
     else x\<lparr>p_killed := 1\<rparr>"
  show "t = (case find (\<lambda>i. p_pid (ptable s i) = pd) [0..<NPROC] of
      None \<Rightarrow> s | Some p \<Rightarrow> s\<lparr>ptable := (ptable s)(p := ?f (ptable s p))\<rparr>)"
    using kill_eq[of s pd] assms(2,3)
    by (cases "find (\<lambda>i. p_pid (ptable s i) = pd) [0..<NPROC]") simp_all
  show "p_pid (?f x) = p_pid x" "p_state (?f x) \<noteq> UNUSED \<Longrightarrow> p_state x \<noteq> UNUSED" for x
    by (simp_all split: if_splits)
qed

lemma setPriority_pid_inv:
  assumes "pid_inv s" "held s = []" "setPriority pr pd s = Ok r t"
  shows "pid_inv t"
proof (cases "pr < 0 \<or> pr > 100")
  case True
  then show ?thesis using assms setPriority_eq[of s pr pd] by simp
next
  case False
  show ?thesis
  proof (rule find_pid_pid_inv[OF assms(1), where f = "\<lambda>x. x\<lparr>p_priority := pr\<rparr>"])
    show "t = (case find (\<lambda>i. p_pid (ptable s i) = pd) [0..<NPROC] of
        None \<Rightarrow> s | Some p \<Rightarrow> s\<lparr>ptable := (ptable s)(p := (ptable s p)\<lparr>p_priority := pr\<rparr>)\<rparr>)"
      using setPriority_eq[of s pr pd] assms(2,3) False
      by (cases "find (\<lambda>i. p_pid (ptable s i) = pd) [0..<NPROC]") simp_all
  qed simp_all
qed

lemma wakeup_pid_inv:
  assumes "pid_inv s" "held s = []" "wakeup ch s = Ok () t"
  shows "pid_inv t"
proof (rule pid_inv_keep[OF assms(1)])
  have t: "t = s\<lparr>ptable := wake_table ch (now s) (ptable s)\<rparr>" using wakeup_eq[of s ch] assms(2,3) by simp
  show "nextpid t = nextpid s" using t by simp
  show "i \<in> used s \<and> p_pid (ptable t i) = p_pid (ptable s i)" if "i \<in> used t" for i
    using that t by (simp add: used_def wake_table_def woken_def split: if_splits)
qed

lemma pstep_pid_inv: "pstep pol s t \<Longrightarrow> pid_inv s \<Longrightarrow> pid_inv t"
proof (induction rule: pstep.induct)
  case (Alloc s r t)
  from Alloc(1-3) show ?case
  proof (cases rule: allocproc_cases)
    case (new p)
    show ?thesis by (rule pid_inv_new[OF Alloc.prems new(4,3,5)])
  qed (use Alloc.prems in simp)
next
  case (Wait s r t)
  from Wait(1,2) show ?case
  proof (cases rule: wait_cases)
    case (child cur p)
    have "i \<in> used s \<and> p_pid (ptable t i) = p_pid (ptable s i)" if "i \<in> used t" for i
      using that child(5) child(6)[of i] by (cases "i = p") (simp_all add: used_def)
    then show ?thesis by (rule pid_inv_keep[OF Wait.prems child(7)])
  qed (use Wait.prems in simp)
next
  case (Chpr s pd pr r t)
  show ?case
  proof (rule find_pid_pid_inv[OF Chpr.prems, where f = "\<lambda>x. x\<lparr>p_priority := pr\<rparr>"])
    show "t = (case find (\<lambda>i. p_pid (ptable s i) = pd) [0..<NPROC] of
        None \<Rightarrow> s | Some p \<Rightarrow> s\<lparr>ptable := (ptable s)(p := (ptable s p)\<lparr>p_priority := pr\<rparr>)\<rparr>)"
      using chpr_eq[of s pd pr] Chpr.hyps by simp
  qed simp_all
next
  case (Mark s p st)
  then show ?case by (intro pid_inv_upd) simp_all
qed (auto intro: kill_pid_inv wakeup_pid_inv setPriority_pid_inv)

lemma preach_pid_inv: "preach pol s t \<Longrightarrow> pid_inv s \<Longrightarrow> pid_inv t"
  by (induction rule: preach.induct) (auto intro: pstep_pid_inv)

section \<open>Properties\<close>


text \<open>A machine just after boot, with one free page, for the examples.\<close>

definition zero_proc :: proc where
  "zero_proc = \<lparr>p_sz = 0, p_pgdir = 0, p_kstack = 0, p_state = UNUSED, p_pid = 0, p_parent = None, p_tf = 0,
     p_context = 0, p_chan = None, p_killed = 0, p_ofile = replicate 16 None, p_cwd = None,
     p_name = replicate 16 0, p_ctime = 0, p_etime = 0, p_rtime = 0, p_iotime = 0, p_num_r = 0,
     p_priority = 0, p_start = 0, p_waittime = 0, p_current_queue = 0, p_total_ticks = [0, 0, 0, 0, 0],
     p_ticks = [0, 0, 0, 0, 0]\<rparr>"

definition boot_pst :: pst where
  "boot_pst = \<lparr>held = [], console = [], cons_locking = True, pmem = (\<lambda>_. 0), use_lock = True,
     freelist = 0x80200000, kend = 0x80100000, data = 0x80108000, kpgdir = 0, cr3 = 0,
     ptable = (\<lambda>_. zero_proc), initproc = None, nextpid = 1, queue = (\<lambda>_ _. None), qcount = (\<lambda>_. -1),
     curproc = None, ticks = 7, gdt = (\<lambda>_. SEG16 0 0 0 0), ts_ss0 = 0, ts_esp0 = 0, ts_iomb = 0,
     task_reg = 0, trapret_addr = 0x80105000, forkret_addr = 0x80103000, ts_addr = 0x80112000\<rparr>"

lemma boot_pst_free: "free_list boot_pst [0x80200000]"
  by (simp add: free_list_def boot_pst_def valid_page_def layout_defs load32_def)

lemma boot_pst_slot: "find (\<lambda>i. p_state (ptable boot_pst i) = UNUSED) [0..<NPROC] = Some 0"
  by (simp add: boot_pst_def zero_proc_def NPROC_def upt_conv_Cons)


text \<open>C4. No wakeup is lost. A process that holds \<open>lk\<close> and sleeps on \<open>ch\<close> switches away \<open>SLEEPING\<close> on
  \<open>ch\<close> with \<open>lk\<close> free again; once the scheduler has let go of \<open>ptable.lock\<close>, a \<open>wakeup\<close> of \<open>ch\<close> makes
  it, and every other sleeper on \<open>ch\<close>, \<open>RUNNABLE\<close> and changes no other process; and when it is
  resumed it holds exactly \<open>lk\<close> again and is on no channel.\<close>

theorem sleep_wakeup:
  assumes cur: "curproc s = Some p" "p < NPROC" and lk: "lk \<noteq> PtableLock" "held s = [lk]"
  shows "\<exists>t. sleep ch lk s = Switches t \<and> held t = [PtableLock] \<and>
    p_state (ptable t p) = SLEEPING \<and> p_chan (ptable t p) = Some ch \<and>
    (\<exists>u. wakeup ch (t\<lparr>held := [], curproc := None\<rparr>) = Ok () u \<and>
       p_state (ptable u p) = RUNNABLE \<and>
       (\<forall>i. ptable u i = (if i < NPROC \<and> p_state (ptable t i) = SLEEPING \<and> p_chan (ptable t i) = Some ch
              then (ptable t i)\<lparr>p_state := RUNNABLE, p_start := now s\<rparr> else ptable t i)) \<and>
       (\<exists>v. sleep_resume lk (u\<lparr>held := [PtableLock], curproc := Some p\<rparr>) = Ok () v \<and> held v = [lk] \<and>
          p_chan (ptable v p) = None \<and> curproc v = Some p))"
proof -
  define t where "t = s\<lparr>held := [PtableLock],
     ptable := (ptable s)(p := (ptable s p)\<lparr>p_chan := Some ch, p_state := SLEEPING\<rparr>)\<rparr>"
  have "sleep ch lk s = Switches t"
    unfolding t_def using lk by (intro sleep_eq[OF cur(1)]) simp
  moreover define u where "u = t\<lparr>held := [], curproc := None, ptable := wake_table ch (now s) (ptable t)\<rparr>"
  have "wakeup ch (t\<lparr>held := [], curproc := None\<rparr>) = Ok () u"
    by (simp add: wakeup_eq u_def t_def now_def)
  moreover have "sleep_resume lk (u\<lparr>held := [PtableLock], curproc := Some p\<rparr>) =
      Ok () (u\<lparr>held := [lk], curproc := Some p, ptable := (ptable u)(p := (ptable u p)\<lparr>p_chan := None\<rparr>)\<rparr>)"
    by (simp add: sleep_resume_eq)
  moreover have "\<forall>i. ptable u i = (if i < NPROC \<and> p_state (ptable t i) = SLEEPING \<and> p_chan (ptable t i) = Some ch
              then (ptable t i)\<lparr>p_state := RUNNABLE, p_start := now s\<rparr> else ptable t i)"
    by (simp add: u_def wake_table_def woken_def)
  ultimately show ?thesis using cur(2) by (auto simp: t_def)
qed

theorem sleep_wakeup_witness:
  "\<exists>t. sleep ChTicks TicksLock (boot_pst\<lparr>curproc := Some 3, held := [TicksLock]\<rparr>) = Switches t \<and>
     p_state (ptable t 3) = SLEEPING"
  using sleep_wakeup[of "boot_pst\<lparr>curproc := Some 3, held := [TicksLock]\<rparr>" 3 TicksLock ChTicks]
  by (auto simp: NPROC_def)

text \<open>C32. \<open>kill\<close> marks the first table entry with the given process id and wakes it if it sleeps, and
  touches nothing else; without such an entry it returns -1 and changes nothing.\<close>

theorem kill_correct:
  assumes "PtableLock \<notin> set (held s)"
  shows "wp (kill pd) (\<lambda>r t.
      (\<exists>p<NPROC. r = 0 \<and> p_pid (ptable s p) = pd \<and> (\<forall>j<p. p_pid (ptable s j) \<noteq> pd) \<and>
        p_killed (ptable t p) = 1 \<and> p_pid (ptable t p) = pd \<and>
        p_state (ptable t p) = (if p_state (ptable s p) = SLEEPING then RUNNABLE else p_state (ptable s p)) \<and>
        (\<exists>x. t = s\<lparr>ptable := (ptable s)(p := x)\<rparr>)) \<or>
      (r = -1 \<and> t = s \<and> (\<forall>i<NPROC. p_pid (ptable s i) \<noteq> pd))) s"
proof (cases "find (\<lambda>i. p_pid (ptable s i) = pd) [0..<NPROC]")
  case None
  then have e: "kill pd s = Ok (-1) s" using kill_eq[OF assms, of pd] by simp
  show ?thesis
    unfolding wp_Ok[where f = "kill pd", OF e] using None by (simp add: find_upt_None)
next
  case (Some p)
  note p = find_upt_Some[OF Some]
  define x where "x = (if p_state (ptable s p) = SLEEPING
         then (ptable s p)\<lparr>p_killed := 1, p_start := now s, p_state := RUNNABLE\<rparr>
         else (ptable s p)\<lparr>p_killed := 1\<rparr>)"
  have e: "kill pd s = Ok 0 (s\<lparr>ptable := (ptable s)(p := x)\<rparr>)"
    using kill_eq[OF assms, of pd] Some by (simp add: x_def)
  show ?thesis
    unfolding wp_Ok[where f = "kill pd", OF e]
    by (rule disjI1, rule exI[of _ p]) (use p in \<open>auto simp: x_def\<close>)
qed

theorem kill_correct_witness:
  "wp (kill 0) (\<lambda>r t. r = 0 \<and> p_killed (ptable t 0) = 1) boot_pst"
proof -
  have h: "PtableLock \<notin> set (held boot_pst)" by (simp add: boot_pst_def)
  have z: "p_pid (ptable boot_pst i) = 0" for i by (simp add: boot_pst_def zero_proc_def)
  show ?thesis
    by (rule wp_mono[OF kill_correct[OF h, of 0]]) (auto simp: z NPROC_def dest: spec[of _ 0])
qed




lemma boot_alloc: "\<exists>t. preach DEFAULT boot_pst t \<and> p_state (ptable t 0) = EMBRYO"
proof -
  have f: "held boot_pst = []" "-1 \<le> qcount boot_pst 0" "qcount boot_pst 0 < 63" "freelist boot_pst \<noteq> 0"
    by (simp_all add: boot_pst_def)
  note e = allocproc_eq[OF f(1) boot_pst_slot f(2-4)]
  show ?thesis
    using preach.more[OF preach.start pstep.Alloc[OF f(1,2) e], of DEFAULT]
    by (intro exI conjI, assumption) (simp add: newproc_def)
qed


text \<open>C21. In every build other than MLFQ nothing is ever removed from \<open>queue0\<close>: each \<open>allocproc\<close> that
  takes an entry makes it longer by one and \<open>wait\<close> does not make it shorter, so that once 64
  processes have been created, however many of them are gone, the next \<open>allocproc\<close> with a free
  table entry writes past the end of the array.\<close>

theorem queue0_overflow:
  assumes "pol \<noteq> MLFQ" and "held s = []" and "-1 \<le> qcount s 0"
  shows "(\<forall>p t. allocproc s = Ok (Some p) t \<longrightarrow> qcount t 0 = qcount s 0 + 1) \<and>
    (\<forall>r t. wait pol s = Ok r t \<longrightarrow> qcount t 0 = qcount s 0) \<and>
    (qcount s 0 = 63 \<longrightarrow> (\<exists>i<NPROC. p_state (ptable s i) = UNUSED) \<longrightarrow>
       allocproc s = Undef ''queue index out of range'')"
proof (intro conjI allI impI)
  fix p t
  assume "allocproc s = Ok (Some p) t"
  then show "qcount t 0 = qcount s 0 + 1" by (cases rule: allocproc_cases[OF assms(2,3)]) auto
next
  fix r t
  assume "wait pol s = Ok r t"
  then show "qcount t 0 = qcount s 0"
    by (cases rule: wait_cases[OF assms(2)]) (use assms(1) in auto)
next
  assume q: "qcount s 0 = 63" and "\<exists>i<NPROC. p_state (ptable s i) = UNUSED"
  then obtain p where "find (\<lambda>i. p_state (ptable s i) = UNUSED) [0..<NPROC] = Some p"
    using find_upt_None[of "\<lambda>i. p_state (ptable s i) = UNUSED" NPROC] by fastforce
  then show "allocproc s = Undef ''queue index out of range''"
    using q by (intro allocproc_full_queue[OF assms(2)]) simp_all
qed

theorem queue0_overflow_witness:
  "allocproc (boot_pst\<lparr>qcount := (\<lambda>_. 63)\<rparr>) = Undef ''queue index out of range''"
proof -
  have "\<exists>i<NPROC. p_state (ptable (boot_pst\<lparr>qcount := (\<lambda>_. 63)\<rparr>) i) = UNUSED"
    by (intro exI[of _ 0]) (simp add: boot_pst_def zero_proc_def NPROC_def)
  then show ?thesis
    using queue0_overflow[of DEFAULT "boot_pst\<lparr>qcount := (\<lambda>_. 63)\<rparr>"] by (simp add: boot_pst_def)
qed

text \<open>C33. \<open>kill(0)\<close> succeeds on an unused table entry, whose id is 0, and the mark stays: the process
  that is later allocated in that entry starts out killed.\<close>

theorem kill_zero_poisons:
  assumes "held s = []" and "-1 \<le> qcount s 0" and "qcount s 0 < 63" and "freelist s \<noteq> 0"
    and "find (\<lambda>i. p_pid (ptable s i) = 0) [0..<NPROC] = Some p"
    and "find (\<lambda>i. p_state (ptable s i) = UNUSED) [0..<NPROC] = Some p"
  shows "\<exists>t u. kill 0 s = Ok 0 t \<and> allocproc t = Ok (Some p) u \<and> p_state (ptable u p) = EMBRYO \<and>
    p_killed (ptable u p) = 1"
proof -
  have un: "p_state (ptable s p) = UNUSED" using find_upt_Some(2)[OF assms(6)] .
  let ?t = "s\<lparr>ptable := (ptable s)(p := (ptable s p)\<lparr>p_killed := 1\<rparr>)\<rparr>"
  have k: "kill 0 s = Ok 0 ?t" using kill_eq[of s 0] assms(1,5) un by simp
  have "find (\<lambda>i. p_state (ptable ?t i) = UNUSED) [0..<NPROC] = find (\<lambda>i. p_state (ptable s i) = UNUSED) [0..<NPROC]"
    using un by (intro arg_cong[where f = "\<lambda>P. find P [0..<NPROC]"] ext) simp
  then have f: "find (\<lambda>i. p_state (ptable ?t i) = UNUSED) [0..<NPROC] = Some p" using assms(6) by simp
  have "held ?t = []" "-1 \<le> qcount ?t 0" "qcount ?t 0 < 63" "freelist ?t \<noteq> 0" using assms by simp_all
  from allocproc_eq[OF this(1) f this(2-4)] k show ?thesis by (auto simp: newproc_def)
qed

theorem kill_zero_poisons_witness:
  "\<exists>t u. kill 0 boot_pst = Ok 0 t \<and> allocproc t = Ok (Some 0) u \<and> p_killed (ptable u 0) = 1"
proof -
  have "find (\<lambda>i. p_pid (ptable boot_pst i) = 0) [0..<NPROC] = Some 0"
    by (simp add: boot_pst_def zero_proc_def NPROC_def upt_conv_Cons)
  from kill_zero_poisons[OF _ _ _ _ this boot_pst_slot] show ?thesis by (auto simp: boot_pst_def)
qed

text \<open>C34. \<open>setPriority\<close> rejects a priority outside 0 to 100 with -2 and an unknown process with -1,
  changing nothing; otherwise it returns 24 and sets the priority of the first entry with that id,
  and of no other.\<close>

theorem setPriority_correct:
  assumes "PtableLock \<notin> set (held s)"
  shows "wp (setPriority pr pd) (\<lambda>r t.
    if pr < 0 \<or> 100 < pr then r = -2 \<and> t = s
    else (r = -1 \<and> t = s \<and> (\<forall>i<NPROC. p_pid (ptable s i) \<noteq> pd)) \<or>
      (\<exists>p<NPROC. r = 24 \<and> p_pid (ptable s p) = pd \<and> (\<forall>j<p. p_pid (ptable s j) \<noteq> pd) \<and>
         t = s\<lparr>ptable := (ptable s)(p := (ptable s p)\<lparr>p_priority := pr\<rparr>)\<rparr>)) s"
proof (cases "find (\<lambda>i. p_pid (ptable s i) = pd) [0..<NPROC]")
  case None
  then have e: "setPriority pr pd s = Ok (if pr < 0 \<or> 100 < pr then -2 else -1) s"
    using setPriority_eq[OF assms, of pr pd] by simp
  show ?thesis unfolding wp_Ok[where f = "setPriority pr pd", OF e] using None by (simp add: find_upt_None)
next
  case (Some p)
  note p = find_upt_Some[OF Some]
  show ?thesis
  proof (cases "pr < 0 \<or> 100 < pr")
    case True
    then have e: "setPriority pr pd s = Ok (-2) s" using setPriority_eq[OF assms, of pr pd] by simp
    show ?thesis unfolding wp_Ok[where f = "setPriority pr pd", OF e] using True by simp
  next
    case False
    then have e: "setPriority pr pd s = Ok 24 (s\<lparr>ptable := (ptable s)(p := (ptable s p)\<lparr>p_priority := pr\<rparr>)\<rparr>)"
      using setPriority_eq[OF assms, of pr pd] Some by simp
    show ?thesis unfolding wp_Ok[where f = "setPriority pr pd", OF e] if_not_P[OF False]
      by (rule disjI2, rule exI[of _ p]) (use p in auto)
  qed
qed

theorem setPriority_correct_witness:
  "wp (setPriority 101 5) (\<lambda>r t. r = -2 \<and> t = boot_pst) boot_pst"
  by (rule wp_mono[OF setPriority_correct]) (simp_all add: boot_pst_def)

end
