(* ===== verification/Sched.thy ===== *)
theory Sched
  imports Proc
begin

text \<open>
  The scheduler (\<open>scheduler\<close> and \<open>ageing\<close> of \<open>src/proc.c\<close>), one pass of its endless loop, for the
  four policies the build selects from: round robin, first come first served, priority, and the
  multi-level feedback queues.

  What a process does between the \<open>swtch\<close> to it and its return to the scheduler is the parameter
  \<open>run\<close>: any routine of the kernel, user code included. The loops whose index a process or the
  policy can move backwards, or whose bound a process can raise by forking, take fuel; running out
  of it is \<open>Spins\<close>.
\<close>

section \<open>Switching to a process\<close>

definition set_cur :: "nat option \<Rightarrow> ('a pst_scheme, unit) kern" where
  "set_cur r = upd (\<lambda>s. s\<lparr>curproc := r\<rparr>)"

definition dispatch :: "(nat \<Rightarrow> ('a pst_scheme, unit) kern) \<Rightarrow> nat \<Rightarrow> ('a pst_scheme, unit) kern" where
  "dispatch run p = steps [set_cur (Some p),
     switchuvm (Some p),
     modp p (\<lambda>x. x\<lparr>p_state := RUNNING\<rparr>),
     modp p (\<lambda>x. x\<lparr>p_num_r := p_num_r x + 1\<rparr>),
     run p,
     switchkvm,
     set_cur None]"

section \<open>Policies that scan the process table\<close>

definition fcfs_choice :: "(nat \<Rightarrow> proc) \<Rightarrow> nat \<Rightarrow> nat" where
  "fcfs_choice tab p = foldl (\<lambda>min_process p2.
       if p_pid (tab p2) \<le> 2 then min_process
       else if p_state (tab p2) \<noteq> RUNNABLE then min_process
       else if p_ctime (tab p2) < p_ctime (tab p) then p2
       else min_process) p [0..<NPROC]"

definition priority_choice :: "(nat \<Rightarrow> proc) \<Rightarrow> nat \<Rightarrow> nat" where
  "priority_choice tab p = foldl (\<lambda>highest_priority p1.
       if p_state (tab p1) = RUNNABLE \<and> p_priority (tab highest_priority) > p_priority (tab p1)
       then p1 else highest_priority) p [0..<NPROC]"

definition choice :: "policy \<Rightarrow> (nat \<Rightarrow> proc) \<Rightarrow> nat \<Rightarrow> nat" where
  "choice pol tab p = (case pol of FCFS \<Rightarrow> fcfs_choice tab p | PRIORITY \<Rightarrow> priority_choice tab p | _ \<Rightarrow> p)"

fun table_loop ::
    "policy \<Rightarrow> (nat \<Rightarrow> ('a pst_scheme, unit) kern) \<Rightarrow> nat \<Rightarrow> nat \<Rightarrow> ('a pst_scheme, unit) kern" where
  "table_loop pol run 0 p = spins"
| "table_loop pol run (Suc k) p =
     (if p < NPROC then
        bnd (getp p) (\<lambda>x.
          if p_state x \<noteq> RUNNABLE then table_loop pol run k (Suc p)
          else bnd (rd (\<lambda>s. choice pol (ptable s) p)) (\<lambda>q.
            sq (dispatch run q) (table_loop pol run k (Suc q))))
      else ret ())"

section \<open>Multi-level feedback queues\<close>

definition clockperiod :: "int list" where "clockperiod = [1, 2, 4, 8, 16]"

text \<open>Entry \<open>i\<close> of queue \<open>q\<close>, dereferenced.\<close>

definition queue_entry :: "nat \<Rightarrow> nat \<Rightarrow> ('a pst_scheme, nat) kern" where
  "queue_entry q i = (if i \<ge> 64 then undef ''queue index out of range''
     else bnd (rd (\<lambda>s. queue s q i)) (\<lambda>r. case r of None \<Rightarrow> undef ''null queue entry'' | Some p \<Rightarrow> ret p))"

text \<open>The entry whose \<open>waittime\<close> \<open>ageing\<close> clears: \<open>queue1[0]\<close> for queue 1 and \<open>queue(k-1)[i]\<close> for the
  others.\<close>

definition age_cleared :: "nat \<Rightarrow> nat \<Rightarrow> ('a pst_scheme, nat) kern" where
  "age_cleared k i = (if k = 1 then queue_entry 1 0 else queue_entry (k - 1) i)"

text \<open>One round of the loop of \<open>ageing\<close> over queue \<open>k\<close>, 1 to 4. The comparison is unsigned, as
  \<open>ticks\<close> is.\<close>

definition age_step :: "nat \<Rightarrow> nat \<Rightarrow> ('a pst_scheme, unit) kern" where
  "age_step k i = bnd (queue_entry k i) (\<lambda>p. bnd (getp p) (\<lambda>x. bnd (rd ticks) (\<lambda>tk.
     if p_state x \<noteq> RUNNABLE then ret ()
     else if tk - word_of_int (p_start x) \<le> word_of_int (p_waittime x) then ret ()
     else
       bnd (age_cleared k i) (\<lambda>w.
       sq (modp w (\<lambda>y. y\<lparr>p_waittime := 0\<rparr>))
       (sq (modp p (\<lambda>y. y\<lparr>p_current_queue := p_current_queue y - 1\<rparr>))
       (bnd (getp p) (\<lambda>y.
        if p_current_queue y < 0 \<or> p_current_queue y \<ge> 5 then undef ''ticks index out of range''
        else sq (modp p (\<lambda>y. y\<lparr>p_ticks := (p_ticks y)[nat (p_current_queue y) := 0]\<rparr>))
            (sq (modt p (\<lambda>t y. y\<lparr>p_start := t\<rparr>))
            (sq (enqueue (k - 1) p)
            (bnd (getp p) (\<lambda>z. rem_process (p_pid z) (p_current_queue z))))))))))))"

function age_loop :: "nat \<Rightarrow> nat \<Rightarrow> ('a pst_scheme, unit) kern" where
  "age_loop k i = bnd (rd (\<lambda>s. qcount s k)) (\<lambda>c.
     if int i < c + 1 then
       (if i \<ge> 64 then undef ''queue index out of range'' else sq (age_step k i) (age_loop k (Suc i)))
     else ret ())"
  by pat_completeness auto
termination
  by (relation "measure (\<lambda>(k, i). 65 - i)") auto

declare age_loop.simps [simp del]

definition ageing :: "('a pst_scheme, unit) kern" where
  "ageing = steps [age_loop 1 0, age_loop 2 0, age_loop 3 0, age_loop 4 0]"

text \<open>\<open>j = i; while (j < c) { queue[j] = queue[j + 1]; j++; }\<close> on queue \<open>q\<close>.\<close>

definition shift_queue :: "nat \<Rightarrow> nat \<Rightarrow> ('a pst_scheme, unit) kern" where
  "shift_queue q i = upd (\<lambda>s. s\<lparr>queue := (queue s)(q := shift_down i (nat (qcount s q - int i)) (queue s q))\<rparr>)"

text \<open>What the scheduler does with a process of queue \<open>q\<close> (0 to 3) after it has run: demote it when
  its time slice is used up, drop it when it has been killed.\<close>

definition mlfq_after :: "nat \<Rightarrow> nat \<Rightarrow> nat \<Rightarrow> ('a pst_scheme, unit) kern" where
  "mlfq_after q i p = bnd (getp p) (\<lambda>x.
     whenb (p_ticks x ! q \<ge> clockperiod ! q \<or> p_killed x \<noteq> 0)
       (steps [whenb (p_killed x = 0)
                 (sq (modp p (\<lambda>y. y\<lparr>p_current_queue := p_current_queue y + 1\<rparr>)) (enqueue (Suc q) p)),
               shift_queue q i,
               modp p (\<lambda>y. y\<lparr>p_ticks := (p_ticks y)[q := 0]\<rparr>),
               upd (\<lambda>s. s\<lparr>qcount := (qcount s)(q := qcount s q - 1)\<rparr>)]))"

text \<open>In queue 4 a process goes to the end of its own queue; when it has been killed the entries
  after it move up but the count stays.\<close>

definition mlfq_after4 :: "nat \<Rightarrow> nat \<Rightarrow> ('a pst_scheme, unit) kern" where
  "mlfq_after4 i p = bnd (getp p) (\<lambda>x.
     if p_killed x \<noteq> 0 then shift_queue 4 i
     else sq (shift_queue 4 i) (bnd (rd (\<lambda>s. qcount s 4)) (\<lambda>c.
       if c < 0 \<or> c \<ge> 64 then undef ''queue index out of range''
       else upd (\<lambda>s. s\<lparr>queue := (queue s)(4 := (queue s 4)(nat c := Some p))\<rparr>))))"

fun queue_loop ::
    "(nat \<Rightarrow> ('a pst_scheme, unit) kern) \<Rightarrow> nat \<Rightarrow> nat \<Rightarrow> nat \<Rightarrow> ('a pst_scheme, unit) kern" where
  "queue_loop run 0 q i = spins"
| "queue_loop run (Suc k) q i = bnd (rd (\<lambda>s. qcount s q)) (\<lambda>c.
     if int i < c + 1 then
       bnd (queue_entry q i) (\<lambda>p. bnd (getp p) (\<lambda>x.
         if p_state x \<noteq> RUNNABLE then queue_loop run k q (Suc i)
         else sq (modt p (\<lambda>t y. y\<lparr>p_start := t\<rparr>))
             (sq (dispatch run p)
             (sq (if q = 4 then mlfq_after4 i p else mlfq_after q i p)
                 (queue_loop run k q (Suc i))))))
     else ret ())"

definition mlfq_pass :: "(nat \<Rightarrow> ('a pst_scheme, unit) kern) \<Rightarrow> nat \<Rightarrow> ('a pst_scheme, unit) kern" where
  "mlfq_pass run k = for_each [0, 1, 2, 3, 4] (\<lambda>q. bnd (rd (\<lambda>s. qcount s q)) (\<lambda>c.
     whenb (c \<noteq> -1) (queue_loop run k q 0)))"

section \<open>The scheduler\<close>

definition scheduler_pass ::
    "policy \<Rightarrow> (nat \<Rightarrow> ('a pst_scheme, unit) kern) \<Rightarrow> nat \<Rightarrow> ('a pst_scheme, unit) kern" where
  "scheduler_pass pol run k = sq (acquire PtableLock)
     (sq (if pol = MLFQ then sq ageing (mlfq_pass run k) else table_loop pol run k 0)
         (release PtableLock))"

fun scheduler ::
    "policy \<Rightarrow> (nat \<Rightarrow> ('a pst_scheme, unit) kern) \<Rightarrow> nat \<Rightarrow> nat \<Rightarrow> ('a pst_scheme, unit) kern" where
  "scheduler pol run k 0 = ret ()"
| "scheduler pol run k (Suc n) = sq (scheduler_pass pol run k) (scheduler pol run k n)"

section \<open>Choices\<close>

lemma foldl_last_filter:
  "foldl (\<lambda>m x. if P x then x else m) a xs = last (a # filter P xs)"
  by (induction xs arbitrary: a) auto

lemma fcfs_choice_eq:
  "fcfs_choice tab p = last (p # filter (\<lambda>i. p_pid (tab i) > 2 \<and> p_state (tab i) = RUNNABLE \<and>
     p_ctime (tab i) < p_ctime (tab p)) [0..<NPROC])"
proof -
  have "(\<lambda>m i. if p_pid (tab i) \<le> 2 then m else if p_state (tab i) \<noteq> RUNNABLE then m
      else if p_ctime (tab i) < p_ctime (tab p) then i else m) =
    (\<lambda>m i. if p_pid (tab i) > 2 \<and> p_state (tab i) = RUNNABLE \<and> p_ctime (tab i) < p_ctime (tab p)
      then i else m)"
    by (auto simp: fun_eq_iff)
  then show ?thesis by (simp only: fcfs_choice_def foldl_last_filter)
qed

lemma foldl_min_runnable:
  fixes pr :: "nat \<Rightarrow> int" and xs :: "nat list"
  assumes "R a"
  defines "m \<equiv> foldl (\<lambda>h x. if R x \<and> pr h > pr x then x else h) a xs"
  shows "R m \<and> m \<in> insert a (set xs) \<and> pr m \<le> pr a \<and> (\<forall>x \<in> set xs. R x \<longrightarrow> pr m \<le> pr x)"
  using assms(1) unfolding m_def
proof (induction xs arbitrary: a)
  case (Cons x xs)
  show ?case
  proof (cases "R x \<and> pr a > pr x")
    case True
    then show ?thesis using Cons.IH[of x] by auto
  next
    case False
    then show ?thesis using Cons.IH[of a] Cons.prems by (auto dest: not_le_imp_less)
  qed
qed simp

lemma priority_choice_min:
  assumes "p_state (tab p) = RUNNABLE" "p < NPROC"
  shows "priority_choice tab p < NPROC" "p_state (tab (priority_choice tab p)) = RUNNABLE"
    "i < NPROC \<Longrightarrow> p_state (tab i) = RUNNABLE \<Longrightarrow> p_priority (tab (priority_choice tab p)) \<le> p_priority (tab i)"
  using foldl_min_runnable[where R = "\<lambda>i. p_state (tab i) = RUNNABLE" and pr = "\<lambda>i. p_priority (tab i)"
      and a = p and xs = "[0..<NPROC]", OF assms(1)] assms(2)
  by (auto simp: priority_choice_def)

section \<open>Running a process\<close>

lemma set_cur_eq: "set_cur r s = Ok () (s\<lparr>curproc := r\<rparr>)"
  by (simp add: set_cur_def monad_defs)

lemma switchkvm_eq: "switchkvm s = Ok () (s\<lparr>cr3 := V2P (kpgdir s)\<rparr>)"
  by (simp add: switchkvm_def monad_defs)

text \<open>The state a process is entered in.\<close>

definition entered :: "nat \<Rightarrow> 'a pst_scheme \<Rightarrow> 'a pst_scheme" where
  "entered p s = s\<lparr>curproc := Some p, cr3 := V2P (p_pgdir (ptable s p)),
     gdt := (gdt s)(SEG_TSS := (SEG16 9 (ts_addr s) (104 - 1) 0)\<lparr>seg_s := 0\<rparr>),
     ts_ss0 := push_bit 3 2, ts_esp0 := p_kstack (ptable s p) + KSTACKSIZE, ts_iomb := 0xFFFF,
     task_reg := push_bit 3 5,
     ptable := (ptable s)(p := (ptable s p)\<lparr>p_state := RUNNING, p_num_r := p_num_r (ptable s p) + 1\<rparr>)\<rparr>"

lemma switchuvm_eq:
  assumes "p_kstack (ptable s p) \<noteq> 0" "p_pgdir (ptable s p) \<noteq> 0"
  shows "switchuvm (Some p) s = Ok () (s\<lparr>cr3 := V2P (p_pgdir (ptable s p)),
     gdt := (gdt s)(SEG_TSS := (SEG16 9 (ts_addr s) (104 - 1) 0)\<lparr>seg_s := 0\<rparr>),
     ts_ss0 := push_bit 3 2, ts_esp0 := p_kstack (ptable s p) + KSTACKSIZE, ts_iomb := 0xFFFF,
     task_reg := push_bit 3 5\<rparr>)"
  using assms by (simp add: switchuvm_def proc_runs)

lemma dispatch_eq:
  assumes "p_kstack (ptable s p) \<noteq> 0" "p_pgdir (ptable s p) \<noteq> 0"
  shows "dispatch run p s = bnd (run p) (\<lambda>_. sq switchkvm (set_cur None)) (entered p s)"
proof -
  have r: "switchuvm (Some p) (s\<lparr>curproc := Some p\<rparr>) = Ok () (s\<lparr>curproc := Some p, cr3 := V2P (p_pgdir (ptable s p)),
     gdt := (gdt s)(SEG_TSS := (SEG16 9 (ts_addr s) (104 - 1) 0)\<lparr>seg_s := 0\<rparr>),
     ts_ss0 := push_bit 3 2, ts_esp0 := p_kstack (ptable s p) + KSTACKSIZE, ts_iomb := 0xFFFF,
     task_reg := push_bit 3 5\<rparr>)"
    using switchuvm_eq[where s = "s\<lparr>curproc := Some p\<rparr>" and p = p] assms by simp
  show ?thesis
    by (simp add: dispatch_def set_cur_eq r proc_runs entered_def) (simp add: sq_def bnd_def ret_def)
qed

lemma dispatch_Ok_run:
  assumes "dispatch run p s = Ok () t"
  obtains u where "p_kstack (ptable s p) \<noteq> 0" "p_pgdir (ptable s p) \<noteq> 0" "run p (entered p s) = Ok () u"
    "t = u\<lparr>cr3 := V2P (kpgdir u), curproc := None\<rparr>"
proof -
  have nz: "p_kstack (ptable s p) \<noteq> 0 \<and> p_pgdir (ptable s p) \<noteq> 0"
    using assms by (simp add: dispatch_def set_cur_eq switchuvm_def sq_def bnd_def getp_eq panic_eq split: if_splits)
  then have d: "bnd (run p) (\<lambda>_. sq switchkvm (set_cur None)) (entered p s) = Ok () t"
    using assms dispatch_eq[where run = run] by metis
  show ?thesis
  proof (cases "run p (entered p s)")
    case (Ok a u)
    then show ?thesis using d nz that[of u] by (simp add: switchkvm_eq set_cur_eq)
  qed (use d in \<open>simp_all add: bnd_def\<close>)
qed

section \<open>Round robin\<close>

text \<open>A process that is run leaves the state of every other entry as it is.\<close>

definition leaves_others :: "(nat \<Rightarrow> ('a pst_scheme, unit) kern) \<Rightarrow> bool" where
  "leaves_others run \<longleftrightarrow> (\<forall>p t u. run p t = Ok () u \<longrightarrow> (\<forall>i. i \<noteq> p \<longrightarrow> p_state (ptable u i) = p_state (ptable t i)))"

lemma dispatch_others:
  assumes "leaves_others run" "dispatch run p s = Ok () t" "i \<noteq> p"
  shows "p_state (ptable t i) = p_state (ptable s i)"
proof -
  obtain u where u: "run p (entered p s) = Ok () u" "t = u\<lparr>cr3 := V2P (kpgdir u), curproc := None\<rparr>"
    using dispatch_Ok_run[OF assms(2)] by metis
  have "p_state (ptable u i) = p_state (ptable (entered p s) i)"
    using assms(1,3) u(1) unfolding leaves_others_def by blast
  then show ?thesis using assms(3) u(2) by (simp add: entered_def)
qed

lemma round_robin_from:
  assumes "leaves_others run" "p + n = NPROC"
  shows "table_loop DEFAULT run (Suc n) p s =
     for_each (filter (\<lambda>i. p_state (ptable s i) = RUNNABLE) [p..<NPROC]) (dispatch run) s"
  using assms(2)
proof (induction n arbitrary: p s)
  case (Suc n)
  have lt: "p < NPROC" and pn: "Suc p + n = NPROC" using Suc.prems by auto
  show ?case
  proof (cases "p_state (ptable s p) = RUNNABLE")
    case False
    then show ?thesis using lt Suc.IH[OF pn] by (simp add: upt_conv_Cons getp_eq)
  next
    case True
    have "sq (dispatch run p) (table_loop DEFAULT run (Suc n) (Suc p)) s =
      sq (dispatch run p) (for_each (filter (\<lambda>i. p_state (ptable s i) = RUNNABLE) [Suc p..<NPROC]) (dispatch run)) s"
    proof (cases "dispatch run p s")
      case (Ok a t)
      have "\<forall>i \<in> set [Suc p..<NPROC]. p_state (ptable t i) = p_state (ptable s i)"
        using dispatch_others[OF assms(1)] Ok by auto
      then have "filter (\<lambda>i. p_state (ptable t i) = RUNNABLE) [Suc p..<NPROC] =
        filter (\<lambda>i. p_state (ptable s i) = RUNNABLE) [Suc p..<NPROC]"
        by (intro filter_cong) auto
      then show ?thesis using Suc.IH[OF pn, of t] Ok by simp
    qed (simp_all add: sq_def bnd_def)
    then show ?thesis using lt True
      by (simp add: upt_conv_Cons getp_eq rd_eq choice_def del: table_loop.simps(2))
        (simp add: getp_eq rd_eq choice_def)
  qed
qed simp

section \<open>Feedback queues as lists\<close>

lemma map_shift_down:
  assumes "int i \<le> c"
  shows "map (shift_down i (nat (c - int i)) a) [0..<nat c] =
     take i (map a [0..<nat (c + 1)]) @ drop (Suc i) (map a [0..<nat (c + 1)])"
  using assms by (intro nth_equalityI) (auto simp: shift_down_eq nth_append)

lemma shift_queue_eq:
  "shift_queue q i s = Ok () (s\<lparr>queue := (queue s)(q := shift_down i (nat (qcount s q - int i)) (queue s q))\<rparr>)"
  by (simp add: shift_queue_def upd_eq)

lemma queue_wfD:
  assumes "queue_wf s q" "int i \<le> qcount s q"
  shows "queue s q i \<noteq> None"
proof -
  have "i < nat (qcount s q + 1)" using assms(2) by simp
  then have "queue s q i \<in> set (qlist s q)" by (simp add: qlist_def)
  then show ?thesis using assms(1) unfolding queue_wf_def by metis
qed

lemma queue_entry_eq:
  "i < 64 \<Longrightarrow> queue s q i = Some p \<Longrightarrow> queue_entry q i s = Ok p s"
  by (simp add: queue_entry_def rd_eq ret_eq)

text \<open>The table after \<open>ageing\<close> has picked entry \<open>p\<close>, at tick \<open>t\<close>.\<close>

definition aged_table :: "nat \<Rightarrow> nat \<Rightarrow> int \<Rightarrow> (nat \<Rightarrow> proc) \<Rightarrow> nat \<Rightarrow> proc" where
  "aged_table w p t tab = (let tab' = tab(w := (tab w)\<lparr>p_waittime := 0\<rparr>); x = tab' p; c = p_current_queue x - 1
     in tab'(p := x\<lparr>p_current_queue := c, p_ticks := (p_ticks x)[nat c := 0], p_start := t\<rparr>))"

lemma aged_table_simps [simp]:
  "p_pid (aged_table w p t tab j) = p_pid (tab j)"
  "p_current_queue (aged_table w p t tab p) = p_current_queue (tab p) - 1"
  by (simp_all add: aged_table_def Let_def)

lemma age_step_eq:
  assumes k: "1 \<le> k" "k \<le> 4" and i: "i < 64" "queue s k i = Some p" "p_state (ptable s p) = RUNNABLE"
    and late: "\<not> ticks s - word_of_int (p_start (ptable s p)) \<le> word_of_int (p_waittime (ptable s p))"
    and w: "(if k = 1 then queue s 1 0 else queue s (k - 1) i) = Some w"
    and cq: "p_current_queue (ptable s p) = int k"
    and room: "-1 \<le> qcount s (k - 1)" "qcount s (k - 1) < 63"
  shows "age_step k i s = rem_process (p_pid (ptable s p)) (int k - 1)
     (s\<lparr>ptable := aged_table w p (now s) (ptable s),
        queue := (queue s)(k - 1 := (queue s (k - 1))(nat (qcount s (k - 1) + 1) := Some p)),
        qcount := (qcount s)(k - 1 := qcount s (k - 1) + 1)\<rparr>)"
proof -
  have e: "age_cleared k i s = Ok w s"
    using w i(1) by (cases "k = 1") (simp_all add: age_cleared_def queue_entry_eq)
  have l: "(ticks s - word_of_int (p_start (ptable s p)) \<le> word_of_int (p_waittime (ptable s p))) = False"
    using late by simp
  have r: "\<not> (p_current_queue (ptable s p) - 1 < 0 \<or> p_current_queue (ptable s p) - 1 \<ge> 5)"
    using cq k by simp
  show ?thesis
    using r cq room
    by (cases "w = p") (simp_all add: age_step_def queue_entry_eq[OF i(1,2)] proc_runs i(3) l e enqueue_eq
        aged_table_def Let_def)
qed

section \<open>Properties\<close>

text \<open>A machine whose first three table entries hold processes, for the examples: \<open>demo_proc pd c pr\<close>
  is runnable, with id \<open>pd\<close>, creation time \<open>c\<close> and priority \<open>pr\<close>.\<close>

definition demo_proc :: "int \<Rightarrow> int \<Rightarrow> int \<Rightarrow> proc" where
  "demo_proc pd c pr = zero_proc\<lparr>p_state := RUNNABLE, p_pid := pd, p_ctime := c, p_priority := pr,
     p_kstack := 0x80201000, p_pgdir := 0x80202000\<rparr>"

definition demo_pst :: pst where
  "demo_pst = boot_pst\<lparr>ptable := (\<lambda>_. zero_proc)(0 := demo_proc 3 10 60, 1 := demo_proc 4 5 20, 2 := demo_proc 5 7 40)\<rparr>"

definition yielding :: "nat \<Rightarrow> (pst, unit) kern" where
  "yielding p = modp p (\<lambda>x. x\<lparr>p_state := RUNNABLE\<rparr>)"

lemma demo_runnable: "p_state (ptable demo_pst i) = RUNNABLE \<longleftrightarrow> i < 3"
  by (auto simp: demo_pst_def demo_proc_def boot_pst_def zero_proc_def)

lemma upt_NPROC_3: "[0..<NPROC] = 0 # 1 # 2 # [3..<NPROC]"
  by (simp add: NPROC_def upt_conv_Cons)

lemma yielding_others: "leaves_others yielding"
  by (auto simp: leaves_others_def yielding_def modp_eq)



text \<open>C18. Priority scheduling: whenever the table scan meets a runnable process, the process it
  switches to is a runnable one and no runnable process of the table has a smaller priority number;
  the scan goes on after that process.\<close>

theorem priority_dispatch:
  assumes "p < NPROC" and "p_state (ptable s p) = RUNNABLE"
  shows "\<exists>q<NPROC. p_state (ptable s q) = RUNNABLE \<and>
     (\<forall>i<NPROC. p_state (ptable s i) = RUNNABLE \<longrightarrow> p_priority (ptable s q) \<le> p_priority (ptable s i)) \<and>
     table_loop PRIORITY run (Suc k) p s = sq (dispatch run q) (table_loop PRIORITY run k (Suc q)) s"
  using priority_choice_min[where tab = "ptable s", OF assms(2,1)] assms
  by (intro exI[of _ "priority_choice (ptable s) p"]) (simp add: getp_eq rd_eq choice_def)

theorem priority_dispatch_witness:
  "\<exists>q<NPROC. p_priority (ptable demo_pst q) \<le> 20 \<and>
     table_loop PRIORITY yielding (Suc 9) 0 demo_pst = sq (dispatch yielding q) (table_loop PRIORITY yielding 9 (Suc q)) demo_pst"
proof -
  have "(0::nat) < NPROC" "p_state (ptable demo_pst 0) = RUNNABLE" by (simp_all add: demo_runnable NPROC_def)
  from priority_dispatch[OF this, of yielding 9] obtain q where q: "q < NPROC"
    "\<forall>i<NPROC. p_state (ptable demo_pst i) = RUNNABLE \<longrightarrow> p_priority (ptable demo_pst q) \<le> p_priority (ptable demo_pst i)"
    "table_loop PRIORITY yielding (Suc 9) 0 demo_pst = sq (dispatch yielding q) (table_loop PRIORITY yielding 9 (Suc q)) demo_pst"
    by blast
  have "p_priority (ptable demo_pst 1) = 20" by (simp add: demo_pst_def demo_proc_def)
  then have "p_priority (ptable demo_pst q) \<le> 20"
    using q(2)[rule_format, of 1] by (simp add: demo_runnable NPROC_def)
  then show ?thesis using q by blast
qed

text \<open>C22. First come first served: the scan compares every candidate with the process it started
  from, not with the best one so far. So what it switches to is the last entry of the table that was
  created before that process; when three processes created at ticks 10, 5 and 7 are runnable, the
  one created at 7 runs, although one created at 5 waits.\<close>

theorem fcfs_not_first:
  "(\<forall>tab p. choice FCFS tab p = last (p # filter (\<lambda>i. p_pid (tab i) > 2 \<and> p_state (tab i) = RUNNABLE \<and>
       p_ctime (tab i) < p_ctime (tab p)) [0..<NPROC])) \<and>
   (\<exists>tab. choice FCFS tab 0 = 2 \<and> p_state (tab 1) = RUNNABLE \<and> p_ctime (tab 1) < p_ctime (tab 2))"
proof (intro conjI allI exI[of _ "ptable demo_pst"])
  let ?t = "ptable demo_pst"
  have e: "[0..<NPROC] = [0, 1, 2] @ [3..<NPROC]" by (simp add: upt_NPROC_3)
  have z: "i \<ge> 3 \<Longrightarrow> p_state (?t i) \<noteq> RUNNABLE" for i by (simp add: demo_runnable)
  have "filter (\<lambda>i. p_pid (?t i) > 2 \<and> p_state (?t i) = RUNNABLE \<and> p_ctime (?t i) < p_ctime (?t 0)) [3..<NPROC] = []"
    using z by (auto simp: filter_empty_conv)
  then show "choice FCFS ?t 0 = 2"
    by (simp only: choice_def policy.case fcfs_choice_eq e filter_append)
      (simp add: demo_pst_def demo_proc_def)
qed (simp_all add: choice_def fcfs_choice_eq demo_pst_def demo_proc_def)

text \<open>C20. Demotion. When a process at place \<open>i\<close> of queue \<open>q\<close>, one of the first four, comes back
  alive with its time slice used up, it leaves queue \<open>q\<close>, whose other entries keep their order, and
  goes to the end of the next queue; its queue number goes up by one and its tick count for \<open>q\<close> is
  reset; the other queues stay as they are and both queues stay well formed.\<close>

theorem mlfq_demotion:
  assumes q: "q < 4" and wf: "queue_wf s q" "queue_wf s (Suc q)" and room: "qcount s (Suc q) < 63"
    and i: "int i \<le> qcount s q" "queue s q i = Some p"
    and slice: "clockperiod ! q \<le> p_ticks (ptable s p) ! q" "p_killed (ptable s p) = 0"
  shows "wp (mlfq_after q i p) (\<lambda>_ t.
     qlist t q = take i (qlist s q) @ drop (Suc i) (qlist s q) \<and>
     qlist t (Suc q) = qlist s (Suc q) @ [Some p] \<and>
     (\<forall>r. r \<noteq> q \<and> r \<noteq> Suc q \<longrightarrow> qlist t r = qlist s r) \<and> queue_wf t q \<and> queue_wf t (Suc q) \<and>
     ptable t = (ptable s)(p := (ptable s p)\<lparr>p_current_queue := p_current_queue (ptable s p) + 1,
        p_ticks := (p_ticks (ptable s p))[q := 0]\<rparr>)) s"
proof -
  have c: "-1 \<le> qcount s (Suc q)" using wf(2) by (simp add: queue_wf_def)
  define t where "t = s\<lparr>ptable := (ptable s)(p := (ptable s p)\<lparr>p_current_queue := p_current_queue (ptable s p) + 1,
       p_ticks := (p_ticks (ptable s p))[q := 0]\<rparr>),
     queue := (queue s)(Suc q := (queue s (Suc q))(nat (qcount s (Suc q) + 1) := Some p),
                        q := shift_down i (nat (qcount s q - int i)) (queue s q)),
     qcount := (qcount s)(Suc q := qcount s (Suc q) + 1, q := qcount s q - 1)\<rparr>"
  have run: "mlfq_after q i p s = Ok () t"
    using slice c room by (simp add: mlfq_after_def proc_runs enqueue_eq shift_queue_eq t_def)
  have lq: "qlist t q = take i (qlist s q) @ drop (Suc i) (qlist s q)"
    using map_shift_down[OF i(1)] by (simp add: qlist_def t_def)
  have lq1: "qlist t (Suc q) = qlist s (Suc q) @ [Some p]"
    by (rule qlist_enqueue[OF c]) (simp_all add: t_def)
  have "set (qlist t q) \<subseteq> set (qlist s q)"
    unfolding lq using set_take_subset[of i "qlist s q"] set_drop_subset[of "Suc i" "qlist s q"] by auto
  then have "queue_wf t q" using wf(1) i(1) unfolding queue_wf_def by (auto simp: t_def)
  moreover have "queue_wf t (Suc q)" using wf(2) room unfolding queue_wf_def lq1 by (auto simp: t_def)
  moreover have "\<forall>r. r \<noteq> q \<and> r \<noteq> Suc q \<longrightarrow> qlist t r = qlist s r" by (simp add: t_def qlist_def)
  ultimately show ?thesis
    unfolding wp_Ok[where f = "mlfq_after q i p", OF run] using lq lq1 by (simp add: t_def)
qed

definition mlfq_pst :: pst where
  "mlfq_pst = demo_pst\<lparr>queue := (\<lambda>_ _. None)(0 := (\<lambda>_. None)(0 := Some 0, 1 := Some 1), 1 := (\<lambda>_. None)(0 := Some 2)),
     qcount := (\<lambda>_. -1)(0 := 1, 1 := 0),
     ptable := (ptable demo_pst)(0 := (demo_proc 3 10 60)\<lparr>p_ticks := [1, 0, 0, 0, 0]\<rparr>,
       2 := (demo_proc 5 7 40)\<lparr>p_current_queue := 1, p_waittime := 5, p_start := 0\<rparr>)\<rparr>"

lemma mlfq_pst_queues:
  "queue mlfq_pst 0 0 = Some 0" "queue mlfq_pst 1 0 = Some 2" "qcount mlfq_pst 0 = 1" "qcount mlfq_pst 1 = 0"
  "qlist mlfq_pst 0 = [Some 0, Some 1]" "qlist mlfq_pst 1 = [Some 2]"
  by (simp_all add: mlfq_pst_def demo_pst_def qlist_def upt_rec)

theorem mlfq_demotion_witness:
  "wp (mlfq_after 0 0 0) (\<lambda>_ t. qlist t 0 = [Some 1] \<and> qlist t 1 = [Some 2, Some 0]) mlfq_pst"
proof -
  have "clockperiod ! 0 \<le> p_ticks (ptable mlfq_pst 0) ! 0" "p_killed (ptable mlfq_pst 0) = 0"
    by (simp_all add: clockperiod_def mlfq_pst_def demo_proc_def zero_proc_def)
  then show ?thesis
    by (intro wp_mono[OF mlfq_demotion[of 0 mlfq_pst 0 0]]) (simp_all add: queue_wf_def mlfq_pst_queues[simplified])
qed



end
