(* ===== verification/Sleeplock.thy ===== *)
theory Sleeplock
  imports Proc
begin

text \<open>
  Sleep locks (\<open>src/sleeplock.c\<close>): locks a process may hold while it sleeps. A sleep lock is a flag
  and an owner, guarded by a spin lock; a process that finds it taken sleeps on it. The buffers of the
  block cache and the cached inodes each contain one.

  As with every routine that sleeps, \<open>acquiresleep_loop\<close> is one round of the loop: what a sleeper does
  when it is resumed is \<open>sleep_resume\<close> followed by the same loop.
\<close>

datatype slid = BufSL nat | InodeSL nat

fun sl_lk :: "slid \<Rightarrow> lockid" where
  "sl_lk (BufSL i) = BufLk i"
| "sl_lk (InodeSL i) = InodeLk i"

fun sl_chan :: "slid \<Rightarrow> chan" where
  "sl_chan (BufSL i) = ChBufLock i"
| "sl_chan (InodeSL i) = ChInodeLock i"

record sleeplock =
  sl_locked :: bool
  sl_pid :: int

record slst = pst +
  slocks :: "slid \<Rightarrow> sleeplock"

definition initsleeplock :: "slid \<Rightarrow> ('a slst_scheme, unit) kern" where
  "initsleeplock l = upd (\<lambda>s. s\<lparr>slocks := (slocks s)(l := \<lparr>sl_locked = False, sl_pid = 0\<rparr>)\<rparr>)"

definition acquiresleep_loop :: "slid \<Rightarrow> ('a slst_scheme, unit) kern" where
  "acquiresleep_loop l = bnd (rd (\<lambda>s. sl_locked (slocks s l))) (\<lambda>b.
     if b then sleep (sl_chan l) (sl_lk l)
     else bnd myproc_deref (\<lambda>p. bnd (getp p) (\<lambda>x.
       sq (upd (\<lambda>s. s\<lparr>slocks := (slocks s)(l := \<lparr>sl_locked = True, sl_pid = p_pid x\<rparr>)\<rparr>))
          (release (sl_lk l)))))"

definition acquiresleep :: "slid \<Rightarrow> ('a slst_scheme, unit) kern" where
  "acquiresleep l = sq (acquire (sl_lk l)) (acquiresleep_loop l)"

definition releasesleep :: "slid \<Rightarrow> ('a slst_scheme, unit) kern" where
  "releasesleep l = steps [acquire (sl_lk l),
     upd (\<lambda>s. s\<lparr>slocks := (slocks s)(l := \<lparr>sl_locked = False, sl_pid = 0\<rparr>)\<rparr>),
     wakeup (sl_chan l),
     release (sl_lk l)]"

definition holdingsleep :: "slid \<Rightarrow> ('a slst_scheme, bool) kern" where
  "holdingsleep l = sq (acquire (sl_lk l))
     (bnd (rd (\<lambda>s. slocks s l)) (\<lambda>k.
        bnd (if sl_locked k then bnd myproc_deref (\<lambda>p. bnd (getp p) (\<lambda>x. ret (sl_pid k = p_pid x)))
             else ret False)
          (\<lambda>r. sq (release (sl_lk l)) (ret r))))"

section \<open>Exact behaviour\<close>

lemma sl_lk_neq [simp]: "sl_lk l \<noteq> PtableLock" "PtableLock \<noteq> sl_lk l"
  by (cases l; simp)+

lemma now_slocks [simp]: "now (s\<lparr>slocks := f\<rparr>) = now s"
  by (simp add: now_def)

lemma sl_lk_inj [simp]: "sl_lk l = sl_lk k \<longleftrightarrow> l = k"
  by (cases l; cases k) simp_all

lemma acquiresleep_free:
  assumes "held s = []" "curproc s = Some p" "\<not> sl_locked (slocks s l)"
  shows "acquiresleep l s = Ok () (s\<lparr>slocks := (slocks s)(l := \<lparr>sl_locked = True, sl_pid = p_pid (ptable s p)\<rparr>)\<rparr>)"
  using assms by (simp add: acquiresleep_def acquiresleep_loop_def proc_runs)

lemma acquiresleep_taken:
  assumes "held s = []" "curproc s = Some p" "sl_locked (slocks s l)"
  shows "acquiresleep l s = Switches (s\<lparr>held := [PtableLock],
     ptable := (ptable s)(p := (ptable s p)\<lparr>p_chan := Some (sl_chan l), p_state := SLEEPING\<rparr>)\<rparr>)"
  using assms by (simp add: acquiresleep_def acquiresleep_loop_def proc_runs sleep_eq)

lemma releasesleep_eq:
  assumes "held s = []"
  shows "releasesleep l s = Ok () (s\<lparr>slocks := (slocks s)(l := \<lparr>sl_locked = False, sl_pid = 0\<rparr>),
     ptable := wake_table (sl_chan l) (now s) (ptable s)\<rparr>)"
  using assms by (simp add: releasesleep_def proc_runs wakeup_eq)

lemma holdingsleep_eq:
  assumes "held s = []" "curproc s = Some p"
  shows "holdingsleep l s = Ok (sl_locked (slocks s l) \<and> sl_pid (slocks s l) = p_pid (ptable s p)) s"
  using assms by (simp add: holdingsleep_def proc_runs)

lemmas sl_runs = proc_runs acquiresleep_free releasesleep_eq holdingsleep_eq

section \<open>Handing a lock over\<close>

lemma wake_table_sleeper:
  assumes "p < NPROC" "p_state (tab p) = SLEEPING" "p_chan (tab p) = Some ch"
  shows "p_state (wake_table ch t tab p) = RUNNABLE"
  using assms by (simp add: wake_table_def woken_def)


definition sleep_pst :: slst where
  "sleep_pst = pst.extend (boot_pst\<lparr>curproc := Some 0\<rparr>)
     \<lparr>slocks = (\<lambda>_. \<lparr>sl_locked = True, sl_pid = 9\<rparr>)\<rparr>"


end
