(* ===== verification/Bio.thy ===== *)
theory Bio
  imports Sleeplock
begin

text \<open>
  The block cache (\<open>src/bio.c\<close>) over the memory disk (\<open>src/memide.c\<close>, the driver of the
  \<open>kernelmemfs\<close> build, which answers at once). Buffers are linked into a ring through \<open>prev\<close> and
  \<open>next\<close>, most recently used first; the pointers are modelled as they are, with buffer number \<open>NBUF\<close>
  for the list head \<open>bcache.head\<close>.

  The lemmas show that the pointers always represent a list. Besides the disk itself the state records
  the block writes done so far, in order, which is what a crash can interrupt.
\<close>

definition NBUF :: nat where "NBUF = 30"
definition BSIZE :: nat where "BSIZE = 512"
definition B_VALID :: u32 where "B_VALID = 2"
definition B_DIRTY :: u32 where "B_DIRTY = 4"

record buf =
  b_flags :: u32
  b_dev :: u32
  b_blockno :: u32
  b_refcnt :: u32
  b_prev :: nat
  b_next :: nat
  b_data :: "u8 list"

record bst = slst +
  bufs :: "nat \<Rightarrow> buf"
  memdisk :: "nat \<Rightarrow> u8 list"
  disksize :: u32
  dwrites :: "(nat \<times> u8 list) list"

unbundle bit_operations_syntax

definition modb :: "nat \<Rightarrow> (buf \<Rightarrow> buf) \<Rightarrow> ('a bst_scheme, unit) kern" where
  "modb i f = upd (\<lambda>s. s\<lparr>bufs := (bufs s)(i := f (bufs s i))\<rparr>)"

definition getb :: "nat \<Rightarrow> ('a bst_scheme, buf) kern" where
  "getb i = rd (\<lambda>s. bufs s i)"

section \<open>The memory disk\<close>

definition ideinit :: "(nat \<Rightarrow> u8 list) \<Rightarrow> u32 \<Rightarrow> ('a bst_scheme, unit) kern" where
  "ideinit img sz = upd (\<lambda>s. s\<lparr>memdisk := img, disksize := sz div of_nat BSIZE\<rparr>)"

definition disk_write :: "nat \<Rightarrow> u8 list \<Rightarrow> ('a bst_scheme, unit) kern" where
  "disk_write n d = upd (\<lambda>s. s\<lparr>memdisk := (memdisk s)(n := d), dwrites := dwrites s @ [(n, d)]\<rparr>)"

definition iderw :: "nat \<Rightarrow> ('a bst_scheme, unit) kern" where
  "iderw b = bnd (holdingsleep (BufSL b)) (\<lambda>h. bnd (getb b) (\<lambda>x. bnd (rd disksize) (\<lambda>sz.
     if \<not> h then panic ''iderw: buf not locked''
     else if b_flags x AND (B_VALID OR B_DIRTY) = B_VALID then panic ''iderw: nothing to do''
     else if b_dev x \<noteq> 1 then panic ''iderw: request not for disk 1''
     else if b_blockno x \<ge> sz then panic ''iderw: block out of range''
     else
       let n = unat (b_blockno x) in
       sq (if b_flags x AND B_DIRTY \<noteq> 0
           then sq (modb b (\<lambda>y. y\<lparr>b_flags := b_flags y AND NOT B_DIRTY\<rparr>)) (disk_write n (b_data x))
           else bnd (rd (\<lambda>s. memdisk s n)) (\<lambda>d. modb b (\<lambda>y. y\<lparr>b_data := d\<rparr>)))
          (modb b (\<lambda>y. y\<lparr>b_flags := b_flags y OR B_VALID\<rparr>)))))"

section \<open>The cache\<close>

definition head_next :: "('a bst_scheme, nat) kern" where
  "head_next = rd (\<lambda>s. b_next (bufs s NBUF))"

text \<open>\<open>binit\<close> leaves the other fields of the buffers as they are (the array starts zeroed).\<close>

definition binit_one :: "nat \<Rightarrow> ('a bst_scheme, unit) kern" where
  "binit_one b = steps [
     bnd head_next (\<lambda>n. modb b (\<lambda>x. x\<lparr>b_next := n\<rparr>)),
     modb b (\<lambda>x. x\<lparr>b_prev := NBUF\<rparr>),
     initsleeplock (BufSL b),
     bnd head_next (\<lambda>n. modb n (\<lambda>x. x\<lparr>b_prev := b\<rparr>)),
     modb NBUF (\<lambda>x. x\<lparr>b_next := b\<rparr>)]"

definition binit :: "('a bst_scheme, unit) kern" where
  "binit = sq (modb NBUF (\<lambda>x. x\<lparr>b_prev := NBUF, b_next := NBUF\<rparr>)) (for_each [0..<NBUF] binit_one)"

text \<open>A walk along \<open>next\<close> or \<open>prev\<close> to the first buffer with the property, until the head is met.
  Its fuel covers a walk over every buffer.\<close>

fun walk :: "(buf \<Rightarrow> nat) \<Rightarrow> (buf \<Rightarrow> bool) \<Rightarrow> nat \<Rightarrow> nat \<Rightarrow> ('a bst_scheme, nat option) kern" where
  "walk step P 0 b = spins"
| "walk step P (Suc k) b = (if b = NBUF then ret None
     else bnd (getb b) (\<lambda>x. if P x then ret (Some b) else walk step P k (step x)))"

definition bget :: "u32 \<Rightarrow> u32 \<Rightarrow> ('a bst_scheme, nat) kern" where
  "bget dev blockno = sq (acquire BcacheLock) (bnd head_next (\<lambda>n.
     bnd (walk b_next (\<lambda>x. b_dev x = dev \<and> b_blockno x = blockno) (Suc NBUF) n) (\<lambda>r. case r of
       Some b \<Rightarrow> sq (modb b (\<lambda>x. x\<lparr>b_refcnt := b_refcnt x + 1\<rparr>))
         (sq (release BcacheLock) (sq (acquiresleep (BufSL b)) (ret b)))
     | None \<Rightarrow> bnd (rd (\<lambda>s. b_prev (bufs s NBUF))) (\<lambda>n.
         bnd (walk b_prev (\<lambda>x. b_refcnt x = 0 \<and> b_flags x AND B_DIRTY = 0) (Suc NBUF) n) (\<lambda>r. case r of
           Some b \<Rightarrow> sq (modb b (\<lambda>x. x\<lparr>b_dev := dev, b_blockno := blockno, b_flags := 0, b_refcnt := 1\<rparr>))
             (sq (release BcacheLock) (sq (acquiresleep (BufSL b)) (ret b)))
         | None \<Rightarrow> panic ''bget: no buffers'')))))"

definition bread :: "u32 \<Rightarrow> u32 \<Rightarrow> ('a bst_scheme, nat) kern" where
  "bread dev blockno = bnd (bget dev blockno) (\<lambda>b. bnd (getb b) (\<lambda>x.
     sq (whenb (b_flags x AND B_VALID = 0) (iderw b)) (ret b)))"

definition bwrite :: "nat \<Rightarrow> ('a bst_scheme, unit) kern" where
  "bwrite b = bnd (holdingsleep (BufSL b)) (\<lambda>h.
     if \<not> h then panic ''bwrite''
     else sq (modb b (\<lambda>x. x\<lparr>b_flags := b_flags x OR B_DIRTY\<rparr>)) (iderw b))"

text \<open>The pointer updates of \<open>brelse\<close> that move a buffer to the front.\<close>

definition to_front :: "nat \<Rightarrow> ('a bst_scheme, unit) kern" where
  "to_front b = steps [
     bnd (getb b) (\<lambda>x. modb (b_next x) (\<lambda>y. y\<lparr>b_prev := b_prev x\<rparr>)),
     bnd (getb b) (\<lambda>x. modb (b_prev x) (\<lambda>y. y\<lparr>b_next := b_next x\<rparr>)),
     bnd head_next (\<lambda>n. modb b (\<lambda>x. x\<lparr>b_next := n\<rparr>)),
     modb b (\<lambda>x. x\<lparr>b_prev := NBUF\<rparr>),
     bnd head_next (\<lambda>n. modb n (\<lambda>x. x\<lparr>b_prev := b\<rparr>)),
     modb NBUF (\<lambda>x. x\<lparr>b_next := b\<rparr>)]"

definition brelse :: "nat \<Rightarrow> ('a bst_scheme, unit) kern" where
  "brelse b = bnd (holdingsleep (BufSL b)) (\<lambda>h.
     if \<not> h then panic ''brelse''
     else steps [releasesleep (BufSL b),
       acquire BcacheLock,
       modb b (\<lambda>x. x\<lparr>b_refcnt := b_refcnt x - 1\<rparr>),
       bnd (getb b) (\<lambda>x. whenb (b_refcnt x = 0) (to_front b)),
       release BcacheLock])"

section \<open>The ring as a list\<close>

fun chain :: "(nat \<Rightarrow> nat) \<Rightarrow> nat \<Rightarrow> nat list \<Rightarrow> nat \<Rightarrow> bool" where
  "chain f a [] z \<longleftrightarrow> f a = z"
| "chain f a (x # xs) z \<longleftrightarrow> f a = x \<and> chain f x xs z"

lemma chain_append: "chain f a (xs @ y # ys) z \<longleftrightarrow> chain f a xs y \<and> chain f y ys z"
  by (induction xs arbitrary: a) auto

lemma ring_chain_cong: "\<forall>x \<in> set (a # xs). f x = g x \<Longrightarrow> chain f a xs z = chain g a xs z"
  by (induction xs arbitrary: a) auto

lemma chain_upd_last: "chain f a xs y \<Longrightarrow> distinct (a # xs) \<Longrightarrow> chain (f(last (a # xs) := w)) a xs w"
proof (induction xs arbitrary: a)
  case (Cons x xs)
  have "last (x # xs) \<in> set (x # xs)" by (rule last_in_set) simp
  then have "last (x # xs) \<noteq> a" using Cons.prems(2) by auto
  then show ?case using Cons by auto
qed simp

lemma chain_last: "chain f a xs z \<Longrightarrow> f (last (a # xs)) = z"
  by (induction xs arbitrary: a) auto

lemma chain_first: "chain f a xs z \<Longrightarrow> f a = hd (xs @ [z])"
  by (cases xs) auto

lemma chain_unlink:
  assumes c: "chain f a (ys @ b # zs) z" and d: "distinct (a # ys @ b # zs)"
  shows "chain (f(last (a # ys) := f b)) a (ys @ zs) z"
proof -
  have ab: "chain f a ys b" and bz: "chain f b zs z" using c by (simp_all add: chain_append)
  have l: "last (a # ys) \<in> set (a # ys)" by (rule last_in_set) simp
  show ?thesis
  proof (cases zs)
    case Nil
    then show ?thesis using chain_upd_last[OF ab, of z] bz d by simp
  next
    case (Cons c cs)
    have "chain (f(last (a # ys) := f b)) c cs z = chain f c cs z"
      using l d Cons by (intro ring_chain_cong) auto
    then show ?thesis using chain_upd_last[OF ab, of c] bz d Cons by (simp add: chain_append)
  qed
qed

lemma chain_push_front:
  assumes "chain f a ws z" "distinct (a # ws)" "b \<notin> set (a # ws)"
  shows "chain (f(b := f a, a := b)) a (b # ws) z"
proof (cases ws)
  case (Cons c cs)
  have "chain (f(b := f a, a := b)) c cs z = chain f c cs z"
    using assms Cons by (intro ring_chain_cong) auto
  then show ?thesis using assms Cons by auto
qed (use assms in auto)

lemma chain_push_back:
  assumes "chain f a ws z" "distinct (a # ws)" "b \<notin> set (a # ws)"
  shows "chain (f(b := z, last (a # ws) := b)) a (ws @ [b]) z"
proof -
  have l: "last (a # ws) \<in> set (a # ws)" by (rule last_in_set) simp
  have "chain (f(b := z)) a ws z" using assms ring_chain_cong[of a ws "f(b := z)" f z] by auto
  from chain_upd_last[OF this assms(2), of b]
  have "chain (f(b := z, last (a # ws) := b)) a ws b" .
  moreover have "(f(b := z, last (a # ws) := b)) b = z" using l assms(3) by auto
  ultimately show ?thesis by (simp only: chain_append chain.simps)
qed

definition ring :: "(nat \<Rightarrow> buf) \<Rightarrow> nat list \<Rightarrow> bool" where
  "ring B xs \<longleftrightarrow> distinct (NBUF # xs) \<and> chain (\<lambda>i. b_next (B i)) NBUF xs NBUF \<and>
     chain (\<lambda>i. b_prev (B i)) NBUF (rev xs) NBUF"

lemma ring_links:
  assumes "ring B (ys @ b # zs)"
  shows "b_next (B b) = hd (zs @ [NBUF])" "b_prev (B b) = last (NBUF # ys)"
proof -
  have "chain (\<lambda>i. b_next (B i)) b zs NBUF" "chain (\<lambda>i. b_prev (B i)) b (rev ys) NBUF"
    using assms by (simp_all add: ring_def chain_append)
  then show "b_next (B b) = hd (zs @ [NBUF])" "b_prev (B b) = last (NBUF # ys)"
    using chain_first[of "\<lambda>i. b_next (B i)" b zs NBUF] chain_first[of "\<lambda>i. b_prev (B i)" b "rev ys" NBUF]
    by (auto simp: hd_append last_rev hd_rev)
qed

lemma ring_head: "ring B xs \<Longrightarrow> b_next (B NBUF) = hd (xs @ [NBUF])" "ring B xs \<Longrightarrow> b_prev (B NBUF) = last (NBUF # xs)"
  using chain_first[of "\<lambda>i. b_next (B i)" NBUF xs NBUF] chain_first[of "\<lambda>i. b_prev (B i)" NBUF "rev xs" NBUF]
  by (auto simp: ring_def hd_append hd_rev)

text \<open>The walks meet the buffers in list order, and never run out of fuel.\<close>

lemma walk_chain:
  assumes "chain (\<lambda>i. step (bufs s i)) b xs NBUF" "NBUF \<notin> set (b # xs)" "length xs + 1 < k"
  shows "walk step P k b s = Ok (find (\<lambda>i. P (bufs s i)) (b # xs)) s"
  using assms
proof (induction xs arbitrary: b k)
  case Nil
  then obtain k' where "k = Suc (Suc k')" by (metis add_0 less_imp_Suc_add list.size(3) plus_1_eq_Suc add_Suc)
  then show ?case using Nil by (simp add: getb_def rd_eq ret_eq)
next
  case (Cons x xs)
  then obtain k' where k: "k = Suc k'" by (cases k) auto
  have "walk step P k' x s = Ok (find (\<lambda>i. P (bufs s i)) (x # xs)) s"
    using Cons.prems k by (intro Cons.IH) auto
  then show ?case using Cons.prems k by (simp add: getb_def rd_eq ret_eq)
qed

lemma walk_head:
  assumes "chain (\<lambda>i. step (bufs s i)) NBUF xs NBUF" "NBUF \<notin> set xs" "length xs \<le> NBUF"
  shows "walk step P (Suc NBUF) (step (bufs s NBUF)) s = Ok (find (\<lambda>i. P (bufs s i)) xs) s"
proof (cases xs)
  case (Cons x ys)
  then show ?thesis using assms walk_chain[of step s x ys "Suc NBUF" P] by simp
qed (use assms in \<open>simp add: ret_eq\<close>)

lemma walk_ring:
  assumes "ring (bufs s) xs" "length xs \<le> NBUF"
  shows "walk b_next P (Suc NBUF) (b_next (bufs s NBUF)) s = Ok (find (\<lambda>i. P (bufs s i)) xs) s"
    and "walk b_prev P (Suc NBUF) (b_prev (bufs s NBUF)) s = Ok (find (\<lambda>i. P (bufs s i)) (rev xs)) s"
  using assms walk_head[of b_next s xs P] walk_head[of b_prev s "rev xs" P] by (simp_all add: ring_def)

section \<open>Moving to the front\<close>

lemma modb_eq: "modb i f s = Ok () (s\<lparr>bufs := (bufs s)(i := f (bufs s i))\<rparr>)"
  by (simp add: modb_def upd_eq)

lemma getb_eq: "getb i s = Ok (bufs s i) s"
  by (simp add: getb_def rd_eq)

lemma head_next_eq: "head_next s = Ok (b_next (bufs s NBUF)) s"
  by (simp add: head_next_def rd_eq)

lemmas buf_runs = sl_runs modb_eq getb_eq head_next_eq

definition unlinked :: "nat \<Rightarrow> (nat \<Rightarrow> buf) \<Rightarrow> nat \<Rightarrow> buf" where
  "unlinked b B = (let n = b_next (B b); p = b_prev (B b); B' = B(n := (B n)\<lparr>b_prev := p\<rparr>)
     in B'(p := (B' p)\<lparr>b_next := n\<rparr>))"

definition pushed :: "nat \<Rightarrow> (nat \<Rightarrow> buf) \<Rightarrow> nat \<Rightarrow> buf" where
  "pushed b B = (let n = b_next (B NBUF); B' = B(b := (B b)\<lparr>b_next := n, b_prev := NBUF\<rparr>);
       B'' = B'(n := (B' n)\<lparr>b_prev := b\<rparr>) in B''(NBUF := (B'' NBUF)\<lparr>b_next := b\<rparr>))"

lemma to_front_eq:
  assumes "b_next (bufs s b) \<noteq> b" "b_prev (bufs s b) \<noteq> b" "b \<noteq> NBUF"
  shows "to_front b s = Ok () (s\<lparr>bufs := pushed b (unlinked b (bufs s))\<rparr>)"
proof -
  let ?B = "unlinked b (bufs s)"
  have "to_front b s = sq (bnd head_next (\<lambda>n. modb b (\<lambda>x. x\<lparr>b_next := n\<rparr>)))
      (sq (modb b (\<lambda>x. x\<lparr>b_prev := NBUF\<rparr>)) (sq (bnd head_next (\<lambda>n. modb n (\<lambda>x. x\<lparr>b_prev := b\<rparr>)))
      (sq (modb NBUF (\<lambda>x. x\<lparr>b_next := b\<rparr>)) (ret ())))) (s\<lparr>bufs := ?B\<rparr>)"
    using assms by (simp add: to_front_def buf_runs unlinked_def Let_def)
  also have "\<dots> = Ok () (s\<lparr>bufs := pushed b ?B\<rparr>)"
    using assms(3) by (simp add: buf_runs pushed_def Let_def)
  finally show ?thesis .
qed

lemma links_fun:
  "(\<lambda>i. b_next (unlinked b B i)) = (\<lambda>i. b_next (B i))(b_prev (B b) := b_next (B b))"
  "(\<lambda>i. b_prev (unlinked b B i)) = (\<lambda>i. b_prev (B i))(b_next (B b) := b_prev (B b))"
  "b \<noteq> NBUF \<Longrightarrow> (\<lambda>i. b_next (pushed b B i)) = (\<lambda>i. b_next (B i))(b := b_next (B NBUF), NBUF := b)"
  "b \<noteq> NBUF \<Longrightarrow> (\<lambda>i. b_prev (pushed b B i)) = (\<lambda>i. b_prev (B i))(b := NBUF, b_next (B NBUF) := b)"
  by (auto simp: fun_eq_iff unlinked_def pushed_def Let_def)

lemma ring_unlinked:
  assumes "ring B (ys @ b # zs)"
  shows "ring (unlinked b B) (ys @ zs)"
proof -
  have d: "distinct (NBUF # ys @ b # zs)" and n: "chain (\<lambda>i. b_next (B i)) NBUF (ys @ b # zs) NBUF"
    and p: "chain (\<lambda>i. b_prev (B i)) NBUF (rev zs @ b # rev ys) NBUF" using assms by (simp_all add: ring_def)
  have "last (NBUF # rev zs) = hd (zs @ [NBUF])" by (cases zs) auto
  moreover have "distinct (NBUF # rev zs @ b # rev ys)" using d by auto
  ultimately show ?thesis
    using chain_unlink[OF n d] chain_unlink[OF p] d ring_links[OF assms]
    unfolding ring_def links_fun by auto
qed

lemma ring_pushed:
  assumes "ring B ws" "b \<notin> set (NBUF # ws)"
  shows "ring (pushed b B) (b # ws)"
proof -
  have d: "distinct (NBUF # ws)" and n: "chain (\<lambda>i. b_next (B i)) NBUF ws NBUF"
    and p: "chain (\<lambda>i. b_prev (B i)) NBUF (rev ws) NBUF" using assms(1) by (simp_all add: ring_def)
  have "last (NBUF # rev ws) = b_next (B NBUF)" unfolding ring_head(1)[OF assms(1)] by (cases ws) auto
  moreover have "distinct (NBUF # rev ws)" "b \<notin> set (NBUF # rev ws)" using d assms(2) by auto
  ultimately have "chain ((\<lambda>i. b_prev (B i))(b := NBUF, b_next (B NBUF) := b)) NBUF (rev ws @ [b]) NBUF"
    using chain_push_back[OF p] by metis
  moreover have "b \<noteq> NBUF" using assms(2) by auto
  ultimately show ?thesis
    using chain_push_front[OF n d assms(2)] assms(2) d unfolding ring_def by (simp add: links_fun)
qed

text \<open>Apart from the links nothing changes.\<close>

definition payload :: "buf \<Rightarrow> u32 \<times> u32 \<times> u32 \<times> u32 \<times> u8 list" where
  "payload x = (b_flags x, b_dev x, b_blockno x, b_refcnt x, b_data x)"

lemma payload_links [simp]: "payload (unlinked b B i) = payload (B i)" "payload (pushed b B i) = payload (B i)"
  by (auto simp: payload_def unlinked_def pushed_def Let_def)

lemma to_front_ring:
  assumes r: "ring (bufs s) xs" and b: "b \<in> set xs"
  shows "\<exists>B. to_front b s = Ok () (s\<lparr>bufs := B\<rparr>) \<and> ring B (b # remove1 b xs) \<and> (\<forall>i. payload (B i) = payload (bufs s i))"
proof -
  obtain ys zs where xs: "xs = ys @ b # zs" "b \<notin> set ys" using b by (meson split_list_first)
  have d: "distinct (NBUF # ys @ b # zs)" using r xs by (simp add: ring_def)
  note r' = r[unfolded xs(1)]
  have "hd (zs @ [NBUF]) \<in> set zs \<union> {NBUF}" by (cases zs) auto
  moreover have "last (NBUF # ys) \<in> set (NBUF # ys)" by (rule last_in_set) simp
  ultimately have "b_next (bufs s b) \<noteq> b" "b_prev (bufs s b) \<noteq> b" "b \<noteq> NBUF"
    using d unfolding ring_links[OF r'] by auto
  note e = to_front_eq[OF this]
  have "ring (pushed b (unlinked b (bufs s))) (b # (ys @ zs))"
    using d by (intro ring_pushed ring_unlinked r') auto
  moreover have "remove1 b xs = ys @ zs" using xs by (simp add: remove1_append)
  ultimately show ?thesis unfolding e by (intro exI[of _ "pushed b (unlinked b (bufs s))"]) simp
qed

end
