(* ===== verification/Cache.thy ===== *)
theory Cache
  imports Bio
begin

text \<open>
  What the block cache promises its clients: \<open>bread\<close>, \<open>bwrite\<close> and \<open>brelse\<close> of \<open>src/bio.c\<close> in terms of
  the contents of each block as seen through the cache, and of the contents of the disk.
\<close>

unbundle bit_operations_syntax

section \<open>Flags\<close>

definition valid :: "buf \<Rightarrow> bool" where "valid x \<longleftrightarrow> b_flags x AND B_VALID \<noteq> 0"
definition dirty :: "buf \<Rightarrow> bool" where "dirty x \<longleftrightarrow> b_flags x AND B_DIRTY \<noteq> 0"

lemma flag_consts: "bit B_VALID n \<longleftrightarrow> n = 1" "bit B_DIRTY n \<longleftrightarrow> n = 2"
proof -
  have v: "B_VALID = 2 ^ 1" and d: "B_DIRTY = 2 ^ 2" by (simp_all add: B_VALID_def B_DIRTY_def)
  show "bit B_VALID n \<longleftrightarrow> n = 1" unfolding v bit_exp_iff by (auto simp: possible_bit_word)
  show "bit B_DIRTY n \<longleftrightarrow> n = 2" unfolding d bit_exp_iff by (auto simp: possible_bit_word)
qed

lemma word_bits_eq: "(x :: u32) = y \<longleftrightarrow> (\<forall>n<32. bit x n = bit y n)"
  by (auto intro: bit_word_eqI)

lemma flag_bits: "f AND B_VALID \<noteq> 0 \<longleftrightarrow> bit f 1" "f AND B_DIRTY \<noteq> 0 \<longleftrightarrow> bit f 2"
  by (auto simp add: word_bits_eq bit_and_iff flag_consts)

lemma valid_bit: "valid x \<longleftrightarrow> bit (b_flags x) 1" and dirty_bit: "dirty x \<longleftrightarrow> bit (b_flags x) 2"
  by (simp_all add: valid_def dirty_def flag_bits)

lemma nothing_to_do: "f AND (B_VALID OR B_DIRTY) = B_VALID \<longleftrightarrow> bit f 1 \<and> \<not> bit f 2"
proof
  assume "f AND (B_VALID OR B_DIRTY) = B_VALID"
  then have "bit (f AND (B_VALID OR B_DIRTY)) n = bit B_VALID n" for n by simp
  from this[of 1] this[of 2] show "bit f 1 \<and> \<not> bit f 2" by (simp add: bit_and_iff bit_or_iff flag_consts)
qed (auto simp: word_bits_eq bit_and_iff bit_or_iff flag_consts)

lemmas flag_simps = flag_bits flag_consts bit_or_iff bit_and_iff nothing_to_do

lemma bit_clear_dirty: "bit (f AND NOT B_DIRTY) n \<longleftrightarrow> bit f n \<and> n \<noteq> 2"
  by (auto simp: bit_and_iff bit_not_iff flag_consts possible_bit_word dest: bit_imp_le_length)

section \<open>What the cache promises\<close>

text \<open>The cache between two routines of one process, with \<open>H\<close> the buffers it holds: nobody else is
  using the cache. Each cached block has one buffer, and a buffer that is neither held nor dirty
  agrees with the disk.\<close>

definition cached_in :: "'a bst_scheme \<Rightarrow> nat \<Rightarrow> nat \<Rightarrow> bool" where
  "cached_in s n i \<longleftrightarrow> i < NBUF \<and> b_dev (bufs s i) = 1 \<and> unat (b_blockno (bufs s i)) = n"

definition slot_ok :: "'a bst_scheme \<Rightarrow> nat set \<Rightarrow> nat \<Rightarrow> bool" where
  "slot_ok s H i \<longleftrightarrow> (let x = bufs s i in
     length (b_data x) = BSIZE \<and> (valid x \<longleftrightarrow> b_dev x = 1) \<and> (dirty x \<longrightarrow> valid x) \<and>
     (valid x \<longrightarrow> b_blockno x < disksize s) \<and>
     (if i \<in> H then b_refcnt x = 1 \<and> valid x \<and>
         slocks s (BufSL i) = \<lparr>sl_locked = True, sl_pid = p_pid (ptable s (the (curproc s)))\<rparr>
      else b_refcnt x = 0 \<and> \<not> sl_locked (slocks s (BufSL i)) \<and>
         (valid x \<and> \<not> dirty x \<longrightarrow> b_data x = memdisk s (unat (b_blockno x)))))"

definition cache_ok :: "'a bst_scheme \<Rightarrow> nat set \<Rightarrow> bool" where
  "cache_ok s H \<longleftrightarrow> held s = [] \<and> curproc s \<noteq> None \<and> H \<subseteq> {..<NBUF} \<and>
     (\<exists>xs. ring (bufs s) xs \<and> set xs = {..<NBUF}) \<and> (\<forall>n. length (memdisk s n) = BSIZE) \<and>
     (\<forall>n i j. cached_in s n i \<and> cached_in s n j \<longrightarrow> i = j) \<and> (\<forall>i<NBUF. slot_ok s H i)"

text \<open>The contents of block \<open>n\<close> as the file system sees them.\<close>

definition content :: "'a bst_scheme \<Rightarrow> nat \<Rightarrow> u8 list" where
  "content s n = (case find (cached_in s n) [0..<NBUF] of Some i \<Rightarrow> b_data (bufs s i) | None \<Rightarrow> memdisk s n)"

lemma content_cached:
  assumes "cache_ok s H" "cached_in s n i"
  shows "content s n = b_data (bufs s i)"
proof -
  have "find (cached_in s n) [0..<NBUF] = Some i"
  proof (cases "find (cached_in s n) [0..<NBUF]")
    case None
    then show ?thesis using assms(2) by (auto simp: find_None_iff cached_in_def)
  next
    case (Some j)
    then have "cached_in s n j" using find_SomeD by metis
    then show ?thesis using assms Some unfolding cache_ok_def by blast
  qed
  then show ?thesis by (simp add: content_def)
qed

lemma content_disk: "\<forall>i. \<not> cached_in s n i \<Longrightarrow> content s n = memdisk s n"
  by (simp add: content_def find_None_iff[THEN iffD2])

text \<open>What the routines of the cache leave alone: everything but the cache, the disk and the sleepers
  that are woken.\<close>

definition woken_by :: "proc \<Rightarrow> int \<Rightarrow> proc \<Rightarrow> bool" where
  "woken_by x t y \<longleftrightarrow> y = x \<or> p_state x = SLEEPING \<and> y = x\<lparr>p_state := RUNNABLE, p_start := t\<rparr>"

definition bio_frame :: "'a bst_scheme \<Rightarrow> 'a bst_scheme \<Rightarrow> bool" where
  "bio_frame s t \<longleftrightarrow> t = s\<lparr>ptable := ptable t, slocks := slocks t, bufs := bufs t, memdisk := memdisk t,
     dwrites := dwrites t\<rparr> \<and> (\<forall>i. woken_by (ptable s i) (now s) (ptable t i)) \<and>
     (\<forall>i. slocks t (InodeSL i) = slocks s (InodeSL i))"

section \<open>Reading a block\<close>

lemma cache_okD:
  assumes "cache_ok s H"
  shows "held s = []" "curproc s \<noteq> None" "\<And>n. length (memdisk s n) = BSIZE" "\<And>i. i < NBUF \<Longrightarrow> slot_ok s H i"
    "\<And>n i j. cached_in s n i \<Longrightarrow> cached_in s n j \<Longrightarrow> i = j" "\<And>i. i \<in> H \<Longrightarrow> i < NBUF"
  using assms unfolding cache_ok_def by blast+

lemma cache_ring:
  assumes "cache_ok s H"
  obtains xs where "ring (bufs s) xs" "set xs = {..<NBUF}" "length xs = NBUF"
proof -
  obtain xs where x: "ring (bufs s) xs" "set xs = {..<NBUF}" using assms unfolding cache_ok_def by blast
  moreover have "distinct xs" using x(1) by (simp add: ring_def)
  ultimately show ?thesis using that distinct_card[of xs] by simp
qed

definition owner :: "'a pst_scheme \<Rightarrow> sleeplock" where
  "owner s = \<lparr>sl_locked = True, sl_pid = p_pid (ptable s (the (curproc s)))\<rparr>"

lemma ring_keeps_links:
  "ring B xs \<Longrightarrow> b_next x = b_next (B i) \<Longrightarrow> b_prev x = b_prev (B i) \<Longrightarrow> ring (B(i := x)) xs"
  unfolding ring_def by (subst (1 2) ring_chain_cong) auto

lemma iderw_read:
  assumes "held s = []" "curproc s = Some p" "slocks s (BufSL b) = owner s"
    "\<not> valid (bufs s b)" "\<not> dirty (bufs s b)" "b_dev (bufs s b) = 1" "b_blockno (bufs s b) < disksize s"
  shows "iderw b s = Ok () (s\<lparr>bufs := (bufs s)(b := (bufs s b)\<lparr>b_data := memdisk s (unat (b_blockno (bufs s b))),
     b_flags := b_flags (bufs s b) OR B_VALID\<rparr>)\<rparr>)"
proof -
  have h: "holdingsleep (BufSL b) s = Ok True s" using assms(1-3) by (simp add: holdingsleep_eq owner_def)
  show ?thesis
    using assms(4-7) by (simp add: iderw_def h buf_runs nothing_to_do valid_bit dirty_bit flag_bits Let_def)
qed

lemma iderw_write:
  assumes "held s = []" "curproc s = Some p" "slocks s (BufSL b) = owner s"
    "dirty (bufs s b)" "b_dev (bufs s b) = 1" "b_blockno (bufs s b) < disksize s"
  shows "iderw b s = Ok () (s\<lparr>bufs := (bufs s)(b := (bufs s b)\<lparr>b_flags := (b_flags (bufs s b) AND NOT B_DIRTY) OR B_VALID\<rparr>),
     memdisk := (memdisk s)(unat (b_blockno (bufs s b)) := b_data (bufs s b)),
     dwrites := dwrites s @ [(unat (b_blockno (bufs s b)), b_data (bufs s b))]\<rparr>)"
proof -
  have h: "holdingsleep (BufSL b) s = Ok True s" using assms(1-3) by (simp add: holdingsleep_eq owner_def)
  show ?thesis
    using assms(4-6) by (simp add: iderw_def h buf_runs disk_write_def nothing_to_do dirty_bit flag_bits Let_def)
qed

lemma bread_hit:
  assumes ok: "cache_ok s H" and c: "cached_in s (unat n) b" and b: "b \<notin> H"
  shows "bread 1 n s = Ok b (s\<lparr>bufs := (bufs s)(b := (bufs s b)\<lparr>b_refcnt := 1\<rparr>), slocks := (slocks s)(BufSL b := owner s)\<rparr>)"
proof -
  obtain xs where xs: "ring (bufs s) xs" "set xs = {..<NBUF}" "length xs = NBUF" using cache_ring[OF ok] .
  obtain p where p: "held s = []" "curproc s = Some p" using cache_okD(1,2)[OF ok] by auto
  have lt: "b < NBUF" using c by (simp add: cached_in_def)
  have so: "valid (bufs s b)" "b_refcnt (bufs s b) = 0" "\<not> sl_locked (slocks s (BufSL b))"
    using cache_okD(4)[OF ok lt] c b by (simp_all add: slot_ok_def Let_def cached_in_def)
  have m: "b_dev (bufs s i) = 1 \<and> b_blockno (bufs s i) = n \<longleftrightarrow> i = b" if "i < NBUF" for i
    using that c cache_okD(5)[OF ok, of "unat n" i b] by (auto simp: cached_in_def simp flip: word_unat_eq_iff)
  have f: "find (\<lambda>i. b_dev (bufs s i) = 1 \<and> b_blockno (bufs s i) = n) xs = Some b"
  proof (cases "find (\<lambda>i. b_dev (bufs s i) = 1 \<and> b_blockno (bufs s i) = n) xs")
    case None
    then show ?thesis using m[OF lt] lt xs(2) by (auto simp: find_None_iff)
  next
    case (Some j)
    from find_SomeD[OF this] have "j \<in> set xs" "b_dev (bufs s j) = 1 \<and> b_blockno (bufs s j) = n" by auto
    then show ?thesis using m[of j] xs(2) Some by simp
  qed
  have w: "walk b_next (\<lambda>x. b_dev x = 1 \<and> b_blockno x = n) (Suc NBUF) (b_next (bufs s NBUF)) (s\<lparr>held := [BcacheLock]\<rparr>) =
     Ok (Some b) (s\<lparr>held := [BcacheLock]\<rparr>)"
    using walk_ring(1)[of "s\<lparr>held := [BcacheLock]\<rparr>" xs "\<lambda>x. b_dev x = 1 \<and> b_blockno x = n"] xs f by simp
  show ?thesis
    unfolding bread_def bget_def using p so w
    by (simp add: buf_runs valid_def owner_def del: walk.simps)
qed

lemma bread_miss:
  assumes ok: "cache_ok s H" and c: "\<forall>i. \<not> cached_in s (unat n) i" and a: "\<exists>i<NBUF. i \<notin> H \<and> \<not> dirty (bufs s i)"
    and n: "n < disksize s"
  shows "\<exists>b<NBUF. b \<notin> H \<and> \<not> dirty (bufs s b) \<and>
     bread 1 n s = Ok b (s\<lparr>bufs := (bufs s)(b := (bufs s b)\<lparr>b_dev := 1, b_blockno := n, b_refcnt := 1,
       b_data := memdisk s (unat n), b_flags := B_VALID\<rparr>), slocks := (slocks s)(BufSL b := owner s)\<rparr>)"
proof -
  obtain xs where xs: "ring (bufs s) xs" "set xs = {..<NBUF}" "length xs = NBUF" using cache_ring[OF ok] .
  obtain p where p: "held s = []" "curproc s = Some p" using cache_okD(1,2)[OF ok] by auto
  let ?h = "s\<lparr>held := [BcacheLock]\<rparr>"
  have f: "find (\<lambda>i. b_dev (bufs s i) = 1 \<and> b_blockno (bufs s i) = n) xs = None"
    using c xs(2) by (auto simp: find_None_iff cached_in_def)
  have w: "walk b_next (\<lambda>x. b_dev x = 1 \<and> b_blockno x = n) (Suc NBUF) (b_next (bufs s NBUF)) ?h = Ok None ?h"
    using walk_ring(1)[of ?h xs "\<lambda>x. b_dev x = 1 \<and> b_blockno x = n"] xs f by simp
  have free: "b_refcnt (bufs s i) = 0 \<longleftrightarrow> i \<notin> H" if "i < NBUF" for i
    using cache_okD(4)[OF ok that] by (auto simp: slot_ok_def Let_def split: if_splits)
  have "find (\<lambda>i. b_refcnt (bufs s i) = 0 \<and> b_flags (bufs s i) AND B_DIRTY = 0) (rev xs) \<noteq> None"
    using a free xs(2) by (auto simp: find_None_iff dirty_def)
  then obtain b where g: "find (\<lambda>i. b_refcnt (bufs s i) = 0 \<and> b_flags (bufs s i) AND B_DIRTY = 0) (rev xs) = Some b" by blast
  then have b: "b < NBUF" "b_refcnt (bufs s b) = 0" "\<not> dirty (bufs s b)"
    using xs(2) find_SomeD[OF g] by (auto simp: dirty_def)
  then have bH: "b \<notin> H" using free by blast
  have sl: "\<not> sl_locked (slocks s (BufSL b))" using cache_okD(4)[OF ok b(1)] bH by (simp add: slot_ok_def Let_def)
  have v: "walk b_prev (\<lambda>x. b_refcnt x = 0 \<and> b_flags x AND B_DIRTY = 0) (Suc NBUF) (b_prev (bufs s NBUF)) ?h = Ok (Some b) ?h"
    using walk_ring(2)[of ?h xs "\<lambda>x. b_refcnt x = 0 \<and> b_flags x AND B_DIRTY = 0"] xs g by simp
  have "bread 1 n s = Ok b (s\<lparr>bufs := (bufs s)(b := (bufs s b)\<lparr>b_dev := 1, b_blockno := n, b_refcnt := 1,
       b_data := memdisk s (unat n), b_flags := B_VALID\<rparr>), slocks := (slocks s)(BufSL b := owner s)\<rparr>)"
    unfolding bread_def bget_def using p w v sl n
    by (simp add: buf_runs iderw_read owner_def valid_bit dirty_bit del: walk.simps)
  then show ?thesis using b bH by blast
qed

lemma content_eqI:
  assumes "cache_ok t H'" "\<And>i. cached_in t n i \<Longrightarrow> b_data (bufs t i) = v" "\<forall>i. \<not> cached_in t n i \<Longrightarrow> memdisk t n = v"
  shows "content t n = v"
proof (cases "\<exists>i. cached_in t n i")
  case True
  then show ?thesis using content_cached[OF assms(1)] assms(2) by blast
qed (use assms(3) content_disk in auto)

lemma cached_in_upd:
  "cached_in (s\<lparr>bufs := (bufs s)(b := x), slocks := L\<rparr>) m i \<longleftrightarrow>
     (if i = b then b < NBUF \<and> b_dev x = 1 \<and> unat (b_blockno x) = m else cached_in s m i)"
  by (simp add: cached_in_def)

lemma take_ok:
  fixes s :: "'a bst_scheme"
  assumes ok: "cache_ok s H" and b: "b < NBUF" "b \<notin> H"
    and x: "b_dev x = 1" "b_blockno x < disksize s" "b_refcnt x = 1" "valid x" "length (b_data x) = BSIZE"
      "b_next x = b_next (bufs s b)" "b_prev x = b_prev (bufs s b)"
    and u: "\<forall>i. cached_in s (unat (b_blockno x)) i \<longrightarrow> i = b"
    and c: "b_data x = content s (unat (b_blockno x))"
    and old: "\<not> dirty (bufs s b) \<or> cached_in s (unat (b_blockno x)) b"
  defines "t \<equiv> s\<lparr>bufs := (bufs s)(b := x), slocks := (slocks s)(BufSL b := owner s)\<rparr>"
  shows "cache_ok t (insert b H)" "content t = content s"
proof -
  obtain xs where xs: "ring (bufs s) xs" "set xs = {..<NBUF}" using cache_ring[OF ok] by metis
  have "ring (bufs t) xs" using ring_keeps_links[OF xs(1) x(6,7)] by (simp add: t_def)
  moreover have "slot_ok t (insert b H) i" if "i < NBUF" for i
    using cache_okD(4)[OF ok that] x(1-5) by (auto simp: t_def slot_ok_def Let_def owner_def split: if_splits)
  moreover have "i = j" if "cached_in t n i" "cached_in t n j" for n i j
    using that u cache_okD(5)[OF ok] unfolding t_def cached_in_upd by (metis (full_types))
  ultimately show tok: "cache_ok t (insert b H)"
    using ok b(1) xs(2) unfolding cache_ok_def by (auto simp: t_def)
  show "content t = content s"
  proof (rule ext, rule content_eqI[OF tok])
    fix n i
    assume i: "cached_in t n i"
    show "b_data (bufs t i) = content s n"
    proof (cases "i = b")
      case True
      then show ?thesis using i c by (simp add: t_def cached_in_upd)
    next
      case False
      then show ?thesis using i content_cached[OF ok, of n i] by (simp add: t_def cached_in_upd)
    qed
  next
    fix n
    assume n: "\<forall>i. \<not> cached_in t n i"
    show "memdisk t n = content s n"
    proof (cases "cached_in s n b")
      case True
      then have "unat (b_blockno x) \<noteq> n" using n[rule_format, of b] x(1) b(1) by (simp add: t_def cached_in_upd)
      then have "\<not> dirty (bufs s b)" using old True by (auto simp: cached_in_def)
      then show ?thesis
        using True cache_okD(4)[OF ok b(1)] b(2) content_cached[OF ok True]
        by (simp add: slot_ok_def Let_def t_def cached_in_def)
    next
      case False
      then have "\<forall>i. \<not> cached_in s n i" using n unfolding t_def cached_in_upd by metis
      then show ?thesis by (simp add: content_disk t_def)
    qed
  qed
qed

definition dirty_same :: "'a bst_scheme \<Rightarrow> 'a bst_scheme \<Rightarrow> bool" where
  "dirty_same s t \<longleftrightarrow> (\<forall>i. dirty (bufs t i) = dirty (bufs s i)) \<and>
     (\<forall>n i. dirty (bufs s i) \<longrightarrow> cached_in t n i = cached_in s n i)"

lemma bio_frame_upd:
  assumes "\<forall>i. l \<noteq> InodeSL i"
  shows "bio_frame s (s\<lparr>bufs := B, slocks := (slocks s)(l := k)\<rparr>)"
  using assms by (auto simp: bio_frame_def woken_by_def)

lemma bread_ok:
  fixes s :: "'a bst_scheme"
  assumes ok: "cache_ok s H" and n: "n < disksize s" and nH: "\<forall>i \<in> H. \<not> cached_in s (unat n) i"
    and avail: "(\<exists>i. cached_in s (unat n) i) \<or> (\<exists>i<NBUF. i \<notin> H \<and> \<not> dirty (bufs s i))"
  shows "wp (bread 1 n) (\<lambda>b t. b < NBUF \<and> b \<notin> H \<and> cache_ok t (insert b H) \<and> content t = content s \<and>
     cached_in t (unat n) b \<and> b_data (bufs t b) = content s (unat n) \<and> memdisk t = memdisk s \<and>
     dwrites t = dwrites s \<and> dirty_same s t \<and> (\<forall>i \<in> H. bufs t i = bufs s i) \<and> bio_frame s t) s"
proof (cases "\<exists>i. cached_in s (unat n) i")
  case True
  then obtain b where c: "cached_in s (unat n) b" by blast
  then have b: "b < NBUF" "b \<notin> H" "b_dev (bufs s b) = 1" "b_blockno (bufs s b) = n"
    using nH by (auto simp: cached_in_def simp flip: word_unat_eq_iff)
  let ?x = "(bufs s b)\<lparr>b_refcnt := 1\<rparr>"
  let ?t = "s\<lparr>bufs := (bufs s)(b := ?x), slocks := (slocks s)(BufSL b := owner s)\<rparr>"
  have p: "b_dev ?x = 1" "b_blockno ?x < disksize s" "b_refcnt ?x = 1" "valid ?x" "length (b_data ?x) = BSIZE"
    "b_next ?x = b_next (bufs s b)" "b_prev ?x = b_prev (bufs s b)"
    using cache_okD(4)[OF ok b(1)] b(3,4) n by (simp_all add: slot_ok_def Let_def valid_def)
  have u: "\<forall>i. cached_in s (unat (b_blockno ?x)) i \<longrightarrow> i = b" using c b(4) cache_okD(5)[OF ok] by auto
  have d: "b_data ?x = content s (unat (b_blockno ?x))" using content_cached[OF ok c] b(4) by simp
  have "\<not> dirty (bufs s b) \<or> cached_in s (unat (b_blockno ?x)) b" using c b(4) by simp
  note t = take_ok[OF ok b(1,2) p u d this]
  show ?thesis
    unfolding wp_Ok[where f = "bread 1 n", OF bread_hit[OF ok c b(2)]]
    using t b c content_cached[OF ok c] bio_frame_upd[of "BufSL b"]
    by (simp add: cached_in_upd dirty_same_def dirty_def) (auto simp: cached_in_def)
next
  case False
  then have avail': "\<exists>i<NBUF. i \<notin> H \<and> \<not> dirty (bufs s i)" using avail by blast
  have none: "\<forall>i. \<not> cached_in s (unat n) i" using False by blast
  obtain b where b: "b < NBUF" "b \<notin> H" "\<not> dirty (bufs s b)" and
    e: "bread 1 n s = Ok b (s\<lparr>bufs := (bufs s)(b := (bufs s b)\<lparr>b_dev := 1, b_blockno := n, b_refcnt := 1,
       b_data := memdisk s (unat n), b_flags := B_VALID\<rparr>), slocks := (slocks s)(BufSL b := owner s)\<rparr>)"
    using bread_miss[OF ok none avail' n] by blast
  let ?x = "(bufs s b)\<lparr>b_dev := 1, b_blockno := n, b_refcnt := 1, b_data := memdisk s (unat n), b_flags := B_VALID\<rparr>"
  let ?t = "s\<lparr>bufs := (bufs s)(b := ?x), slocks := (slocks s)(BufSL b := owner s)\<rparr>"
  have f: "valid ?x" "\<not> dirty ?x" by (simp_all add: valid_bit dirty_bit flag_consts)
  have p: "b_dev ?x = 1" "b_blockno ?x < disksize s" "b_refcnt ?x = 1" "valid ?x" "length (b_data ?x) = BSIZE"
    "b_next ?x = b_next (bufs s b)" "b_prev ?x = b_prev (bufs s b)"
    using n f cache_okD(3)[OF ok] by simp_all
  have u: "\<forall>i. cached_in s (unat (b_blockno ?x)) i \<longrightarrow> i = b" using none by simp
  have d: "b_data ?x = content s (unat (b_blockno ?x))" using content_disk[OF none] by simp
  have "\<not> dirty (bufs s b) \<or> cached_in s (unat (b_blockno ?x)) b" using b(3) by simp
  note t = take_ok[OF ok b(1,2) p u d this]
  show ?thesis
    unfolding wp_Ok[where f = "bread 1 n", OF e] using t b f content_disk[OF none] bio_frame_upd[of "BufSL b"]
    by (simp add: cached_in_upd dirty_same_def) auto
qed

section \<open>Changing a held buffer\<close>

abbreviation blk :: "'a bst_scheme \<Rightarrow> nat \<Rightarrow> nat" where
  "blk s b \<equiv> unat (b_blockno (bufs s b))"

lemma held_slot:
  assumes "cache_ok s H" "b \<in> H"
  shows "b < NBUF" "cached_in s (blk s b) b" "valid (bufs s b)" "b_refcnt (bufs s b) = 1" "b_dev (bufs s b) = 1"
    "slocks s (BufSL b) = owner s" "b_blockno (bufs s b) < disksize s" "length (b_data (bufs s b)) = BSIZE"
  using cache_okD(6)[OF assms] cache_okD(4)[OF assms(1) cache_okD(6)[OF assms]] assms(2)
  by (auto simp: slot_ok_def Let_def owner_def cached_in_def)

text \<open>A change of a held buffer that keeps its block, possibly written through to the disk.\<close>

lemma change_ok:
  fixes s :: "'a bst_scheme" and W :: "(nat \<times> u8 list) list"
  assumes ok: "cache_ok s H" and b: "b \<in> H"
    and x: "b_dev x = 1" "b_blockno x = b_blockno (bufs s b)" "b_refcnt x = 1" "valid x" "length (b_data x) = BSIZE"
      "b_next x = b_next (bufs s b)" "b_prev x = b_prev (bufs s b)"
    and D: "D = memdisk s \<or> D = (memdisk s)(blk s b := b_data x)"
  defines "t \<equiv> s\<lparr>bufs := (bufs s)(b := x), memdisk := D, dwrites := W\<rparr>"
  shows "cache_ok t H" "content t = (content s)(blk s b := b_data x)" "cached_in t = cached_in s" "bio_frame s t"
proof -
  note hb = held_slot[OF ok b]
  obtain xs where xs: "ring (bufs s) xs" "set xs = {..<NBUF}" using cache_ring[OF ok] by metis
  show ct: "cached_in t = cached_in s" using hb(5) x(1,2) by (auto simp: fun_eq_iff cached_in_def t_def)
  have r: "ring (bufs t) xs" using ring_keeps_links[OF xs(1) x(6,7)] by (simp add: t_def)
  have other: "D (blk s i) = memdisk s (blk s i)" if "i < NBUF" "i \<noteq> b" "valid (bufs s i)" for i
  proof -
    have "cached_in s (blk s i) i" using that cache_okD(4)[OF ok that(1)] by (simp add: cached_in_def slot_ok_def Let_def)
    then have "blk s i \<noteq> blk s b" using cache_okD(5)[OF ok] hb(2) that(2) by metis
    then show ?thesis using D by auto
  qed
  have so: "slot_ok t H i" if "i < NBUF" for i
  proof (cases "i = b")
    case True
    then show ?thesis using b x(1-5) hb by (simp add: t_def slot_ok_def Let_def owner_def)
  next
    case False
    then show ?thesis using cache_okD(4)[OF ok that] other[OF that False] by (auto simp: t_def slot_ok_def Let_def)
  qed
  have len: "\<forall>n. length (D n) = BSIZE" using D x(5) cache_okD(3)[OF ok] by auto
  have frame: "held t = held s" "curproc t = curproc s" "memdisk t = D" by (simp_all add: t_def)
  show tok: "cache_ok t H"
    unfolding cache_ok_def ct frame
    using ok so r xs(2) len unfolding cache_ok_def by blast
  show "content t = (content s)(blk s b := b_data x)"
  proof (rule ext, rule content_eqI[OF tok])
    fix n i
    assume i: "cached_in t n i"
    show "b_data (bufs t i) = ((content s)(blk s b := b_data x)) n"
    proof (cases "i = b")
      case True
      then show ?thesis using i x(2) by (auto simp: cached_in_def t_def)
    next
      case False
      then have "n \<noteq> blk s b" using i cache_okD(5)[OF ok, of n i b] hb(2) unfolding ct by metis
      then show ?thesis using False i content_cached[OF ok, of n i] unfolding ct by (simp add: t_def)
    qed
  next
    fix n
    assume n: "\<forall>i. \<not> cached_in t n i"
    then have "n \<noteq> blk s b" using hb(2) unfolding ct by metis
    then show "memdisk t n = ((content s)(blk s b := b_data x)) n"
      using n content_disk[of s n] D unfolding ct by (auto simp: t_def)
  qed
  show "bio_frame s t" by (simp add: bio_frame_def t_def woken_by_def)
qed

text \<open>Storing new contents into a held buffer.\<close>

lemma setdata_ok:
  assumes ok: "cache_ok s H" and b: "b \<in> H" and d: "length d = BSIZE"
  shows "wp (modb b (\<lambda>x. x\<lparr>b_data := d\<rparr>)) (\<lambda>_ t. t = s\<lparr>bufs := (bufs s)(b := (bufs s b)\<lparr>b_data := d\<rparr>)\<rparr> \<and>
     cache_ok t H \<and> content t = (content s)(blk s b := d) \<and> cached_in t = cached_in s \<and> bio_frame s t \<and> dirty_same s t) s"
proof -
  let ?x = "(bufs s b)\<lparr>b_data := d\<rparr>"
  have p: "b_dev ?x = 1" "b_blockno ?x = b_blockno (bufs s b)" "b_refcnt ?x = 1" "valid ?x" "length (b_data ?x) = BSIZE"
    "b_next ?x = b_next (bufs s b)" "b_prev ?x = b_prev (bufs s b)"
    using held_slot[OF ok b] d by (simp_all add: valid_def)
  note c = change_ok[OF ok b p, of "memdisk s" "dwrites s"]
  then show ?thesis
    unfolding wp_Ok[where f = "modb b (\<lambda>x. x\<lparr>b_data := d\<rparr>)", OF modb_eq]
    by (simp add: dirty_same_def dirty_def)
qed

text \<open>Writing a held buffer through to the disk.\<close>

lemma bwrite_ok:
  assumes ok: "cache_ok s H" and b: "b \<in> H"
  shows "wp (bwrite b) (\<lambda>_ t. cache_ok t H \<and> content t = content s \<and> cached_in t = cached_in s \<and>
     (\<forall>i. i \<noteq> b \<longrightarrow> bufs t i = bufs s i) \<and> \<not> dirty (bufs t b) \<and> b_data (bufs t b) = b_data (bufs s b) \<and>
     memdisk t = (memdisk s)(blk s b := b_data (bufs s b)) \<and>
     dwrites t = dwrites s @ [(blk s b, b_data (bufs s b))] \<and> bio_frame s t) s"
proof -
  note hb = held_slot[OF ok b]
  obtain p where p: "held s = []" "curproc s = Some p" using cache_okD(1,2)[OF ok] by auto
  let ?x = "(bufs s b)\<lparr>b_flags := (b_flags (bufs s b) OR B_DIRTY) AND NOT B_DIRTY OR B_VALID\<rparr>"
  let ?t = "s\<lparr>bufs := (bufs s)(b := ?x), memdisk := (memdisk s)(blk s b := b_data (bufs s b)),
     dwrites := dwrites s @ [(blk s b, b_data (bufs s b))]\<rparr>"
  have h: "holdingsleep (BufSL b) s = Ok True s" using p hb(6) by (simp add: holdingsleep_eq owner_def)
  have e: "bwrite b s = Ok () ?t"
    using p hb by (simp add: bwrite_def h buf_runs iderw_write dirty_bit bit_or_iff flag_consts owner_def)
  have q: "b_dev ?x = 1" "b_blockno ?x = b_blockno (bufs s b)" "b_refcnt ?x = 1" "valid ?x" "length (b_data ?x) = BSIZE"
    "b_next ?x = b_next (bufs s b)" "b_prev ?x = b_prev (bufs s b)"
    using hb by (simp_all add: valid_bit bit_or_iff flag_consts)
  have "content s (blk s b) = b_data (bufs s b)" using content_cached[OF ok hb(2)] .
  then have same: "(content s)(blk s b := b_data ?x) = content s" by auto
  have nd: "\<not> dirty ?x" by (simp add: dirty_bit bit_or_iff bit_clear_dirty flag_consts)
  have D: "(memdisk s)(blk s b := b_data (bufs s b)) = memdisk s \<or>
    (memdisk s)(blk s b := b_data (bufs s b)) = (memdisk s)(blk s b := b_data ?x)" by simp
  note c = change_ok[OF ok b q D, of "dwrites s @ [(blk s b, b_data (bufs s b))]", unfolded same]
  show ?thesis unfolding wp_Ok[where f = "bwrite b", OF e] using c nd by simp
qed

section \<open>Releasing a buffer\<close>

lemma payloadD:
  assumes "payload x = payload y"
  shows "b_flags x = b_flags y" "b_dev x = b_dev y" "b_blockno x = b_blockno y" "b_refcnt x = b_refcnt y"
    "b_data x = b_data y" "valid x = valid y" "dirty x = dirty y"
  using assms by (simp_all add: payload_def valid_def dirty_def)

lemma wake_table_pid [simp]: "p_pid (wake_table ch t tab i) = p_pid (tab i)"
  by (simp add: wake_table_def woken_def)

lemma wake_table_woken: "woken_by (tab i) t (wake_table ch t tab i)"
  by (auto simp: wake_table_def woken_def woken_by_def)

lemma brelse_run:
  assumes ok: "cache_ok s H" and b: "b \<in> H"
  shows "\<exists>B xs. brelse b s = Ok () (s\<lparr>slocks := (slocks s)(BufSL b := \<lparr>sl_locked = False, sl_pid = 0\<rparr>),
       ptable := wake_table (ChBufLock b) (now s) (ptable s), bufs := B\<rparr>) \<and> ring B xs \<and> set xs = {..<NBUF} \<and>
     (\<forall>i. payload (B i) = payload (((bufs s)(b := (bufs s b)\<lparr>b_refcnt := 0\<rparr>)) i))"
proof -
  note hb = held_slot[OF ok b]
  obtain p where p: "held s = []" "curproc s = Some p" using cache_okD(1,2)[OF ok] by auto
  obtain xs where xs: "ring (bufs s) xs" "set xs = {..<NBUF}" using cache_ring[OF ok] by metis
  let ?B = "(bufs s)(b := (bufs s b)\<lparr>b_refcnt := 0\<rparr>)"
  let ?u = "s\<lparr>slocks := (slocks s)(BufSL b := \<lparr>sl_locked = False, sl_pid = 0\<rparr>),
       ptable := wake_table (ChBufLock b) (now s) (ptable s), held := [BcacheLock], bufs := ?B\<rparr>"
  have "ring (bufs ?u) xs" using ring_keeps_links[OF xs(1), of "(bufs s b)\<lparr>b_refcnt := 0\<rparr>" b] by simp
  moreover have "b \<in> set xs" using hb(1) xs(2) by simp
  ultimately obtain B where B: "to_front b ?u = Ok () (?u\<lparr>bufs := B\<rparr>)" "ring B (b # remove1 b xs)"
    "\<forall>i. payload (B i) = payload (bufs ?u i)"
    using to_front_ring by metis
  have h: "holdingsleep (BufSL b) s = Ok True s" using p hb(6) by (simp add: holdingsleep_eq owner_def)
  have "brelse b s = Ok () (s\<lparr>slocks := (slocks s)(BufSL b := \<lparr>sl_locked = False, sl_pid = 0\<rparr>),
       ptable := wake_table (ChBufLock b) (now s) (ptable s), bufs := B\<rparr>)"
    using p hb(4) B(1) by (simp add: brelse_def h buf_runs)
  moreover have "set (b # remove1 b xs) = {..<NBUF}"
    using \<open>b \<in> set xs\<close> xs by (auto simp: ring_def)
  ultimately show ?thesis using B(2,3) by (intro exI[of _ B] exI[of _ "b # remove1 b xs"]) simp
qed

lemma brelse_ok:
  assumes ok: "cache_ok s H" and b: "b \<in> H"
    and sync: "dirty (bufs s b) \<or> b_data (bufs s b) = memdisk s (blk s b)"
  shows "wp (brelse b) (\<lambda>_ t. cache_ok t (H - {b}) \<and> content t = content s \<and> cached_in t = cached_in s \<and>
     dirty_same s t \<and> (\<forall>i. b_data (bufs t i) = b_data (bufs s i)) \<and> (\<forall>i. i \<noteq> b \<longrightarrow> payload (bufs t i) = payload (bufs s i)) \<and>
     memdisk t = memdisk s \<and> dwrites t = dwrites s \<and> bio_frame s t) s"
proof -
  note hb = held_slot[OF ok b]
  obtain B xs where run: "brelse b s = Ok () (s\<lparr>slocks := (slocks s)(BufSL b := \<lparr>sl_locked = False, sl_pid = 0\<rparr>),
       ptable := wake_table (ChBufLock b) (now s) (ptable s), bufs := B\<rparr>)"
    and xs: "ring B xs" "set xs = {..<NBUF}"
    and pay: "\<forall>i. payload (B i) = payload (((bufs s)(b := (bufs s b)\<lparr>b_refcnt := 0\<rparr>)) i)"
    using brelse_run[OF ok b] by blast
  define t where "t = s\<lparr>slocks := (slocks s)(BufSL b := \<lparr>sl_locked = False, sl_pid = 0\<rparr>),
       ptable := wake_table (ChBufLock b) (now s) (ptable s), bufs := B\<rparr>"
  note f = payloadD[OF pay[rule_format]]
  have same: "b_flags (B i) = b_flags (bufs s i)" "b_dev (B i) = b_dev (bufs s i)" "b_blockno (B i) = b_blockno (bufs s i)"
    "b_data (B i) = b_data (bufs s i)" "valid (B i) = valid (bufs s i)" "dirty (B i) = dirty (bufs s i)"
    "b_refcnt (B i) = (if i = b then 0 else b_refcnt (bufs s i))" for i
    using f[of i] by (auto simp: valid_def dirty_def)
  have ct: "cached_in t = cached_in s" by (simp add: fun_eq_iff cached_in_def t_def same)
  have so: "slot_ok t (H - {b}) i" if "i < NBUF" for i
  proof (cases "i = b")
    case True
    then show ?thesis using cache_okD(4)[OF ok that] b sync by (auto simp: t_def slot_ok_def Let_def same)
  next
    case False
    then show ?thesis using cache_okD(4)[OF ok that] by (auto simp: t_def slot_ok_def Let_def same split: if_splits)
  qed
  have frame: "held t = held s" "curproc t = curproc s" "memdisk t = memdisk s" "bufs t = B" by (simp_all add: t_def)
  have tok: "cache_ok t (H - {b})"
    unfolding cache_ok_def ct frame using ok so xs unfolding cache_ok_def by blast
  have "content t = content s"
    by (simp add: fun_eq_iff content_def ct frame same split: option.split)
  moreover have "\<forall>i. i \<noteq> b \<longrightarrow> payload (B i) = payload (bufs s i)" using pay by simp
  moreover have "bio_frame s t" by (simp add: bio_frame_def t_def wake_table_woken)
  ultimately show ?thesis
    unfolding wp_Ok[where f = "brelse b", OF run] using tok ct
    unfolding t_def[symmetric] frame by (simp add: dirty_same_def frame same t_def[THEN arg_cong[where f = dwrites]])
qed

section \<open>Properties\<close>

lemma bread_full:
  assumes ok: "cache_ok s H" and c: "\<forall>i. \<not> cached_in s (unat n) i" and a: "\<not> (\<exists>i<NBUF. i \<notin> H \<and> \<not> dirty (bufs s i))"
  shows "bread 1 n s = Panic ''bget: no buffers''"
proof -
  obtain xs where xs: "ring (bufs s) xs" "set xs = {..<NBUF}" "length xs = NBUF" using cache_ring[OF ok] .
  have p: "held s = []" using cache_okD(1)[OF ok] .
  let ?h = "s\<lparr>held := [BcacheLock]\<rparr>"
  have f: "find (\<lambda>i. b_dev (bufs s i) = 1 \<and> b_blockno (bufs s i) = n) xs = None"
    using c xs(2) by (auto simp: find_None_iff cached_in_def)
  have w: "walk b_next (\<lambda>x. b_dev x = 1 \<and> b_blockno x = n) (Suc NBUF) (b_next (bufs s NBUF)) ?h = Ok None ?h"
    using walk_ring(1)[of ?h xs "\<lambda>x. b_dev x = 1 \<and> b_blockno x = n"] xs f by simp
  have "b_refcnt (bufs s i) = 0 \<longleftrightarrow> i \<notin> H" if "i < NBUF" for i
    using cache_okD(4)[OF ok that] by (auto simp: slot_ok_def Let_def split: if_splits)
  then have g: "find (\<lambda>i. b_refcnt (bufs s i) = 0 \<and> b_flags (bufs s i) AND B_DIRTY = 0) (rev xs) = None"
    using a xs(2) by (auto simp: find_None_iff dirty_def)
  have v: "walk b_prev (\<lambda>x. b_refcnt x = 0 \<and> b_flags x AND B_DIRTY = 0) (Suc NBUF) (b_prev (bufs s NBUF)) ?h = Ok None ?h"
    using walk_ring(2)[of ?h xs "\<lambda>x. b_refcnt x = 0 \<and> b_flags x AND B_DIRTY = 0"] xs g by simp
  have "bget 1 n s = Panic ''bget: no buffers''"
    unfolding bget_def using p w v by (simp add: buf_runs del: walk.simps)
  then show ?thesis by (simp add: bread_def bnd_def)
qed

text \<open>A cache without any block, on a disk of 1000 empty blocks, for the examples.\<close>

definition cold_buf :: "nat \<Rightarrow> buf" where
  "cold_buf i = \<lparr>b_flags = 0, b_dev = 0, b_blockno = 0, b_refcnt = 0,
     b_prev = (if i = 0 then NBUF else i - 1), b_next = (if i = NBUF then 0 else i + 1), b_data = replicate 512 0\<rparr>"

definition demo_bst :: bst where
  "demo_bst = slst.extend (pst.extend (boot_pst\<lparr>curproc := Some 0\<rparr>)
       \<lparr>slocks = (\<lambda>_. \<lparr>sl_locked = False, sl_pid = 0\<rparr>)\<rparr>)
     \<lparr>bufs = cold_buf, memdisk = (\<lambda>_. replicate 512 0), disksize = 1000, dwrites = []\<rparr>"

lemma cold_ring: "ring cold_buf [0..<NBUF]"
  by (simp add: ring_def cold_buf_def NBUF_def upt_rec[of _ "numeral _"])

lemma cold_ok:
  assumes "held s = []" "curproc s = Some p" "bufs s = cold_buf" "\<forall>n. length (memdisk s n) = BSIZE"
    "\<forall>i. \<not> sl_locked (slocks s (BufSL i))"
  shows "cache_ok s {}" "\<not> cached_in s n i" "\<not> dirty (bufs s i)"
proof -
  show c: "\<not> cached_in s n i" for n i using assms(3) by (simp add: cached_in_def cold_buf_def)
  have "slot_ok s {} i" for i
    using assms by (simp add: slot_ok_def Let_def cold_buf_def BSIZE_def valid_def dirty_def)
  then show "cache_ok s {}"
    using c assms cold_ring by (auto simp: cache_ok_def BSIZE_def intro!: exI[of _ "[0..<NBUF]"])
  show "\<not> dirty (bufs s i)" using assms(3) by (simp add: cold_buf_def dirty_def)
qed

lemma demo_bst_ok: "cache_ok demo_bst {}" "\<not> cached_in demo_bst n i" "\<not> dirty (bufs demo_bst i)"
proof -
  have "held demo_bst = []" "curproc demo_bst = Some 0" "bufs demo_bst = cold_buf" "\<forall>n. length (memdisk demo_bst n) = BSIZE"
    "\<forall>i. \<not> sl_locked (slocks demo_bst (BufSL i))"
    by (simp_all add: demo_bst_def boot_pst_def pst.defs slst.defs BSIZE_def)
  from cold_ok[OF this] show "cache_ok demo_bst {}" "\<not> cached_in demo_bst n i" "\<not> dirty (bufs demo_bst i)" by blast+
qed

text \<open>C7. \<open>bread\<close>. When the block is on the disk and no buffer the process holds caches it, \<open>bread\<close>
  returns a buffer it did not hold, locked by it, with the contents of the block as the file system
  sees them, provided the block is cached or some buffer is neither held nor dirty; what other blocks
  contain, and the disk, stay the same. Without such a buffer it panics.\<close>

theorem bread_correct:
  assumes ok: "cache_ok s H" and n: "n < disksize s" and nH: "\<forall>i \<in> H. \<not> cached_in s (unat n) i"
  shows "if (\<exists>i. cached_in s (unat n) i) \<or> (\<exists>i<NBUF. i \<notin> H \<and> \<not> dirty (bufs s i))
    then wp (bread 1 n) (\<lambda>b t. b < NBUF \<and> b \<notin> H \<and> cache_ok t (insert b H) \<and> cached_in t (unat n) b \<and>
       b_data (bufs t b) = content s (unat n) \<and> content t = content s \<and> memdisk t = memdisk s) s
    else bread 1 n s = Panic ''bget: no buffers''"
proof (cases "(\<exists>i. cached_in s (unat n) i) \<or> (\<exists>i<NBUF. i \<notin> H \<and> \<not> dirty (bufs s i))")
  case True
  have "wp (bread 1 n) (\<lambda>b t. b < NBUF \<and> b \<notin> H \<and> cache_ok t (insert b H) \<and> cached_in t (unat n) b \<and>
       b_data (bufs t b) = content s (unat n) \<and> content t = content s \<and> memdisk t = memdisk s) s"
    by (rule wp_mono[OF bread_ok[OF ok n nH True]]) blast
  then show ?thesis using True by simp
next
  case False
  then have "bread 1 n s = Panic ''bget: no buffers''" by (intro bread_full[OF ok]) auto
  then show ?thesis unfolding if_not_P[OF False] .
qed

theorem bread_correct_witness:
  "wp (bread 1 7) (\<lambda>b t. cached_in t 7 b \<and> b_data (bufs t b) = replicate 512 0) demo_bst"
proof -
  have d: "(7::u32) < disksize demo_bst" "memdisk demo_bst 7 = replicate 512 0" by (simp_all add: demo_bst_def slst.defs)
  have a: "\<exists>i<NBUF. i \<notin> {} \<and> \<not> dirty (bufs demo_bst i)" using demo_bst_ok(3) by (auto simp: NBUF_def intro: exI[of _ 0])
  have "content demo_bst 7 = memdisk demo_bst 7" using content_disk demo_bst_ok(2) by blast
  then show ?thesis
    using bread_correct[OF demo_bst_ok(1) d(1)] a d(2) by (auto elim!: wp_mono)
qed

text \<open>C8. The recency list. On any state whose links represent a list \<open>xs\<close> of the buffers, the pointer
  surgery of \<open>brelse\<close> represents \<open>xs\<close> with the buffer moved to the front and changes nothing else, and
  the two walks of \<open>bget\<close> find the first buffer with the property from the front and from the back,
  without ever leaving the list.\<close>

theorem lru_refines:
  assumes r: "ring (bufs s) xs" and l: "length xs \<le> NBUF" and b: "b \<in> set xs"
  shows "(\<exists>B. to_front b s = Ok () (s\<lparr>bufs := B\<rparr>) \<and> ring B (b # remove1 b xs) \<and>
      (\<forall>i. payload (B i) = payload (bufs s i))) \<and>
    walk b_next P (Suc NBUF) (b_next (bufs s NBUF)) s = Ok (find (\<lambda>i. P (bufs s i)) xs) s \<and>
    walk b_prev P (Suc NBUF) (b_prev (bufs s NBUF)) s = Ok (find (\<lambda>i. P (bufs s i)) (rev xs)) s"
  using to_front_ring[OF r b] walk_ring[OF r l, of P] by simp

theorem lru_refines_witness:
  "\<exists>B. to_front 2 demo_bst = Ok () (demo_bst\<lparr>bufs := B\<rparr>) \<and> ring B (2 # remove1 2 [0..<NBUF])"
proof -
  have "ring (bufs demo_bst) [0..<NBUF]" using cold_ring by (simp add: demo_bst_def slst.defs)
  moreover have "length [0..<NBUF] \<le> NBUF" "2 \<in> set [0..<NBUF]" by (simp_all add: NBUF_def)
  ultimately show ?thesis using lru_refines[of demo_bst "[0..<NBUF]" 2] by blast
qed

end
