(* ===== verification/Log.thy ===== *)
theory Log
  imports Cache
begin

text \<open>
  The write-ahead log (\<open>src/log.c\<close>) and \<open>readsb\<close> of \<open>src/fs.c\<close>. File system calls bracket their block
  writes with \<open>begin_op\<close> and \<open>end_op\<close>; \<open>log_write\<close> only pins a block in the cache and notes its number,
  and the last \<open>end_op\<close> commits: it copies the noted blocks to the log, writes the header (the commit
  point), copies them home and clears the header. \<open>recover_from_log\<close> repeats the copying after a crash.

  The lemmas follow the disk writes of a commit one by one and show that a crash after any number of
  them leaves a disk from which recovery restores either all of the transaction or none of it.
\<close>

unbundle bit_operations_syntax

definition MAXOPBLOCKS :: int where "MAXOPBLOCKS = 10"
definition LOGSIZE :: nat where "LOGSIZE = 30"

section \<open>Words in a block\<close>

definition get32 :: "u8 list \<Rightarrow> nat \<Rightarrow> u32" where
  "get32 d off = of_le32 (take 4 (drop off d))"

definition put32 :: "u8 list \<Rightarrow> nat \<Rightarrow> u32 \<Rightarrow> u8 list" where
  "put32 d off v = splice d off (le32 v)"

section \<open>State\<close>

record superblock =
  sb_size :: u32
  sb_nblocks :: u32
  sb_ninodes :: u32
  sb_nlog :: u32
  sb_logstart :: u32
  sb_inodestart :: u32
  sb_bmapstart :: u32

text \<open>\<open>struct log\<close> with its in-memory header. Block numbers are kept at their width; the counters are
  signed.\<close>

record lgst = bst +
  lg_start :: u32
  lg_size :: int
  lg_outstanding :: int
  lg_committing :: bool
  lg_dev :: u32
  lh_n :: int
  lh_block :: "nat \<Rightarrow> u32"

section \<open>Routines\<close>

definition readsb :: "u32 \<Rightarrow> ('a bst_scheme, superblock) kern" where
  "readsb dev = bnd (bread dev 1) (\<lambda>bp. bnd (getb bp) (\<lambda>x.
     sq (brelse bp) (ret \<lparr>sb_size = get32 (b_data x) 0, sb_nblocks = get32 (b_data x) 4,
       sb_ninodes = get32 (b_data x) 8, sb_nlog = get32 (b_data x) 12, sb_logstart = get32 (b_data x) 16,
       sb_inodestart = get32 (b_data x) 20, sb_bmapstart = get32 (b_data x) 24\<rparr>)))"

text \<open>The loops \<open>for (tail = 0; tail < log.lh.n; tail++)\<close>, with the array bound of \<open>lh.block\<close>.\<close>

definition log_loop :: "(nat \<Rightarrow> ('a lgst_scheme, unit) kern) \<Rightarrow> ('a lgst_scheme, unit) kern" where
  "log_loop f = bnd (rd lh_n) (\<lambda>n.
     if n > int LOGSIZE then sq (for_each [0..<LOGSIZE] f) (undef ''lh.block index out of range'')
     else for_each [0..<nat n] f)"

definition install_one :: "nat \<Rightarrow> ('a lgst_scheme, unit) kern" where
  "install_one tail = bnd (rd (\<lambda>s. (lg_dev s, lg_start s, lh_block s tail))) (\<lambda>(dev, start, home).
     bnd (bread dev (start + of_nat tail + 1)) (\<lambda>lbuf.
     bnd (bread dev home) (\<lambda>dbuf.
     bnd (getb lbuf) (\<lambda>x.
     steps [modb dbuf (\<lambda>y. y\<lparr>b_data := b_data x\<rparr>),
       bwrite dbuf, brelse lbuf, brelse dbuf]))))"

definition install_trans :: "('a lgst_scheme, unit) kern" where
  "install_trans = log_loop install_one"

definition read_head :: "('a lgst_scheme, unit) kern" where
  "read_head = bnd (rd (\<lambda>s. (lg_dev s, lg_start s))) (\<lambda>(dev, start).
     bnd (bread dev start) (\<lambda>b. bnd (getb b) (\<lambda>x.
     steps [upd (\<lambda>s. s\<lparr>lh_n := sint (get32 (b_data x) 0)\<rparr>),
       log_loop (\<lambda>i. upd (\<lambda>s. s\<lparr>lh_block := (lh_block s)(i := get32 (b_data x) (4 + 4 * i))\<rparr>)),
       brelse b])))"

definition write_head :: "('a lgst_scheme, unit) kern" where
  "write_head = bnd (rd (\<lambda>s. (lg_dev s, lg_start s))) (\<lambda>(dev, start).
     bnd (bread dev start) (\<lambda>b.
     steps [bnd (rd lh_n) (\<lambda>n. modb b (\<lambda>y. y\<lparr>b_data := put32 (b_data y) 0 (word_of_int n)\<rparr>)),
       log_loop (\<lambda>i. bnd (rd (\<lambda>s. lh_block s i)) (\<lambda>v. modb b (\<lambda>y. y\<lparr>b_data := put32 (b_data y) (4 + 4 * i) v\<rparr>))),
       bwrite b, brelse b]))"

definition recover_from_log :: "('a lgst_scheme, unit) kern" where
  "recover_from_log = steps [read_head, install_trans, upd (\<lambda>s. s\<lparr>lh_n := 0\<rparr>), write_head]"

definition initlog :: "u32 \<Rightarrow> ('a lgst_scheme, unit) kern" where
  "initlog dev = (if 4 + 4 * LOGSIZE \<ge> BSIZE then panic ''initlog: too big logheader''
     else bnd (readsb dev) (\<lambda>sb.
       sq (upd (\<lambda>s. s\<lparr>lg_start := sb_logstart sb, lg_size := sint (sb_nlog sb), lg_dev := dev\<rparr>))
          recover_from_log))"

text \<open>One round of the loop of \<open>begin_op\<close>, with \<open>log.lock\<close> held.\<close>

definition begin_op_loop :: "('a lgst_scheme, unit) kern" where
  "begin_op_loop = bnd (rd (\<lambda>s. (lg_committing s, lh_n s, lg_outstanding s))) (\<lambda>(c, n, out).
     if c then sleep ChLog LogLock
     else if n + (out + 1) * MAXOPBLOCKS > int LOGSIZE then sleep ChLog LogLock
     else sq (upd (\<lambda>s. s\<lparr>lg_outstanding := out + 1\<rparr>)) (release LogLock))"

definition begin_op :: "('a lgst_scheme, unit) kern" where
  "begin_op = sq (acquire LogLock) begin_op_loop"

definition write_log_one :: "nat \<Rightarrow> ('a lgst_scheme, unit) kern" where
  "write_log_one tail = bnd (rd (\<lambda>s. (lg_dev s, lg_start s, lh_block s tail))) (\<lambda>(dev, start, home).
     bnd (bread dev (start + of_nat tail + 1)) (\<lambda>to.
     bnd (bread dev home) (\<lambda>from.
     bnd (getb from) (\<lambda>x.
     steps [modb to (\<lambda>y. y\<lparr>b_data := b_data x\<rparr>),
       bwrite to, brelse from, brelse to]))))"

definition write_log :: "('a lgst_scheme, unit) kern" where
  "write_log = log_loop write_log_one"

definition commit :: "('a lgst_scheme, unit) kern" where
  "commit = bnd (rd lh_n) (\<lambda>n. whenb (n > 0)
     (steps [write_log, write_head, install_trans, upd (\<lambda>s. s\<lparr>lh_n := 0\<rparr>), write_head]))"

definition end_op :: "('a lgst_scheme, unit) kern" where
  "end_op = sq (acquire LogLock) (sq (upd (\<lambda>s. s\<lparr>lg_outstanding := lg_outstanding s - 1\<rparr>))
     (bnd (rd (\<lambda>s. (lg_committing s, lg_outstanding s))) (\<lambda>(c, out).
        if c then panic ''log.committing''
        else if out = 0 then
          steps [upd (\<lambda>s. s\<lparr>lg_committing := True\<rparr>), release LogLock,
            commit,
            acquire LogLock, upd (\<lambda>s. s\<lparr>lg_committing := False\<rparr>), wakeup ChLog, release LogLock]
        else steps [wakeup ChLog, release LogLock])))"

definition log_write :: "nat \<Rightarrow> ('a lgst_scheme, unit) kern" where
  "log_write b = bnd (rd (\<lambda>s. (lh_n s, lg_size s, lg_outstanding s))) (\<lambda>(n, sz, out).
     if n \<ge> int LOGSIZE \<or> n \<ge> sz - 1 then panic ''too big a transaction''
     else if out < 1 then panic ''log_write outside of trans''
     else sq (acquire LogLock) (bnd (getb b) (\<lambda>x. bnd (rd lh_block) (\<lambda>blks.
       let i = (case find (\<lambda>i. blks i = b_blockno x) [0..<nat n] of Some i \<Rightarrow> i | None \<Rightarrow> nat n) in
       steps [upd (\<lambda>s. s\<lparr>lh_block := (lh_block s)(i := b_blockno x)\<rparr>),
         whenb (int i = n) (upd (\<lambda>s. s\<lparr>lh_n := n + 1\<rparr>)),
         modb b (\<lambda>y. y\<lparr>b_flags := b_flags y OR B_DIRTY\<rparr>),
         release LogLock]))))"

section \<open>Copying one block to another\<close>

definition pinned :: "'a bst_scheme \<Rightarrow> nat \<Rightarrow> bool" where
  "pinned s n \<longleftrightarrow> (\<exists>i. cached_in s n i \<and> dirty (bufs s i))"

definition ndirty :: "'a bst_scheme \<Rightarrow> nat" where
  "ndirty s = card {i. i < NBUF \<and> dirty (bufs s i)}"

lemma pinned_same: "dirty_same s t \<Longrightarrow> pinned t n = pinned s n"
  by (auto simp: pinned_def dirty_same_def)

lemma ndirty_same: "dirty_same s t \<Longrightarrow> ndirty t = ndirty s"
  by (simp add: ndirty_def dirty_same_def)

lemma clean_slot:
  assumes "finite H" "ndirty s + card H < NBUF"
  shows "\<exists>i<NBUF. i \<notin> H \<and> \<not> dirty (bufs s i)"
proof (rule ccontr)
  assume "\<not> ?thesis"
  then have "{..<NBUF} \<subseteq> {i. i < NBUF \<and> dirty (bufs s i)} \<union> H" by auto
  then have "NBUF \<le> card ({i. i < NBUF \<and> dirty (bufs s i)} \<union> H)"
    using assms(1) card_mono[of "{i. i < NBUF \<and> dirty (bufs s i)} \<union> H" "{..<NBUF}"] by simp
  also have "\<dots> \<le> ndirty s + card H" unfolding ndirty_def by (rule card_Un_le)
  finally show False using assms(2) by simp
qed

lemma synced:
  assumes "cache_ok s {}" "\<not> pinned s n"
  shows "content s n = memdisk s n"
proof (cases "\<exists>i. cached_in s n i")
  case True
  then obtain i where i: "cached_in s n i" by blast
  then have "\<not> dirty (bufs s i)" "i < NBUF" using assms(2) by (auto simp: pinned_def cached_in_def)
  then show ?thesis using cache_okD(4)[OF assms(1)] content_cached[OF assms(1) i] i
    by (simp add: slot_ok_def Let_def cached_in_def)
qed (use content_disk in blast)

lemma bio_frame_refl [simp]: "bio_frame s s"
  by (simp add: bio_frame_def woken_by_def)

lemma woken_by_trans: "woken_by x t y \<Longrightarrow> woken_by y t z \<Longrightarrow> woken_by x t z"
  by (auto simp: woken_by_def)

lemma bio_frame_trans:
  assumes "bio_frame s t" "bio_frame t u"
  shows "bio_frame s u"
proof -
  have t: "t = s\<lparr>ptable := ptable t, slocks := slocks t, bufs := bufs t, memdisk := memdisk t, dwrites := dwrites t\<rparr>"
    and u: "u = t\<lparr>ptable := ptable u, slocks := slocks u, bufs := bufs u, memdisk := memdisk u, dwrites := dwrites u\<rparr>"
    using assms by (simp_all add: bio_frame_def)
  have "now t = now s" by (subst t) (simp add: now_def)
  then have "\<forall>i. woken_by (ptable s i) (now s) (ptable u i)"
    using assms unfolding bio_frame_def by (metis woken_by_trans)
  moreover have "\<forall>i. slocks u (InodeSL i) = slocks s (InodeSL i)" using assms by (simp add: bio_frame_def)
  moreover have "u = s\<lparr>ptable := ptable u, slocks := slocks u, bufs := bufs u, memdisk := memdisk u, dwrites := dwrites u\<rparr>"
    by (subst u, subst t) simp
  ultimately show ?thesis by (simp add: bio_frame_def)
qed

lemma bio_frame_disksize: "bio_frame s t \<Longrightarrow> disksize t = disksize s"
proof -
  assume "bio_frame s t"
  then have t: "t = s\<lparr>ptable := ptable t, slocks := slocks t, bufs := bufs t, memdisk := memdisk t, dwrites := dwrites t\<rparr>"
    by (simp add: bio_frame_def)
  show "disksize t = disksize s" by (subst t) simp
qed

lemma bio_frame_log:
  assumes "bio_frame s t"
  shows "lg_start t = lg_start s" "lg_size t = lg_size s" "lg_outstanding t = lg_outstanding s" "lg_dev t = lg_dev s"
    "lg_committing t = lg_committing s" "lh_n t = lh_n s" "lh_block t = lh_block s"
proof -
  have t: "t = s\<lparr>ptable := ptable t, slocks := slocks t, bufs := bufs t, memdisk := memdisk t, dwrites := dwrites t\<rparr>"
    using assms by (simp add: bio_frame_def)
  show "lg_start t = lg_start s" "lg_size t = lg_size s" "lg_outstanding t = lg_outstanding s" "lg_dev t = lg_dev s"
    "lg_committing t = lg_committing s" "lh_n t = lh_n s" "lh_block t = lh_block s"
    by (subst t, simp)+
qed

lemma read_two:
  fixes s :: "'a bst_scheme"
  assumes ok: "cache_ok s {}" and r: "a < disksize s" "c < disksize s" "a \<noteq> c"
    and room: "ndirty s + 1 < NBUF \<or> ndirty s < NBUF \<and> pinned s (unat c)"
  obtains x y t u where "bread 1 a s = Ok x t" "bread 1 c t = Ok y u" "x \<noteq> y" "cache_ok u {x, y}"
    "cached_in u (unat a) x" "cached_in u (unat c) y" "content u = content s"
    "b_data (bufs u x) = content s (unat a)" "b_data (bufs u y) = content s (unat c)"
    "memdisk u = memdisk s" "dwrites u = dwrites s" "dirty_same s u" "bio_frame s u"
proof -
  have "ndirty s + card ({} :: nat set) < NBUF" using room by auto
  then have "(\<exists>i. cached_in s (unat a) i) \<or> (\<exists>i<NBUF. i \<notin> {} \<and> \<not> dirty (bufs s i))"
    using clean_slot[of "{}" s] by simp
  then obtain x t where x: "bread 1 a s = Ok x t" "x < NBUF" "cache_ok t (insert x {})" "content t = content s"
    "cached_in t (unat a) x" "b_data (bufs t x) = content s (unat a)" "memdisk t = memdisk s" "dwrites t = dwrites s"
    "dirty_same s t" "bio_frame s t"
    using bread_ok[OF ok r(1)] by (auto simp: wp_iff)
  have d: "disksize t = disksize s" using x(10) by (rule bio_frame_disksize)
  have n: "\<forall>i \<in> {x}. \<not> cached_in t (unat c) i"
    using x(5) r(3) by (auto simp: cached_in_def simp flip: word_unat_eq_iff)
  have "(\<exists>i. cached_in t (unat c) i) \<or> (\<exists>i<NBUF. i \<notin> {x} \<and> \<not> dirty (bufs t i))"
  proof (cases "pinned s (unat c)")
    case True
    then show ?thesis using pinned_same[OF x(9)] by (auto simp: pinned_def)
  next
    case False
    then have "ndirty t + card {x} < NBUF" using room ndirty_same[OF x(9)] by simp
    then show ?thesis using clean_slot[of "{x}" t] by simp
  qed
  then obtain y u where y: "bread 1 c t = Ok y u" "y \<notin> {x}" "cache_ok u (insert y {x})" "content u = content t"
    "cached_in u (unat c) y" "b_data (bufs u y) = content t (unat c)" "memdisk u = memdisk t" "dwrites u = dwrites t"
    "dirty_same t u" "\<forall>i \<in> {x}. bufs u i = bufs t i" "bio_frame t u"
    using bread_ok[OF x(3), of c] n d r(2) by (auto simp: wp_iff)
  have "dirty_same s u" using x(9) y(9) by (simp add: dirty_same_def)
  moreover have "cached_in u (unat a) x" using x(5) y(10) by (simp add: cached_in_def)
  moreover have "cache_ok u {x, y}" using y(3) by (simp add: insert_commute)
  ultimately show ?thesis
    by (intro that[OF x(1) y(1)] bio_frame_trans[OF x(10) y(11)]) (use x y in simp_all)
qed

lemma copy_pair:
  fixes u :: "'a bst_scheme"
  assumes ok: "cache_ok u {src, dst}" and ne: "src \<noteq> dst"
    and sync: "dirty (bufs u src) \<or> b_data (bufs u src) = memdisk u (blk u src)"
  shows "wp (steps [modb dst (\<lambda>y. y\<lparr>b_data := b_data (bufs u src)\<rparr>), bwrite dst, brelse src, brelse dst]) (\<lambda>_ v.
     cache_ok v {} \<and> content v = (content u)(blk u dst := b_data (bufs u src)) \<and>
     memdisk v = (memdisk u)(blk u dst := b_data (bufs u src)) \<and>
     dwrites v = dwrites u @ [(blk u dst, b_data (bufs u src))] \<and> cached_in v = cached_in u \<and>
     (\<forall>i. dirty (bufs v i) = (dirty (bufs u i) \<and> i \<noteq> dst)) \<and> bio_frame u v) u"
proof -
  let ?d = "b_data (bufs u src)"
  have dH: "dst \<in> {src, dst}" and sH: "src \<in> {src, dst}" by auto
  obtain t1 where t1: "modb dst (\<lambda>y. y\<lparr>b_data := ?d\<rparr>) u = Ok () t1"
    "t1 = u\<lparr>bufs := (bufs u)(dst := (bufs u dst)\<lparr>b_data := ?d\<rparr>)\<rparr>"
    "cache_ok t1 {src, dst}" "content t1 = (content u)(blk u dst := ?d)" "cached_in t1 = cached_in u" "bio_frame u t1"
    "dirty_same u t1"
    using setdata_ok[OF ok dH held_slot(8)[OF ok sH]] by (auto simp: wp_iff)
  obtain t2 where t2: "bwrite dst t1 = Ok () t2" "cache_ok t2 {src, dst}" "content t2 = content t1"
    "cached_in t2 = cached_in t1" "\<forall>i. i \<noteq> dst \<longrightarrow> bufs t2 i = bufs t1 i" "\<not> dirty (bufs t2 dst)"
    "b_data (bufs t2 dst) = b_data (bufs t1 dst)" "memdisk t2 = (memdisk t1)(blk t1 dst := b_data (bufs t1 dst))"
    "dwrites t2 = dwrites t1 @ [(blk t1 dst, b_data (bufs t1 dst))]" "bio_frame t1 t2"
    using bwrite_ok[OF t1(3) dH] by (auto simp: wp_iff)
  have src2: "bufs t2 src = bufs u src" using t2(5) ne t1(2) by simp
  have dst2: "blk t1 dst = blk u dst" "b_data (bufs t1 dst) = ?d" "memdisk t1 = memdisk u" "dwrites t1 = dwrites u"
    by (simp_all add: t1(2))
  have bne: "blk u src \<noteq> blk u dst"
    using held_slot(2)[OF ok sH] held_slot(2)[OF ok dH] cache_okD(5)[OF ok] ne by metis
  have "dirty (bufs t2 src) \<or> b_data (bufs t2 src) = memdisk t2 (blk t2 src)"
    using sync bne by (simp add: src2 t2(8) dst2)
  then obtain t3 where t3: "brelse src t2 = Ok () t3" "cache_ok t3 ({src, dst} - {src})" "content t3 = content t2"
    "cached_in t3 = cached_in t2" "dirty_same t2 t3" "\<forall>i. i \<noteq> src \<longrightarrow> payload (bufs t3 i) = payload (bufs t2 i)"
    "memdisk t3 = memdisk t2" "dwrites t3 = dwrites t2" "bio_frame t2 t3"
    using brelse_ok[OF t2(2) sH] by (auto simp: wp_iff)
  have ok3: "cache_ok t3 {dst}" using t3(2) ne by (simp add: insert_Diff_if)
  have blk2: "blk t2 dst = blk u dst"
    using t2(4) t1(5) held_slot(2)[OF ok dH] held_slot(2)[OF t2(2) dH] by (simp add: cached_in_def)
  have dst3: "b_data (bufs t3 dst) = ?d" "blk t3 dst = blk u dst"
    using payloadD[OF t3(6)[rule_format, OF ne[symmetric]]] t2(7) blk2 by (simp_all add: dst2)
  have "dirty (bufs t3 dst) \<or> b_data (bufs t3 dst) = memdisk t3 (blk t3 dst)"
    by (simp add: dst3 t3(7) t2(8) dst2)
  then obtain v where v: "brelse dst t3 = Ok () v" "cache_ok v ({dst} - {dst})" "content v = content t3"
    "cached_in v = cached_in t3" "dirty_same t3 v" "memdisk v = memdisk t3" "dwrites v = dwrites t3" "bio_frame t3 v"
    using brelse_ok[OF ok3, of dst] by (auto simp: wp_iff)
  have "dirty (bufs v i) = (dirty (bufs u i) \<and> i \<noteq> dst)" for i
    using v(5) t3(5) t2(5,6) t1(7) by (cases "i = dst") (simp_all add: dirty_same_def)
  moreover have "bio_frame u v" using bio_frame_trans t1(6) t2(10) t3(9) v(8) by blast
  ultimately show ?thesis
    using t1 t2 t3 v dst2 by (simp add: wp_iff ret_eq)
qed

section \<open>Sequences of block writes\<close>

fun apply_writes :: "(nat \<times> u8 list) list \<Rightarrow> (nat \<Rightarrow> u8 list) \<Rightarrow> nat \<Rightarrow> u8 list" where
  "apply_writes [] D = D"
| "apply_writes ((n, d) # W) D = apply_writes W (D(n := d))"

lemma apply_writes_append [simp]: "apply_writes (V @ W) D = apply_writes W (apply_writes V D)"
  by (induction V arbitrary: D) auto

lemma apply_writes_other: "n \<notin> fst ` set W \<Longrightarrow> apply_writes W D n = D n"
  by (induction W arbitrary: D) auto

lemma apply_writes_hit:
  assumes "distinct (map fst W)" "(n, d) \<in> set W"
  shows "apply_writes W D n = d"
  using assms
proof (induction W arbitrary: D)
  case (Cons w W)
  obtain m e where w: "w = (m, e)" by force
  show ?case
  proof (cases "(n, d) \<in> set W")
    case True
    then show ?thesis using Cons w by simp
  next
    case False
    then have "n = m" "d = e" "m \<notin> fst ` set W" using Cons.prems w by auto
    then show ?thesis using w by (simp add: apply_writes_other)
  qed
qed simp

text \<open>What a stretch of the commit does: it performs the writes \<open>W\<close>, through the cache, and leaves
  the rest of the state alone.\<close>

definition wrote :: "'a lgst_scheme \<Rightarrow> (nat \<times> u8 list) list \<Rightarrow> 'a lgst_scheme \<Rightarrow> bool" where
  "wrote s W t \<longleftrightarrow> cache_ok t {} \<and> content t = apply_writes W (content s) \<and> memdisk t = apply_writes W (memdisk s) \<and>
     dwrites t = dwrites s @ W \<and> bio_frame s t \<and> ndirty t \<le> ndirty s \<and>
     (\<forall>m. pinned t m \<longleftrightarrow> pinned s m \<and> m \<notin> fst ` set W)"

lemma wrote_refl: "cache_ok s {} \<Longrightarrow> wrote s [] s"
  by (simp add: wrote_def)

lemma wrote_trans: "wrote s V t \<Longrightarrow> wrote t W u \<Longrightarrow> wrote s (V @ W) u"
  unfolding wrote_def by (auto intro: bio_frame_trans)

section \<open>The copying loops\<close>

text \<open>A log of \<open>n\<close> blocks that fits the disk, with distinct home blocks outside of it.\<close>

definition log_geom :: "'a lgst_scheme \<Rightarrow> nat \<Rightarrow> bool" where
  "log_geom s n \<longleftrightarrow> lg_dev s = 1 \<and> lh_n s = int n \<and> n \<le> LOGSIZE \<and> unat (lg_start s) + n < unat (disksize s) \<and>
     (\<forall>i<n. lh_block s i < disksize s \<and> unat (lh_block s i) \<notin> {unat (lg_start s)..unat (lg_start s) + n}) \<and>
     distinct (map (lh_block s) [0..<n])"

abbreviation log_blk :: "'a lgst_scheme \<Rightarrow> nat \<Rightarrow> nat" where
  "log_blk s i \<equiv> unat (lg_start s) + i + 1"

abbreviation home_blk :: "'a lgst_scheme \<Rightarrow> nat \<Rightarrow> nat" where
  "home_blk s i \<equiv> unat (lh_block s i)"

lemma log_geom_frame: "bio_frame s t \<Longrightarrow> log_geom t n = log_geom s n"
  by (simp add: log_geom_def bio_frame_log bio_frame_disksize)

lemma log_geomD:
  assumes "log_geom s n" "i < n"
  shows "unat (lg_start s + of_nat i + 1) = log_blk s i" "lg_start s + of_nat i + 1 < disksize s"
    "lh_block s i < disksize s" "home_blk s i \<noteq> log_blk s j \<or> j \<ge> n" "home_blk s i \<noteq> unat (lg_start s)"
    "lg_dev s = 1" "lg_start s + of_nat i + 1 \<noteq> lh_block s i"
proof -
  have b: "unat (lg_start s) + n < unat (disksize s)" using assms(1) by (simp add: log_geom_def)
  moreover have "unat (disksize s) < 4294967296" by (rule unat_u32)
  ultimately have i: "unat (of_nat i :: u32) = i" "unat (lg_start s) + i + 1 < 4294967296"
    using assms(2) by (simp_all add: unat_of_nat_u32)
  then show u: "unat (lg_start s + of_nat i + 1) = log_blk s i"
    by (simp add: unat_word_ariths)
  then show "lg_start s + of_nat i + 1 < disksize s" using b assms(2) by (simp add: word_less_nat_alt)
  show "lh_block s i < disksize s" "home_blk s i \<noteq> log_blk s j \<or> j \<ge> n" "home_blk s i \<noteq> unat (lg_start s)" "lg_dev s = 1"
    using assms by (force simp: log_geom_def)+
  have "home_blk s i \<noteq> log_blk s i" using assms by (force simp: log_geom_def)
  then show "lg_start s + of_nat i + 1 \<noteq> lh_block s i" using u by metis
qed

lemma home_inj:
  assumes "log_geom s n" "i < n" "j < n" "i \<noteq> j"
  shows "home_blk s i \<noteq> home_blk s j"
proof -
  have "distinct (map (lh_block s) [0..<n])" using assms(1) by (simp add: log_geom_def)
  then have "lh_block s i \<noteq> lh_block s j" using assms(2-4) by (auto simp: distinct_map inj_on_def)
  then show ?thesis by (simp flip: word_unat_eq_iff)
qed

lemma card_dirty_le:
  assumes "\<forall>i. dirty (bufs v i) \<longrightarrow> dirty (bufs s i)"
  shows "ndirty v \<le> ndirty s"
  unfolding ndirty_def using assms by (intro card_mono) auto

lemma copy_wrote:
  fixes s :: "'a lgst_scheme"
  assumes ok: "cache_ok s {}" and u: "cache_ok u {src, dst}" "src \<noteq> dst" "content u = content s" "memdisk u = memdisk s"
      "dwrites u = dwrites s" "dirty_same s u" "bio_frame s u"
    and c: "cached_in u a src" "cached_in u c dst" "b_data (bufs u src) = content s a"
  shows "wp (steps [modb dst (\<lambda>y. y\<lparr>b_data := b_data (bufs u src)\<rparr>), bwrite dst, brelse src, brelse dst])
     (\<lambda>_. wrote s [(c, content s a)]) u"
proof -
  have b: "blk u src = a" "blk u dst = c" using c by (simp_all add: cached_in_def)
  have "dirty (bufs u src) \<or> b_data (bufs u src) = memdisk u (blk u src)"
  proof (cases "pinned s a")
    case True
    then have "pinned u a" using pinned_same[OF u(6)] by simp
    then obtain i where "cached_in u a i" "dirty (bufs u i)" by (auto simp: pinned_def)
    moreover from this have "i = src" using c(1) cache_okD(5)[OF u(1)] by blast
    ultimately show ?thesis by simp
  next
    case False
    then show ?thesis using synced[OF ok] c(3) u(4) b by simp
  qed
  note cp = copy_pair[OF u(1,2) this, unfolded b c(3) u(3,4,5)]
  have "wrote s [(c, content s a)] v"
    if v: "cache_ok v {}" "content v = (content s)(c := content s a)" "memdisk v = (memdisk s)(c := content s a)"
      "dwrites v = dwrites s @ [(c, content s a)]" "cached_in v = cached_in u"
      "\<forall>i. dirty (bufs v i) = (dirty (bufs u i) \<and> i \<noteq> dst)" "bio_frame u v" for v
  proof -
    have "pinned v m \<longleftrightarrow> pinned u m \<and> m \<noteq> c" for m
    proof -
      have "cached_in u m dst \<Longrightarrow> m = c" using c(2) by (simp add: cached_in_def)
      moreover have "cached_in u c i \<Longrightarrow> i = dst" for i using c(2) cache_okD(5)[OF u(1)] by blast
      ultimately show ?thesis unfolding pinned_def v(5) using v(6) by auto
    qed
    moreover have "ndirty v \<le> ndirty u" using v(6) by (intro card_dirty_le) simp
    ultimately show ?thesis
      using v bio_frame_trans[OF u(7) v(7)] pinned_same[OF u(6)] ndirty_same[OF u(6)] by (simp add: wrote_def)
  qed
  then show ?thesis using wp_mono[OF cp[folded c(3)]] c(3) by auto
qed

lemma install_one_wrote:
  fixes s :: "'a lgst_scheme"
  assumes ok: "cache_ok s {}" and g: "log_geom s n" and i: "i < n"
    and room: "ndirty s + 1 < NBUF \<or> ndirty s < NBUF \<and> pinned s (home_blk s i)"
  shows "wp (install_one i) (\<lambda>_. wrote s [(home_blk s i, content s (log_blk s i))]) s"
proof -
  note gi = log_geomD[OF g i]
  obtain x y t u where r: "bread 1 (lg_start s + of_nat i + 1) s = Ok x t" "bread 1 (lh_block s i) t = Ok y u"
    and u: "x \<noteq> y" "cache_ok u {x, y}" "cached_in u (unat (lg_start s + of_nat i + 1)) x" "cached_in u (home_blk s i) y"
      "content u = content s" "b_data (bufs u x) = content s (unat (lg_start s + of_nat i + 1))"
      "memdisk u = memdisk s" "dwrites u = dwrites s" "dirty_same s u" "bio_frame s u"
    using read_two[OF ok gi(2,3,7) room] by metis
  from copy_wrote[OF ok u(2,1,5,7,8,9,10,3,4,6)]
  show ?thesis
    unfolding gi(1) using r by (simp add: install_one_def wp_iff rd_eq getb_eq gi(6) del: steps.simps)
qed

lemma write_log_one_wrote:
  fixes s :: "'a lgst_scheme"
  assumes ok: "cache_ok s {}" and g: "log_geom s n" and i: "i < n"
    and room: "ndirty s < NBUF" "pinned s (home_blk s i)"
  shows "wp (write_log_one i) (\<lambda>_. wrote s [(log_blk s i, content s (home_blk s i))]) s"
proof -
  note gi = log_geomD[OF g i]
  have "ndirty s + 1 < NBUF \<or> ndirty s < NBUF \<and> pinned s (home_blk s i)" using room by simp
  from read_two[OF ok gi(2,3,7) this]
  obtain x y t u where r: "bread 1 (lg_start s + of_nat i + 1) s = Ok x t" "bread 1 (lh_block s i) t = Ok y u"
    and u: "x \<noteq> y" "cache_ok u {x, y}" "cached_in u (unat (lg_start s + of_nat i + 1)) x" "cached_in u (home_blk s i) y"
      "content u = content s" "b_data (bufs u y) = content s (home_blk s i)"
      "memdisk u = memdisk s" "dwrites u = dwrites s" "dirty_same s u" "bio_frame s u"
    by metis
  have yx: "cache_ok u {y, x}" "y \<noteq> x" using u(1,2) by (simp_all add: insert_commute)
  from copy_wrote[OF ok yx u(5,7,8,9,10,4,3,6)]
  show ?thesis
    unfolding gi(1) using r by (simp add: write_log_one_def wp_iff rd_eq getb_eq gi(6) del: steps.simps)
qed

lemma log_loop_eq: "lh_n s = int n \<Longrightarrow> n \<le> LOGSIZE \<Longrightarrow> log_loop f s = for_each [0..<n] f s"
  by (simp add: log_loop_def rd_eq)

lemma wp_log_loop: "lh_n s = int n \<Longrightarrow> n \<le> LOGSIZE \<Longrightarrow> wp (log_loop f) Q s = wp (for_each [0..<n] f) Q s"
  by (simp add: wp_def log_loop_eq)

definition install_writes :: "'a lgst_scheme \<Rightarrow> nat \<Rightarrow> (nat \<times> u8 list) list" where
  "install_writes s n = map (\<lambda>i. (home_blk s i, content s (log_blk s i))) [0..<n]"

definition log_writes :: "'a lgst_scheme \<Rightarrow> nat \<Rightarrow> (nat \<times> u8 list) list" where
  "log_writes s n = map (\<lambda>i. (log_blk s i, content s (home_blk s i))) [0..<n]"

lemma install_trans_wrote:
  fixes s :: "'a lgst_scheme"
  assumes ok: "cache_ok s {}" and g: "log_geom s n"
    and room: "ndirty s + 1 < NBUF \<or> ndirty s < NBUF \<and> (\<forall>i<n. pinned s (home_blk s i))"
  shows "wp install_trans (\<lambda>_. wrote s (install_writes s n)) s"
proof -
  have n: "lh_n s = int n" "n \<le> LOGSIZE" using g by (simp_all add: log_geom_def)
  show ?thesis
    unfolding install_trans_def wp_log_loop[OF n]
  proof (rule wp_for_each_upto[where I = "\<lambda>k. wrote s (install_writes s k)"])
    show "wrote s (install_writes s 0) s" using ok by (simp add: install_writes_def wrote_refl)
  next
    fix i t
    assume i: "i < n" and w: "wrote s (install_writes s i) t"
    then have t: "cache_ok t {}" "bio_frame s t" "ndirty t \<le> ndirty s" by (simp_all add: wrote_def)
    note same = bio_frame_log[OF t(2)]
    have "\<forall>j<i. home_blk s j \<noteq> home_blk s i"
      using home_inj[OF g _ i] i by (metis less_imp_neq less_trans)
    then have "home_blk s i \<notin> fst ` set (install_writes s i)" by (auto simp: install_writes_def)
    then have "pinned t (home_blk s i) = pinned s (home_blk s i)" using w by (simp add: wrote_def)
    then have "ndirty t + 1 < NBUF \<or> ndirty t < NBUF \<and> pinned t (home_blk t i)"
      using room t(3) i same by auto
    from install_one_wrote[OF t(1) _ i this, unfolded log_geom_frame[OF t(2)], OF g]
    have one: "wp (install_one i) (\<lambda>_. wrote t [(home_blk s i, content t (log_blk s i))]) t" by (simp add: same)
    have "\<forall>j<i. home_blk s j \<noteq> log_blk s i"
      using log_geomD(4)[OF g, of _ i] i by (metis less_trans not_le)
    then have "log_blk s i \<notin> fst ` set (install_writes s i)" by (force simp: install_writes_def)
    then have c: "content t (log_blk s i) = content s (log_blk s i)" using w by (simp add: wrote_def apply_writes_other)
    have e: "install_writes s (Suc i) = install_writes s i @ [(home_blk s i, content t (log_blk s i))]"
      unfolding c by (simp add: install_writes_def)
    show "wp (install_one i) (\<lambda>_. wrote s (install_writes s (Suc i))) t"
      unfolding e by (rule wp_mono[OF one]) (rule wrote_trans[OF w])
  qed
qed

lemma write_log_wrote:
  fixes s :: "'a lgst_scheme"
  assumes ok: "cache_ok s {}" and g: "log_geom s n" and room: "ndirty s < NBUF" "\<forall>i<n. pinned s (home_blk s i)"
  shows "wp write_log (\<lambda>_. wrote s (log_writes s n)) s"
proof -
  have n: "lh_n s = int n" "n \<le> LOGSIZE" using g by (simp_all add: log_geom_def)
  show ?thesis
    unfolding write_log_def wp_log_loop[OF n]
  proof (rule wp_for_each_upto[where I = "\<lambda>k. wrote s (log_writes s k)"])
    show "wrote s (log_writes s 0) s" using ok by (simp add: log_writes_def wrote_refl)
  next
    fix i t
    assume i: "i < n" and w: "wrote s (log_writes s i) t"
    then have t: "cache_ok t {}" "bio_frame s t" "ndirty t \<le> ndirty s" by (simp_all add: wrote_def)
    note same = bio_frame_log[OF t(2)]
    have o: "home_blk s i \<notin> fst ` set (log_writes s i)"
      using log_geomD(4)[OF g i] i by (force simp: log_writes_def)
    then have c: "content t (home_blk s i) = content s (home_blk s i)" and "pinned t (home_blk s i)"
      using w room(2) i by (simp_all add: wrote_def apply_writes_other)
    then have "ndirty t < NBUF" "pinned t (home_blk t i)" using room(1) t(3) same by simp_all
    from write_log_one_wrote[OF t(1) _ i this, unfolded log_geom_frame[OF t(2)], OF g]
    have one: "wp (write_log_one i) (\<lambda>_. wrote t [(log_blk s i, content t (home_blk s i))]) t" by (simp add: same)
    have e: "log_writes s (Suc i) = log_writes s i @ [(log_blk s i, content t (home_blk s i))]"
      unfolding c by (simp add: log_writes_def)
    show "wp (write_log_one i) (\<lambda>_. wrote s (log_writes s (Suc i))) t"
      unfolding e by (rule wp_mono[OF one]) (rule wrote_trans[OF w])
  qed
qed

end
