(* ===== verification/Crash.thy ===== *)
theory Crash
  imports Log
begin

text \<open>
  Crash safety of the log of \<open>src/log.c\<close>: the disk writes of a whole commit, what recovery makes of
  the disk after any prefix of them, and that the outcome is all or nothing.
\<close>

section \<open>The header block\<close>

lemma length_put32 [simp]: "off + 4 \<le> length d \<Longrightarrow> length (put32 d off v) = length d"
  by (simp add: put32_def)

lemma get32_put32 [simp]: "off + 4 \<le> length d \<Longrightarrow> get32 (put32 d off v) off = v"
  using splice_read_back[of off "le32 v" d] by (simp add: get32_def put32_def)

lemma get32_put32_other:
  "off + 4 \<le> length d \<Longrightarrow> p + 4 \<le> length d \<Longrightarrow> p + 4 \<le> off \<or> off + 4 \<le> p \<Longrightarrow>
     get32 (put32 d off v) p = get32 d p"
  using splice_read_other[of off "le32 v" d p 4] by (simp add: get32_def put32_def)

definition hdr_data :: "u8 list \<Rightarrow> nat \<Rightarrow> (nat \<Rightarrow> u32) \<Rightarrow> u8 list" where
  "hdr_data d n bl = foldl (\<lambda>d i. put32 d (4 + 4 * i) (bl i)) (put32 d 0 (of_nat n)) [0..<n]"

lemma hdr_fold:
  fixes bl :: "nat \<Rightarrow> u32"
  assumes "4 + 4 * n \<le> length d" "4 \<le> length d"
  defines "h \<equiv> foldl (\<lambda>d i. put32 d (4 + 4 * i) (bl i)) d [0..<n]"
  shows "length h = length d \<and> get32 h 0 = get32 d 0 \<and> (\<forall>i<n. get32 h (4 + 4 * i) = bl i)"
  using assms(1,2) unfolding h_def
proof (induction n)
  case (Suc n)
  let ?h = "foldl (\<lambda>d i. put32 d (4 + 4 * i) (bl i)) d [0..<n]"
  have IH: "length ?h = length d" "get32 ?h 0 = get32 d 0" "\<forall>i<n. get32 ?h (4 + 4 * i) = bl i"
    using Suc by auto
  have "get32 (put32 ?h (4 + 4 * n) (bl n)) (4 + 4 * i) = bl i" if "i < Suc n" for i
  proof (cases "i = n")
    case True
    then show ?thesis using IH(1) Suc.prems by simp
  next
    case False
    then have "i < n" using that by simp
    then show ?thesis using IH Suc.prems by (subst get32_put32_other) auto
  qed
  then show ?case using IH Suc.prems by (simp add: get32_put32_other)
qed simp

lemma hdr_data_facts:
  assumes "4 + 4 * n \<le> length d"
  shows "length (hdr_data d n bl) = length d" "get32 (hdr_data d n bl) 0 = of_nat n"
    "i < n \<Longrightarrow> get32 (hdr_data d n bl) (4 + 4 * i) = bl i"
  using hdr_fold[of n "put32 d 0 (of_nat n)" bl] assms by (simp_all add: hdr_data_def)

text \<open>The log's own fields do not matter to the cache.\<close>

lemma cached_in_log [simp]:
  "cached_in (s\<lparr>lh_n := x\<rparr>) = cached_in s" "cached_in (s\<lparr>lh_block := y\<rparr>) = cached_in s"
  by (simp_all add: fun_eq_iff cached_in_def)

lemma cache_log [simp]:
  "cache_ok (s\<lparr>lh_n := x\<rparr>) H = cache_ok s H" "cache_ok (s\<lparr>lh_block := y\<rparr>) H = cache_ok s H"
  "content (s\<lparr>lh_n := x\<rparr>) = content s" "content (s\<lparr>lh_block := y\<rparr>) = content s"
  "ndirty (s\<lparr>lh_n := x\<rparr>) = ndirty s" "ndirty (s\<lparr>lh_block := y\<rparr>) = ndirty s"
  "pinned (s\<lparr>lh_n := x\<rparr>) = pinned s" "pinned (s\<lparr>lh_block := y\<rparr>) = pinned s"
  by (simp_all add: fun_eq_iff cache_ok_def slot_ok_def content_def ndirty_def pinned_def split: option.split)

text \<open>Reading one block, replacing its contents and writing it out.\<close>

lemma read_one:
  fixes s :: "'a lgst_scheme"
  assumes ok: "cache_ok s {}" and r: "a < disksize s" and room: "ndirty s < NBUF"
  obtains b t where "bread 1 a s = Ok b t" "cache_ok t {b}" "content t = content s" "cached_in t (unat a) b"
    "b_data (bufs t b) = content s (unat a)" "memdisk t = memdisk s" "dwrites t = dwrites s" "dirty_same s t" "bio_frame s t"
    "dirty (bufs t b) \<or> b_data (bufs t b) = memdisk t (blk t b)"
proof -
  have "ndirty s + card ({} :: nat set) < NBUF" using room by auto
  then have "(\<exists>i. cached_in s (unat a) i) \<or> (\<exists>i<NBUF. i \<notin> {} \<and> \<not> dirty (bufs s i))"
    using clean_slot[of "{}" s] by simp
  then obtain b t where b: "bread 1 a s = Ok b t" "cache_ok t (insert b {})" "content t = content s"
    "cached_in t (unat a) b" "b_data (bufs t b) = content s (unat a)" "memdisk t = memdisk s" "dwrites t = dwrites s"
    "dirty_same s t" "bio_frame s t"
    using bread_ok[OF ok r] by (auto simp: wp_iff)
  have "dirty (bufs t b) \<or> b_data (bufs t b) = memdisk t (blk t b)"
  proof (cases "pinned s (unat a)")
    case True
    then have "pinned t (unat a)" using pinned_same[OF b(8)] by simp
    then show ?thesis using b(4) cache_okD(5)[OF b(2)] by (auto simp: pinned_def)
  next
    case False
    then show ?thesis using synced[OF ok] b(4-6) by (simp add: cached_in_def)
  qed
  then show ?thesis using that b by simp
qed

lemma write_one:
  fixes s :: "'a lgst_scheme"
  assumes t: "cache_ok t {b}" "content t = content s" "cached_in t a b" "memdisk t = memdisk s"
      "dwrites t = dwrites s" "dirty_same s t" "bio_frame s t" and d: "length d = BSIZE"
  shows "wp (steps [bwrite b, brelse b]) (\<lambda>_. wrote s [(a, d)]) (t\<lparr>bufs := (bufs t)(b := (bufs t b)\<lparr>b_data := d\<rparr>)\<rparr>)"
proof -
  have bH: "b \<in> {b}" by simp
  have ba: "blk t b = a" using t(3) by (simp add: cached_in_def)
  define t1 where "t1 = t\<lparr>bufs := (bufs t)(b := (bufs t b)\<lparr>b_data := d\<rparr>)\<rparr>"
  have t1: "cache_ok t1 {b}" "content t1 = (content t)(a := d)" "cached_in t1 = cached_in t" "bio_frame t t1"
    "dirty_same t t1" "blk t1 b = a" "b_data (bufs t1 b) = d" "memdisk t1 = memdisk s" "dwrites t1 = dwrites s"
    using setdata_ok[OF t(1) bH d] ba t(4,5) by (simp_all add: wp_iff modb_eq t1_def)
  obtain t2 where t2: "bwrite b t1 = Ok () t2" "cache_ok t2 {b}" "content t2 = content t1"
    "cached_in t2 = cached_in t1" "\<forall>i. i \<noteq> b \<longrightarrow> bufs t2 i = bufs t1 i" "\<not> dirty (bufs t2 b)"
    "b_data (bufs t2 b) = d" "memdisk t2 = (memdisk s)(a := d)"
    "dwrites t2 = dwrites s @ [(a, d)]" "bio_frame t1 t2"
    using bwrite_ok[OF t1(1) bH] t1(6-9) by (auto simp: wp_iff)
  have "cached_in t2 a b" using t2(4) t1(3) t(3) by simp
  then have "blk t2 b = a" by (simp add: cached_in_def)
  then have "dirty (bufs t2 b) \<or> b_data (bufs t2 b) = memdisk t2 (blk t2 b)" by (simp add: t2(7,8))
  then obtain v where v: "brelse b t2 = Ok () v" "cache_ok v ({b} - {b})" "content v = content t2"
    "cached_in v = cached_in t2" "dirty_same t2 v" "memdisk v = memdisk t2" "dwrites v = dwrites t2" "bio_frame t2 v"
    using brelse_ok[OF t2(2) bH] by (auto simp: wp_iff)
  have dv: "dirty (bufs v i) = (dirty (bufs t i) \<and> i \<noteq> b)" for i
    using v(5) t2(5,6) t1(5) by (cases "i = b") (simp_all add: dirty_same_def)
  have "pinned v m \<longleftrightarrow> pinned t m \<and> m \<noteq> a" for m
  proof -
    have "cached_in t m b \<Longrightarrow> m = a" using t(3) by (simp add: cached_in_def)
    moreover have "cached_in t a i \<Longrightarrow> i = b" for i using t(3) cache_okD(5)[OF t(1)] by blast
    ultimately show ?thesis unfolding pinned_def v(4) t2(4) t1(3) using dv by auto
  qed
  moreover have "ndirty v \<le> ndirty t" using dv by (intro card_dirty_le) simp
  moreover have "bio_frame s v" using bio_frame_trans t(7) t1(4) t2(10) v(8) by blast
  ultimately have "wrote s [(a, d)] v"
    using v t2 t1 t pinned_same[OF t(6)] ndirty_same[OF t(6)] by (simp add: wrote_def)
  then show ?thesis using t2(1) v(1) unfolding t1_def[symmetric] by (simp add: wp_iff ret_eq)
qed

section \<open>Writing and reading the header\<close>

lemma head_loop:
  "for_each xs (\<lambda>i. bnd (rd (\<lambda>s. lh_block s i)) (\<lambda>v. modb b (\<lambda>y. y\<lparr>b_data := put32 (b_data y) (4 + 4 * i) v\<rparr>))) t =
     Ok () (t\<lparr>bufs := (bufs t)(b := (bufs t b)\<lparr>b_data :=
        foldl (\<lambda>d i. put32 d (4 + 4 * i) (lh_block t i)) (b_data (bufs t b)) xs\<rparr>)\<rparr>)"
  by (induction xs arbitrary: t) (simp_all add: ret_eq rd_eq modb_eq)

lemma write_head_wrote:
  fixes s :: "'a lgst_scheme"
  assumes ok: "cache_ok s {}" and n: "lh_n s = int n" "n \<le> LOGSIZE" and g: "lg_dev s = 1" "lg_start s < disksize s"
    and room: "ndirty s < NBUF"
  shows "wp write_head (\<lambda>_. wrote s [(unat (lg_start s), hdr_data (content s (unat (lg_start s))) n (lh_block s))]) s"
proof -
  obtain b t where b: "bread 1 (lg_start s) s = Ok b t" and t: "cache_ok t {b}" "content t = content s"
    "cached_in t (unat (lg_start s)) b" "b_data (bufs t b) = content s (unat (lg_start s))"
    "memdisk t = memdisk s" "dwrites t = dwrites s" "dirty_same s t" "bio_frame s t"
    using read_one[OF ok g(2) room] by metis
  let ?h = "hdr_data (content s (unat (lg_start s))) n (lh_block s)"
  note same = bio_frame_log[OF t(8)]
  have "length (content s (unat (lg_start s))) = BSIZE"
    using held_slot(8)[OF t(1)] t(4) by simp
  then have len: "length ?h = BSIZE"
    using n(2) by (subst hdr_data_facts(1)) (simp_all add: LOGSIZE_def BSIZE_def)
  define t0 where "t0 = t\<lparr>bufs := (bufs t)(b := (bufs t b)\<lparr>b_data := put32 (b_data (bufs t b)) 0 (of_nat n)\<rparr>)\<rparr>"
  have "lh_n t0 = int n" using n(1) same by (simp add: t0_def)
  from log_loop_eq[OF this n(2)] have l:
    "log_loop (\<lambda>i. bnd (rd (\<lambda>s. lh_block s i)) (\<lambda>v. modb b (\<lambda>y. y\<lparr>b_data := put32 (b_data y) (4 + 4 * i) v\<rparr>))) t0 =
     Ok () (t\<lparr>bufs := (bufs t)(b := (bufs t b)\<lparr>b_data := ?h\<rparr>)\<rparr>)"
    by (simp add: head_loop hdr_data_def t0_def t(4) same)
  have m: "bnd (rd lh_n) (\<lambda>n. modb b (\<lambda>y. y\<lparr>b_data := put32 (b_data y) 0 (word_of_int n)\<rparr>)) t = Ok () t0"
    using same n(1) by (simp add: rd_eq modb_eq t0_def)
  show ?thesis
    using write_one[OF t(1-3,5-8) len] b m l by (simp add: write_head_def wp_iff rd_eq g(1))
qed

lemma for_each_upd_block:
  "for_each [0..<n] (\<lambda>i. upd (\<lambda>s. s\<lparr>lh_block := (lh_block s)(i := f i)\<rparr>)) t =
     Ok () (t\<lparr>lh_block := (\<lambda>i. if i < n then f i else lh_block t i)\<rparr>)"
proof -
  have "for_each [k..<k + n] (\<lambda>i. upd (\<lambda>s. s\<lparr>lh_block := (lh_block s)(i := f i)\<rparr>)) t =
     Ok () (t\<lparr>lh_block := (\<lambda>i. if k \<le> i \<and> i < k + n then f i else lh_block t i)\<rparr>)" for k
  proof (induction n arbitrary: k t)
    case (Suc n)
    have "[k..<k + Suc n] = k # [Suc k..<Suc k + n]" by (simp add: upt_rec)
    then show ?case using Suc[of "Suc k"]
      by (simp add: upd_eq) (rule arg_cong[where f = "\<lambda>g. lh_block_update g t"], auto simp: fun_eq_iff)
  next
    case 0
    have "(\<lambda>i. if k \<le> i \<and> i < k + 0 then f i else lh_block t i) = lh_block t" by (rule ext) auto
    then show ?case by (simp add: ret_eq)
  qed
  from this[of 0] show ?thesis by simp
qed

text \<open>What the disk says about a committed transaction.\<close>

definition disk_n :: "(nat \<Rightarrow> u8 list) \<Rightarrow> nat \<Rightarrow> u32" where
  "disk_n D ls = get32 (D ls) 0"

definition disk_blk :: "(nat \<Rightarrow> u8 list) \<Rightarrow> nat \<Rightarrow> nat \<Rightarrow> u32" where
  "disk_blk D ls i = get32 (D ls) (4 + 4 * i)"

lemma read_head_ok:
  fixes s :: "'a lgst_scheme"
  assumes ok: "cache_ok s {}" and g: "lg_dev s = 1" "lg_start s < disksize s" and room: "ndirty s < NBUF"
    and n: "disk_n (content s) (unat (lg_start s)) = of_nat n" "n \<le> LOGSIZE"
  shows "wp read_head (\<lambda>_ t. \<exists>u. wrote s [] u \<and> t = u\<lparr>lh_n := int n, lh_block :=
     (\<lambda>i. if i < n then disk_blk (content s) (unat (lg_start s)) i else lh_block s i)\<rparr>) s"
proof -
  obtain b t where b: "bread 1 (lg_start s) s = Ok b t" and t: "cache_ok t {b}" "content t = content s"
    "cached_in t (unat (lg_start s)) b" "b_data (bufs t b) = content s (unat (lg_start s))"
    "memdisk t = memdisk s" "dwrites t = dwrites s" "dirty_same s t" "bio_frame s t"
    "dirty (bufs t b) \<or> b_data (bufs t b) = memdisk t (blk t b)"
    using read_one[OF ok g(2) room] by metis
  let ?d = "content s (unat (lg_start s))"
  let ?bl = "\<lambda>i. if i < n then disk_blk (content s) (unat (lg_start s)) i else lh_block s i"
  define t1 where "t1 = t\<lparr>lh_n := int n, lh_block := ?bl\<rparr>"
  note same = bio_frame_log[OF t(8)]
  have "sint (of_nat n :: u32) = int n"
    using n(2) by (simp add: LOGSIZE_def signed_of_nat signed_take_bit_int_eq_self)
  then have r1: "upd (\<lambda>s. s\<lparr>lh_n := sint (get32 (b_data (bufs t b)) 0)\<rparr>) t = Ok () (t\<lparr>lh_n := int n\<rparr>)"
    using n(1) t(4) by (simp add: upd_eq disk_n_def)
  have r2: "log_loop (\<lambda>i. upd (\<lambda>s. s\<lparr>lh_block := (lh_block s)(i := get32 (b_data (bufs t b)) (4 + 4 * i))\<rparr>)) (t\<lparr>lh_n := int n\<rparr>) = Ok () t1"
    using n(2) by (subst log_loop_eq[of _ n]) (simp_all add: for_each_upd_block t1_def t(4) same disk_blk_def cong: if_cong)
  have c1: "cache_ok t1 {b}" "dirty (bufs t1 b) \<or> b_data (bufs t1 b) = memdisk t1 (blk t1 b)"
    using t(1,9) by (simp_all add: t1_def)
  obtain v where v: "brelse b t1 = Ok () v" "cache_ok v ({b} - {b})" "content v = content t1"
    "cached_in v = cached_in t1" "dirty_same t1 v" "memdisk v = memdisk t1" "dwrites v = dwrites t1" "bio_frame t1 v"
    using brelse_ok[OF c1(1) _ c1(2)] by (auto simp: wp_iff)
  have run: "read_head s = Ok () v"
    using b r1 r2 v(1) by (simp add: read_head_def rd_eq g(1) getb_eq ret_eq)
  let ?u = "v\<lparr>lh_n := lh_n s, lh_block := lh_block s\<rparr>"
  obtain P L B M W where fv: "v = t1\<lparr>ptable := P, slocks := L, bufs := B, memdisk := M, dwrites := W\<rparr>"
    using v(8) unfolding bio_frame_def by blast
  have "bio_frame t ?u"
    using v(8) unfolding bio_frame_def fv by (simp add: t1_def now_def flip: same)
  then have "bio_frame s ?u" by (rule bio_frame_trans[OF t(8)])
  moreover have ds: "dirty_same s v" using v(5) t(7) by (simp add: dirty_same_def t1_def)
  ultimately have "wrote s [] ?u"
    using v(2,3,6,7) t(2,5,6) pinned_same[OF ds] ndirty_same[OF ds] by (simp add: wrote_def t1_def)
  moreover have "v = ?u\<lparr>lh_n := int n, lh_block := ?bl\<rparr>"
    using bio_frame_log(6,7)[OF v(8)] by (simp add: t1_def)
  ultimately show ?thesis using run by (auto simp: wp_iff intro!: exI[of _ ?u])
qed

section \<open>Recovery\<close>

text \<open>A header on the disk, at block \<open>ls\<close>, that describes a transaction of \<open>n\<close> blocks.\<close>

definition disk_log :: "(nat \<Rightarrow> u8 list) \<Rightarrow> nat \<Rightarrow> u32 \<Rightarrow> nat \<Rightarrow> bool" where
  "disk_log D ls sz n \<longleftrightarrow> disk_n D ls = of_nat n \<and> n \<le> LOGSIZE \<and> ls + n < unat sz \<and>
     (\<forall>i<n. disk_blk D ls i < sz \<and> unat (disk_blk D ls i) \<notin> {ls..ls + n}) \<and>
     distinct (map (disk_blk D ls) [0..<n])"

definition recovery_writes :: "(nat \<Rightarrow> u8 list) \<Rightarrow> nat \<Rightarrow> nat \<Rightarrow> (nat \<times> u8 list) list" where
  "recovery_writes D ls n = map (\<lambda>i. (unat (disk_blk D ls i), D (ls + i + 1))) [0..<n]"

definition booted :: "'a lgst_scheme \<Rightarrow> bool" where
  "booted s \<longleftrightarrow> cache_ok s {} \<and> ndirty s = 0 \<and> lg_dev s = 1"

lemma booted_content:
  assumes "booted s"
  shows "content s = memdisk s" "\<not> pinned s m"
proof -
  have "{i. i < NBUF \<and> dirty (bufs s i)} = {}" using assms by (simp add: booted_def ndirty_def)
  then show p: "\<not> pinned s m" for m by (auto simp: pinned_def cached_in_def)
  show "content s = memdisk s" using synced p assms unfolding booted_def by blast
qed

lemma recover_ok:
  fixes s :: "'a lgst_scheme"
  assumes b: "booted s" and l: "disk_log (memdisk s) (unat (lg_start s)) (disksize s) n"
  defines "ls \<equiv> unat (lg_start s)"
  shows "wp recover_from_log (\<lambda>_ t. booted t \<and> lh_n t = 0 \<and> (\<exists>h. memdisk t =
     apply_writes (recovery_writes (memdisk s) ls n @ [(ls, h)]) (memdisk s) \<and> get32 h 0 = 0)) s"
proof -
  have ok: "cache_ok s {}" and nd: "ndirty s = 0" and dev: "lg_dev s = 1" using b by (simp_all add: booted_def)
  note D = booted_content[OF b]
  have n: "disk_n (content s) ls = of_nat n" "n \<le> LOGSIZE" and lt: "ls + n < unat (disksize s)"
    using l by (simp_all add: disk_log_def D ls_def)
  have st: "lg_start s < disksize s" using lt by (simp add: ls_def word_less_nat_alt)
  let ?bl = "\<lambda>i. if i < n then disk_blk (content s) ls i else lh_block s i"
  obtain u where h: "read_head s = Ok () (u\<lparr>lh_n := int n, lh_block := ?bl\<rparr>)" and u: "wrote s [] u"
    using read_head_ok[OF ok dev st _ n[unfolded ls_def], folded ls_def] nd by (auto simp: wp_iff NBUF_def)
  let ?t = "u\<lparr>lh_n := int n, lh_block := ?bl\<rparr>"
  have uf: "bio_frame s u" "cache_ok u {}" "content u = memdisk s" "memdisk u = memdisk s" "ndirty u = 0"
    using u nd by (simp_all add: wrote_def D)
  note same = bio_frame_log[OF uf(1)] bio_frame_disksize[OF uf(1)]
  have mb: "map ?bl [0..<n] = map (disk_blk (memdisk s) ls) [0..<n]" by (simp add: D)
  have "distinct (map ?bl [0..<n])" unfolding mb using l by (simp add: disk_log_def ls_def)
  then have g: "log_geom ?t n"
    using l n lt dev by (simp add: log_geom_def disk_log_def same D flip: ls_def)
  have cu: "cache_ok ?t {}" "ndirty ?t + 1 < NBUF \<or> ndirty ?t < NBUF \<and> (\<forall>i<n. pinned ?t (home_blk ?t i))"
    using uf(2,5) by (simp_all add: NBUF_def)
  obtain v where v: "install_trans ?t = Ok () v" "wrote ?t (install_writes ?t n) v"
    using install_trans_wrote[OF cu(1) g cu(2)] by (auto simp: wp_iff)
  have iw: "install_writes ?t n = recovery_writes (memdisk s) ls n"
    by (auto simp: install_writes_def recovery_writes_def uf(3) same D ls_def)
  have vf: "bio_frame ?t v" "cache_ok v {}" "memdisk v = apply_writes (recovery_writes (memdisk s) ls n) (memdisk s)" "ndirty v = 0"
    using v(2) uf(4,5) by (simp_all add: wrote_def iw)
  note samev = bio_frame_log[OF vf(1)] bio_frame_disksize[OF vf(1)]
  let ?w = "v\<lparr>lh_n := 0\<rparr>"
  have w: "cache_ok ?w {}" "lh_n ?w = int 0" "lg_dev ?w = 1" "lg_start ?w < disksize ?w" "ndirty ?w < NBUF"
    using vf(2,4) dev st by (simp_all add: samev same NBUF_def)
  let ?h = "hdr_data (content ?w (unat (lg_start ?w))) 0 (lh_block ?w)"
  obtain x where x: "write_head ?w = Ok () x" "wrote ?w [(unat (lg_start ?w), ?h)] x"
    using write_head_wrote[OF w(1,2) _ w(3-5)] by (auto simp: wp_iff)
  have lenc: "length (content v ls) = BSIZE"
  proof (cases "\<exists>i. cached_in v ls i")
    case True
    then obtain i where i: "cached_in v ls i" by blast
    then show ?thesis using cache_okD(4)[OF vf(2), of i] content_cached[OF vf(2) i]
      by (simp add: slot_ok_def Let_def cached_in_def)
  qed (use content_disk cache_okD(3)[OF vf(2)] in metis)
  have "get32 ?h 0 = 0" using hdr_data_facts(2)[of 0 "content v ls" "lh_block v"] lenc by (simp add: samev same ls_def BSIZE_def)
  moreover have "booted x" "lh_n x = 0" "memdisk x = apply_writes [(ls, ?h)] (memdisk v)"
    using x(2) vf(4) bio_frame_log[of ?w x] w(3) by (simp_all add: wrote_def booted_def samev same ls_def)
  ultimately show ?thesis
    using h v(1) x(1) vf(3) by (auto simp: wp_iff recover_from_log_def upd_eq ret_eq intro!: exI[of _ ?h])
qed

section \<open>The writes of a commit\<close>

text \<open>A transaction of \<open>n\<close> blocks that is ready to be committed: the logged blocks are exactly the
  pinned ones, the buffers leave room to work with, and the log on the disk is empty.\<close>

definition txn :: "'a lgst_scheme \<Rightarrow> nat \<Rightarrow> bool" where
  "txn s n \<longleftrightarrow> cache_ok s {} \<and> log_geom s n \<and> 0 < n \<and> n < NBUF \<and> ndirty s < NBUF \<and>
     (\<forall>m. pinned s m \<longleftrightarrow> (\<exists>i<n. m = home_blk s i)) \<and> disk_n (memdisk s) (unat (lg_start s)) = 0"

definition home_writes :: "'a lgst_scheme \<Rightarrow> nat \<Rightarrow> (nat \<times> u8 list) list" where
  "home_writes s n = map (\<lambda>i. (home_blk s i, content s (home_blk s i))) [0..<n]"

definition full_head :: "'a lgst_scheme \<Rightarrow> nat \<Rightarrow> u8 list" where
  "full_head s n = hdr_data (content s (unat (lg_start s))) n (lh_block s)"

definition commit_writes :: "'a lgst_scheme \<Rightarrow> nat \<Rightarrow> (nat \<times> u8 list) list" where
  "commit_writes s n = log_writes s n @ [(unat (lg_start s), full_head s n)] @ home_writes s n @
     [(unat (lg_start s), hdr_data (full_head s n) 0 (lh_block s))]"

lemma fst_log_writes: "fst ` set (log_writes s n) = {unat (lg_start s) + 1..unat (lg_start s) + n}"
proof -
  have "fst ` set (log_writes s n) = (\<lambda>i. i + (unat (lg_start s) + 1)) ` {0..<n}"
    by (auto simp: log_writes_def image_image)
  then show ?thesis by (simp only: image_add_atLeastLessThan') auto
qed

lemma fst_home_writes: "fst ` set (home_writes s n) = home_blk s ` {..<n}"
  by (auto simp: home_writes_def image_image)

lemma distinct_log_writes: "distinct (map fst (log_writes s n))"
  by (simp add: log_writes_def distinct_map inj_on_def)

lemma distinct_home_writes: "log_geom s n \<Longrightarrow> distinct (map fst (home_writes s n))"
proof -
  assume "log_geom s n"
  then have "inj_on (home_blk s) {0..<n}" using home_inj unfolding inj_on_def by (metis atLeastLessThan_iff)
  then show ?thesis by (simp add: home_writes_def comp_def distinct_map)
qed

lemma home_outside:
  assumes "log_geom s n" "i < n"
  shows "home_blk s i \<notin> {unat (lg_start s)..unat (lg_start s) + n}"
  using assms by (auto simp: log_geom_def)

lemma head_not_home: "log_geom s n \<Longrightarrow> unat (lg_start s) \<notin> home_blk s ` {..<n}"
proof
  assume g: "log_geom s n" and "unat (lg_start s) \<in> home_blk s ` {..<n}"
  then obtain i where "unat (lg_start s) = home_blk s i" "i < n" by blast
  then show False using log_geomD(5)[OF g, of i] by simp
qed

lemma log_writes_at:
  "i < n \<Longrightarrow> apply_writes (log_writes s n) D (log_blk s i) = content s (home_blk s i)"
  by (rule apply_writes_hit[OF distinct_log_writes]) (auto simp: log_writes_def)

lemma home_writes_at:
  "log_geom s n \<Longrightarrow> i < n \<Longrightarrow> apply_writes (home_writes s n) D (home_blk s i) = content s (home_blk s i)"
  by (rule apply_writes_hit[OF distinct_home_writes]) (auto simp: home_writes_def)

lemma commit_run:
  fixes s :: "'a lgst_scheme"
  assumes "txn s n"
  shows "wp commit (\<lambda>_ t. cache_ok t {} \<and> lh_n t = 0 \<and> dwrites t = dwrites s @ commit_writes s n \<and>
     memdisk t = apply_writes (commit_writes s n) (memdisk s)) s"
proof -
  have ok: "cache_ok s {}" and g: "log_geom s n" and n: "0 < n" "lh_n s = int n" "n \<le> LOGSIZE" and nd: "ndirty s < NBUF"
    and pin: "\<forall>i<n. pinned s (home_blk s i)" and dev: "lg_dev s = 1" and st: "lg_start s < disksize s"
    using assms by (auto simp: txn_def log_geom_def word_less_nat_alt)
  let ?ls = "unat (lg_start s)"
  obtain t1 where t1: "write_log s = Ok () t1" "wrote s (log_writes s n) t1"
    using write_log_wrote[OF ok g nd pin] by (auto simp: wp_iff)
  then have f1: "bio_frame s t1" "cache_ok t1 {}" "ndirty t1 < NBUF" using nd by (auto simp: wrote_def)
  note s1 = bio_frame_log[OF f1(1)] bio_frame_disksize[OF f1(1)]
  have "?ls \<notin> fst ` set (log_writes s n)" by (simp add: fst_log_writes)
  then have c1: "content t1 ?ls = content s ?ls" using t1(2) by (simp add: wrote_def apply_writes_other)
  have h1: "lh_n t1 = int n" "lg_dev t1 = 1" "lg_start t1 < disksize t1" using n(2) dev st by (simp_all add: s1)
  have "wp write_head (\<lambda>_. wrote t1 [(?ls, full_head s n)]) t1"
    using write_head_wrote[OF f1(2) h1(1) n(3) h1(2,3) f1(3)] by (simp add: s1 c1 full_head_def)
  then obtain t2 where t2: "write_head t1 = Ok () t2" "wrote t1 [(?ls, full_head s n)] t2" by (auto simp: wp_iff)
  then have f2: "bio_frame t1 t2" "cache_ok t2 {}" "ndirty t2 < NBUF" using f1(3) by (auto simp: wrote_def)
  note s2 = bio_frame_log[OF f2(1), unfolded s1] bio_frame_disksize[OF f2(1), unfolded s1]
  have w2: "wrote s (log_writes s n @ [(?ls, full_head s n)]) t2" using wrote_trans[OF t1(2) t2(2)] .
  have g2: "log_geom t2 n" using log_geom_frame[OF bio_frame_trans[OF f1(1) f2(1)]] g by simp
  have p2: "\<forall>i<n. pinned t2 (home_blk t2 i)"
  proof -
    have "home_blk s i \<noteq> ?ls" "home_blk s i \<notin> fst ` set (log_writes s n)" if "i < n" for i
      using home_outside[OF g that] by (auto simp: fst_log_writes)
    then show ?thesis using pin w2 by (simp add: wrote_def s2 image_Un)
  qed
  have c2: "content t2 (log_blk s i) = content s (home_blk s i)" if "i < n" for i
    using w2 log_writes_at[OF that] by (simp add: wrote_def apply_writes_other)
  have iw: "install_writes t2 n = home_writes s n"
    using c2 by (auto simp: install_writes_def home_writes_def s2)
  have "ndirty t2 + 1 < NBUF \<or> ndirty t2 < NBUF \<and> (\<forall>i<n. pinned t2 (home_blk t2 i))" using f2(3) p2 by blast
  from install_trans_wrote[OF f2(2) g2 this, unfolded iw]
  obtain t3 where t3: "install_trans t2 = Ok () t3" "wrote t2 (home_writes s n) t3" by (auto simp: wp_iff)
  then have f3: "bio_frame t2 t3" "cache_ok t3 {}" "ndirty t3 < NBUF" using f2(3) by (auto simp: wrote_def)
  note s3 = bio_frame_log[OF f3(1), unfolded s2] bio_frame_disksize[OF f3(1), unfolded s2]
  have w3: "wrote s (log_writes s n @ [(?ls, full_head s n)] @ home_writes s n) t3" using wrote_trans[OF w2 t3(2)] by simp
  have "?ls \<notin> fst ` set (home_writes s n)" unfolding fst_home_writes by (rule head_not_home[OF g])
  moreover have "content t3 = apply_writes (log_writes s n @ [(?ls, full_head s n)] @ home_writes s n) (content s)"
    using w3 unfolding wrote_def by blast
  ultimately have c3: "content t3 ?ls = full_head s n" by (simp add: apply_writes_other)
  let ?u = "t3\<lparr>lh_n := 0\<rparr>"
  have h3: "cache_ok ?u {}" "lh_n ?u = int 0" "lg_dev ?u = 1" "lg_start ?u < disksize ?u" "ndirty ?u < NBUF"
    using f3(2,3) dev st by (simp_all add: s3)
  have "wp write_head (\<lambda>_. wrote ?u [(?ls, hdr_data (full_head s n) 0 (lh_block s))]) ?u"
    using write_head_wrote[OF h3(1,2) _ h3(3-5)] by (simp add: s3 c3)
  then obtain t4 where t4: "write_head ?u = Ok () t4" "wrote ?u [(?ls, hdr_data (full_head s n) 0 (lh_block s))] t4"
    by (auto simp: wp_iff)
  have "commit s = Ok () t4"
    using t1(1) t2(1) t3(1) t4(1) n by (simp add: commit_def rd_eq whenb_eq upd_eq ret_eq)
  moreover have e4: "cache_ok t4 {}" "bio_frame ?u t4" "dwrites t4 = dwrites ?u @ [(?ls, hdr_data (full_head s n) 0 (lh_block s))]"
    "memdisk t4 = apply_writes [(?ls, hdr_data (full_head s n) 0 (lh_block s))] (memdisk ?u)"
    using t4(2) unfolding wrote_def by blast+
  moreover have e3: "dwrites t3 = dwrites s @ log_writes s n @ [(?ls, full_head s n)] @ home_writes s n"
    "memdisk t3 = apply_writes (log_writes s n @ [(?ls, full_head s n)] @ home_writes s n) (memdisk s)"
    using w3 unfolding wrote_def by blast+
  moreover have "lh_n t4 = 0" using bio_frame_log(6)[OF e4(2)] by simp
  ultimately show ?thesis by (simp add: wp_iff commit_writes_def)
qed

section \<open>What a crash leaves behind\<close>

lemma txnD:
  assumes "txn s n"
  shows "cache_ok s {}" "log_geom s n" "0 < n" "n \<le> LOGSIZE" "disk_n (memdisk s) (unat (lg_start s)) = 0"
    "\<And>m. m \<notin> home_blk s ` {..<n} \<Longrightarrow> content s m = memdisk s m"
    "unat (lg_start s) + n < unat (disksize s)"
proof -
  show t: "cache_ok s {}" "log_geom s n" "0 < n" "disk_n (memdisk s) (unat (lg_start s)) = 0"
    using assms unfolding txn_def by blast+
  show "n \<le> LOGSIZE" "unat (lg_start s) + n < unat (disksize s)"
    using t(2) unfolding log_geom_def by blast+
  fix m
  assume "m \<notin> home_blk s ` {..<n}"
  moreover have "pinned s m \<longleftrightarrow> (\<exists>i<n. m = home_blk s i)" using assms unfolding txn_def by blast
  ultimately have "\<not> pinned s m" by blast
  then show "content s m = memdisk s m" by (rule synced[OF t(1)])
qed

lemma full_head_facts:
  assumes "txn s n"
  shows "length (full_head s n) = BSIZE" "get32 (full_head s n) 0 = of_nat n"
    "i < n \<Longrightarrow> get32 (full_head s n) (4 + 4 * i) = lh_block s i"
proof -
  have "unat (lg_start s) \<notin> home_blk s ` {..<n}"
    by (rule head_not_home[OF txnD(2)[OF assms]])
  then have "length (content s (unat (lg_start s))) = BSIZE"
    using txnD(6)[OF assms] cache_okD(3)[OF txnD(1)[OF assms]] by simp
  moreover from this have "4 + 4 * n \<le> length (content s (unat (lg_start s)))"
    using txnD(4)[OF assms] by (simp add: LOGSIZE_def BSIZE_def)
  ultimately show "length (full_head s n) = BSIZE" "get32 (full_head s n) 0 = of_nat n"
    "i < n \<Longrightarrow> get32 (full_head s n) (4 + 4 * i) = lh_block s i"
    using hdr_data_facts[where n = n and d = "content s (unat (lg_start s))" and bl = "lh_block s"]
    by (simp_all add: full_head_def)
qed

lemma take_commit_writes:
  assumes "k \<le> length (commit_writes s n)"
  shows "(k \<le> n \<and> take k (commit_writes s n) = take k (log_writes s n)) \<or>
    (n < k \<and> k \<le> 2 * n + 1 \<and> take k (commit_writes s n) =
       log_writes s n @ [(unat (lg_start s), full_head s n)] @ take (k - n - 1) (home_writes s n)) \<or>
    (n < k \<and> take k (commit_writes s n) = commit_writes s n)"
proof -
  have l: "length (log_writes s n) = n" "length (home_writes s n) = n" by (simp_all add: log_writes_def home_writes_def)
  consider "k \<le> n" | j where "k = Suc n + j" "j \<le> n" | "k = length (commit_writes s n)" "n < k"
  proof -
    assume a: "k \<le> n \<Longrightarrow> thesis" "\<And>j. k = Suc n + j \<Longrightarrow> j \<le> n \<Longrightarrow> thesis"
      "k = length (commit_writes s n) \<Longrightarrow> n < k \<Longrightarrow> thesis"
    have len: "length (commit_writes s n) = 2 * n + 2" using l by (simp add: commit_writes_def)
    then show thesis using assms a(1) a(2)[of "k - Suc n"] a(3) by linarith
  qed
  then show ?thesis
  proof cases
    case 1
    then show ?thesis using l by (simp add: commit_writes_def)
  next
    case 2
    then show ?thesis using l by (simp add: commit_writes_def)
  next
    case 3
    then show ?thesis by simp
  qed
qed

text \<open>Before the header is written: recovery finds an empty log.\<close>

lemma crash_before:
  fixes k :: nat
  assumes "txn s n"
  defines "D \<equiv> apply_writes (take k (log_writes s n)) (memdisk s)"
  shows "disk_log D (unat (lg_start s)) (disksize s) 0"
    "m \<notin> {unat (lg_start s)..unat (lg_start s) + n} \<Longrightarrow> D m = memdisk s m"
proof -
  have sub: "fst ` set (take k (log_writes s n)) \<subseteq> {unat (lg_start s) + 1..unat (lg_start s) + n}"
    using set_take_subset[of k "log_writes s n"] fst_log_writes[of s n] by blast
  then have o: "m \<notin> {unat (lg_start s) + 1..unat (lg_start s) + n} \<Longrightarrow> D m = memdisk s m" for m
    unfolding D_def by (intro apply_writes_other) auto
  show "m \<notin> {unat (lg_start s)..unat (lg_start s) + n} \<Longrightarrow> D m = memdisk s m" by (rule o) auto
  show "disk_log D (unat (lg_start s)) (disksize s) 0"
    using o[of "unat (lg_start s)"] txnD(5,7)[OF assms(1)] by (simp add: disk_log_def disk_n_def)
qed

text \<open>Between the two header writes: recovery finds the whole transaction.\<close>

lemma crash_between:
  fixes j :: nat
  assumes t: "txn s n"
  defines "ls \<equiv> unat (lg_start s)"
  defines "D \<equiv> apply_writes (log_writes s n @ [(ls, full_head s n)] @ take j (home_writes s n)) (memdisk s)"
  shows "disk_log D ls (disksize s) n"
    "m \<notin> {ls..ls + n} \<Longrightarrow> apply_writes (recovery_writes D ls n @ [(ls, h)]) D m = content s m"
proof -
  note g = txnD(2)[OF t]
  have sub: "fst ` set (take j (home_writes s n)) \<subseteq> home_blk s ` {..<n}"
    using set_take_subset[of j "home_writes s n"] fst_home_writes[of s n] by blast
  have out: "home_blk s i \<notin> {ls..ls + n}" if "i < n" for i using home_outside[OF g that] by (simp add: ls_def)
  have o: "x \<notin> fst ` set (take j (home_writes s n))" if x: "x \<in> {ls..ls + n}" for x
  proof
    assume "x \<in> fst ` set (take j (home_writes s n))"
    then obtain i where "x = home_blk s i" "i < n" using sub by blast
    then show False using out[of i] x by simp
  qed
  have hd: "D ls = full_head s n" using o[of ls] by (simp add: D_def apply_writes_other)
  have lb: "D (ls + i + 1) = content s (home_blk s i)" if "i < n" for i
    using o[of "ls + i + 1"] log_writes_at[OF that, of s "memdisk s"] that by (simp add: D_def apply_writes_other ls_def)
  have db: "disk_blk D ls i = lh_block s i" if "i < n" for i using full_head_facts(3)[OF t that] by (simp add: disk_blk_def hd)
  have dm: "map (disk_blk D ls) [0..<n] = map (lh_block s) [0..<n]" using db by simp
  show "disk_log D ls (disksize s) n"
    unfolding disk_log_def dm using full_head_facts(2)[OF t] txnD(4)[OF t] g out db
    by (simp add: disk_n_def hd log_geom_def flip: ls_def)
  have rw: "recovery_writes D ls n = home_writes s n" using db lb by (simp add: recovery_writes_def home_writes_def)
  assume m: "m \<notin> {ls..ls + n}"
  show "apply_writes (recovery_writes D ls n @ [(ls, h)]) D m = content s m"
  proof (cases "m \<in> home_blk s ` {..<n}")
    case True
    then show ?thesis using home_writes_at[OF g] m by (auto simp: rw)
  next
    case False
    then have "m \<notin> fst ` set (home_writes s n)" "m \<notin> fst ` set (take j (home_writes s n))" "m \<notin> fst ` set (log_writes s n)"
      using m sub by (auto simp: fst_home_writes fst_log_writes ls_def)
    moreover have "m \<noteq> ls" using m by auto
    ultimately show ?thesis using txnD(6)[OF t False] unfolding rw by (simp add: D_def apply_writes_other)
  qed
qed

text \<open>After the commit: the log is empty again and every block is home.\<close>

lemma crash_after:
  assumes t: "txn s n"
  defines "D \<equiv> apply_writes (commit_writes s n) (memdisk s)"
  shows "disk_log D (unat (lg_start s)) (disksize s) 0"
    "m \<notin> {unat (lg_start s)..unat (lg_start s) + n} \<Longrightarrow> D m = content s m"
proof -
  note g = txnD(2)[OF t]
  have "get32 (hdr_data (full_head s n) 0 (lh_block s)) 0 = 0"
    using hdr_data_facts(2)[of 0 "full_head s n"] full_head_facts(1)[OF t] by (simp add: BSIZE_def)
  then show "disk_log D (unat (lg_start s)) (disksize s) 0"
    using txnD(7)[OF t] by (simp add: disk_log_def disk_n_def D_def commit_writes_def)
  assume m: "m \<notin> {unat (lg_start s)..unat (lg_start s) + n}"
  show "D m = content s m"
  proof (cases "m \<in> home_blk s ` {..<n}")
    case True
    then show ?thesis using home_writes_at[OF g] m by (auto simp: D_def commit_writes_def)
  next
    case False
    then have "m \<notin> fst ` set (home_writes s n)" "m \<notin> fst ` set (log_writes s n)"
      using m by (auto simp: fst_home_writes fst_log_writes)
    moreover have "m \<noteq> unat (lg_start s)" using m by auto
    ultimately show ?thesis using txnD(6)[OF t False] by (simp add: D_def commit_writes_def apply_writes_other)
  qed
qed

section \<open>Crash safety\<close>

text \<open>C2. A transaction is atomic. A commit of \<open>n\<close> logged blocks, fewer than there are buffers, returns with the log
  empty after a certain sequence of block writes. If the machine stops after any number \<open>k\<close> of them
  and boots again with an empty cache, \<open>recover_from_log\<close> returns, and every block outside the log then
  has its contents from before the transaction when at most \<open>n\<close> writes were done, and the contents the
  transaction gave it when there were more: never a mixture.\<close>

theorem commit_crash_safe:
  fixes s u :: "'a lgst_scheme"
  assumes t: "txn s n" and k: "k \<le> length (commit_writes s n)"
    and u: "booted u" "lg_start u = lg_start s" "disksize u = disksize s"
      "memdisk u = apply_writes (take k (commit_writes s n)) (memdisk s)"
  shows "wp commit (\<lambda>_ t. lh_n t = 0 \<and> dwrites t = dwrites s @ commit_writes s n) s \<and>
    wp recover_from_log (\<lambda>_ v. booted v \<and> (\<forall>m. m \<notin> {unat (lg_start s)..unat (lg_start s) + n} \<longrightarrow>
       memdisk v m = (if k \<le> n then memdisk s m else content s m))) u"
proof
  show "wp commit (\<lambda>_ t. lh_n t = 0 \<and> dwrites t = dwrites s @ commit_writes s n) s"
    by (rule wp_mono[OF commit_run[OF t]]) simp
  let ?ls = "unat (lg_start s)"
  have rec: "wp recover_from_log (\<lambda>_ v. booted v \<and> (\<forall>m. m \<notin> {?ls..?ls + n} \<longrightarrow> memdisk v m = Q m)) u"
    if "disk_log (memdisk u) ?ls (disksize s) j"
      "\<And>m h. m \<notin> {?ls..?ls + n} \<Longrightarrow> apply_writes (recovery_writes (memdisk u) ?ls j @ [(?ls, h)]) (memdisk u) m = Q m"
    for j Q
  proof (rule wp_mono[OF recover_ok[OF u(1), of j]])
    show "disk_log (memdisk u) (unat (lg_start u)) (disksize u) j" using that(1) u(2,3) by simp
    fix x v
    assume v: "booted v \<and> lh_n v = 0 \<and> (\<exists>h. memdisk v = apply_writes (recovery_writes (memdisk u) (unat (lg_start u)) j @
      [(unat (lg_start u), h)]) (memdisk u) \<and> get32 h 0 = 0)"
    then obtain h where h: "memdisk v = apply_writes (recovery_writes (memdisk u) ?ls j @ [(?ls, h)]) (memdisk u)"
      using u(2) by auto
    show "booted v \<and> (\<forall>m. m \<notin> {?ls..?ls + n} \<longrightarrow> memdisk v m = Q m)"
      unfolding h using v that(2) by blast
  qed
  have none: "apply_writes (recovery_writes D ?ls 0 @ [(?ls, h)]) D m = D m" if "m \<notin> {?ls..?ls + n}" for D m h
    using that by (auto simp: recovery_writes_def)
  from take_commit_writes[OF k]
  show "wp recover_from_log (\<lambda>_ v. booted v \<and> (\<forall>m. m \<notin> {?ls..?ls + n} \<longrightarrow>
       memdisk v m = (if k \<le> n then memdisk s m else content s m))) u"
  proof (elim disjE conjE)
    assume kn: "k \<le> n" and e: "take k (commit_writes s n) = take k (log_writes s n)"
    note D = u(4)[unfolded e]
    show ?thesis
      using rec[of 0 "memdisk s"] crash_before[where k = k, OF t, folded D] none kn by simp
  next
    assume kn: "n < k" and e: "take k (commit_writes s n) =
      log_writes s n @ [(?ls, full_head s n)] @ take (k - n - 1) (home_writes s n)"
    note D = u(4)[unfolded e]
    show ?thesis
      using rec[of n "content s"] crash_between[where j = "k - n - 1", OF t, folded D] kn by simp
  next
    assume kn: "n < k" and e: "take k (commit_writes s n) = commit_writes s n"
    note D = u(4)[unfolded e]
    show ?thesis
      using rec[of 0 "content s"] crash_after[OF t, folded D] none kn by simp
  qed
qed

text \<open>One logged block, 100, and the machine after a crash that follows the header write.\<close>

definition demo_lgst :: lgst where
  "demo_lgst = bst.extend demo_bst \<lparr>lg_start = 2, lg_size = 30, lg_outstanding = 0, lg_committing = False,
     lg_dev = 1, lh_n = 0, lh_block = (\<lambda>_. 0)\<rparr>"

definition demo_txn :: lgst where
  "demo_txn = demo_lgst\<lparr>lh_n := 1, lh_block := (\<lambda>_. 100), bufs := cold_buf(0 := (cold_buf 0)\<lparr>b_flags := 6, b_dev := 1,
     b_blockno := 100, b_data := replicate 512 7\<rparr>)\<rparr>"

definition demo_crashed :: lgst where
  "demo_crashed = demo_lgst\<lparr>memdisk := apply_writes (take 2 (commit_writes demo_txn 1)) (memdisk demo_txn)\<rparr>"

lemma demo_lgst_fields [simp]:
  "held demo_lgst = []" "curproc demo_lgst = Some 0" "bufs demo_lgst = cold_buf" "memdisk demo_lgst = (\<lambda>_. replicate 512 0)"
  "disksize demo_lgst = 1000" "lg_start demo_lgst = 2" "lg_dev demo_lgst = 1"
  "slocks demo_lgst = (\<lambda>_. \<lparr>sl_locked = False, sl_pid = 0\<rparr>)"
  by (simp_all add: demo_lgst_def demo_bst_def boot_pst_def pst.defs slst.defs bst.defs)

lemma demo_txn_cached: "cached_in demo_txn m i \<longleftrightarrow> i = 0 \<and> m = 100"
  by (auto simp: demo_txn_def cached_in_def cold_buf_def NBUF_def)

lemma demo_txn_dirty: "dirty (bufs demo_txn i) \<longleftrightarrow> i = 0"
  by (simp add: demo_txn_def dirty_def cold_buf_def B_DIRTY_def)

lemma demo_txn_ok: "txn demo_txn 1"
proof -
  have "ring (bufs demo_txn) [0..<NBUF]" using ring_keeps_links[OF cold_ring] by (simp add: demo_txn_def)
  moreover have "slot_ok demo_txn {} i" for i
    by (simp add: demo_txn_def slot_ok_def Let_def valid_def dirty_def B_VALID_def B_DIRTY_def cold_buf_def BSIZE_def)
  moreover have "held demo_txn = []" "curproc demo_txn = Some 0" "memdisk demo_txn = (\<lambda>_. replicate 512 0)"
    by (simp_all add: demo_txn_def)
  ultimately have ok: "cache_ok demo_txn {}"
    unfolding cache_ok_def demo_txn_cached by (auto simp: BSIZE_def intro!: exI[of _ "[0..<NBUF]"])
  have g: "log_geom demo_txn 1" by (simp add: log_geom_def demo_txn_def LOGSIZE_def)
  have "{i. i < NBUF \<and> dirty (bufs demo_txn i)} = {0}" unfolding demo_txn_dirty by (auto simp: NBUF_def)
  then have nd: "ndirty demo_txn = 1" by (simp add: ndirty_def)
  have "disk_n (memdisk demo_txn) (unat (lg_start demo_txn)) = 0"
    by (simp add: disk_n_def get32_def of_le32_def demo_txn_def nth_replicate)
  then show ?thesis
    using ok g nd by (auto simp: txn_def NBUF_def pinned_def demo_txn_cached demo_txn_dirty) (simp_all add: demo_txn_def)
qed

lemma demo_txn_content: "content demo_txn 100 = replicate 512 7"
  using content_cached[OF txnD(1)[OF demo_txn_ok], of 100 0] by (simp add: demo_txn_cached) (simp add: demo_txn_def)

lemma demo_txn_log: "lh_block demo_txn i = 100" "lg_start demo_txn = 2" "memdisk demo_txn = (\<lambda>_. replicate 512 0)"
  by (simp_all add: demo_txn_def)

lemma demo_crashed_booted: "booted demo_crashed"
proof -
  have "\<forall>n. length (memdisk demo_crashed n) = BSIZE"
    using full_head_facts(1)[OF demo_txn_ok]
    by (simp add: demo_crashed_def commit_writes_def log_writes_def demo_txn_log demo_txn_content BSIZE_def)
  from cold_ok[OF _ _ _ this]
  have "cache_ok demo_crashed {}" "\<And>i. \<not> dirty (bufs demo_crashed i)"
    by (simp_all add: demo_crashed_def)
  then show ?thesis by (simp add: booted_def ndirty_def) (simp add: demo_crashed_def)
qed

theorem commit_crash_safe_witness:
  "wp recover_from_log (\<lambda>_ v. memdisk v 100 = replicate 512 7) demo_crashed"
proof -
  have k: "2 \<le> length (commit_writes demo_txn 1)" by (simp add: commit_writes_def log_writes_def home_writes_def)
  have u: "lg_start demo_crashed = lg_start demo_txn" "disksize demo_crashed = disksize demo_txn"
    "memdisk demo_crashed = apply_writes (take 2 (commit_writes demo_txn 1)) (memdisk demo_txn)"
    by (simp_all add: demo_crashed_def demo_txn_def)
  have m: "unat (lg_start demo_txn) = 2" by (simp add: demo_txn_def)
  show ?thesis
    using commit_crash_safe[OF demo_txn_ok k demo_crashed_booted u] demo_txn_content unfolding m by (auto elim!: wp_mono)
qed

section \<open>Filling the log\<close>

lemma log_write_eq:
  fixes b :: nat
  assumes "held s = []" "lh_n s = int n" "n < LOGSIZE" "int n < lg_size s - 1" "lg_outstanding s \<ge> 1"
  defines "i \<equiv> (case find (\<lambda>i. lh_block s i = b_blockno (bufs s b)) [0..<n] of Some i \<Rightarrow> i | None \<Rightarrow> n)"
  shows "log_write b s = Ok () (s\<lparr>lh_block := (lh_block s)(i := b_blockno (bufs s b)), lh_n := (if i = n then int n + 1 else int n),
     bufs := (bufs s)(b := (bufs s b)\<lparr>b_flags := b_flags (bufs s b) OR B_DIRTY\<rparr>)\<rparr>)"
  using assms
  by (cases "find (\<lambda>i. lh_block s i = b_blockno (bufs s b)) [0..<n]")
    (simp_all add: log_write_def buf_runs Let_def split: if_split)

lemma begin_op_eq:
  assumes "held s = []" "\<not> lg_committing s" "lh_n s + (lg_outstanding s + 1) * MAXOPBLOCKS \<le> int LOGSIZE"
  shows "begin_op s = Ok () (s\<lparr>lg_outstanding := lg_outstanding s + 1\<rparr>)"
  using assms by (simp add: begin_op_def begin_op_loop_def buf_runs)

text \<open>C11. \<open>log_write\<close>. Inside a transaction with room in the log it records the buffer's block, once
  however often it is written (absorption), and marks the buffer dirty so that it cannot be evicted; no other buffer changes.
  With a full log, or outside a transaction, it panics.\<close>

theorem log_write_correct:
  assumes h: "held s = []" and n: "lh_n s = int n" and d: "distinct (map (lh_block s) [0..<n])"
  shows "if n \<ge> LOGSIZE \<or> int n \<ge> lg_size s - 1 then log_write b s = Panic ''too big a transaction''
    else if lg_outstanding s < 1 then log_write b s = Panic ''log_write outside of trans''
    else wp (log_write b) (\<lambda>_ t. \<exists>m. lh_n t = int m \<and> n \<le> m \<and> m \<le> n + 1 \<and> distinct (map (lh_block t) [0..<m]) \<and>
      lh_block t ` {..<m} = insert (b_blockno (bufs s b)) (lh_block s ` {..<n}) \<and> dirty (bufs t b) \<and>
      b_data (bufs t b) = b_data (bufs s b) \<and> (\<forall>i. i \<noteq> b \<longrightarrow> bufs t i = bufs s i)) s"
proof (cases "n \<ge> LOGSIZE \<or> int n \<ge> lg_size s - 1 \<or> lg_outstanding s < 1")
  case True
  then show ?thesis using n by (auto simp: log_write_def rd_eq panic_eq)
next
  case False
  let ?v = "b_blockno (bufs s b)"
  let ?f = "find (\<lambda>i. lh_block s i = ?v) [0..<n]"
  have g: "n < LOGSIZE" "int n < lg_size s - 1" "lg_outstanding s \<ge> 1" using False by auto
  note e = log_write_eq[OF h n g]
  have dd: "dirty ((bufs s b)\<lparr>b_flags := b_flags (bufs s b) OR B_DIRTY\<rparr>)"
    by (simp add: dirty_bit bit_or_iff flag_consts)
  have "\<exists>m. (if (case ?f of None \<Rightarrow> n | Some i \<Rightarrow> i) = n then int n + 1 else int n) = int m \<and> n \<le> m \<and> m \<le> n + 1 \<and>
    distinct (map ((lh_block s)((case ?f of None \<Rightarrow> n | Some i \<Rightarrow> i) := ?v)) [0..<m]) \<and>
    ((lh_block s)((case ?f of None \<Rightarrow> n | Some i \<Rightarrow> i) := ?v)) ` {..<m} = insert ?v (lh_block s ` {..<n})"
  proof (cases ?f)
    case None
    then have "\<forall>i<n. lh_block s i \<noteq> ?v" by (simp add: find_upt_None)
    then show ?thesis using None d by (intro exI[of _ "Suc n"]) (auto simp: lessThan_Suc)
  next
    case (Some i)
    then have i: "i < n" "lh_block s i = ?v" using find_upt_Some by blast+
    then have e: "(lh_block s)(i := ?v) = lh_block s" by auto
    have "?v \<in> lh_block s ` {..<n}" using i by (metis imageI lessThan_iff)
    then show ?thesis using Some i d e by (intro exI[of _ n]) auto
  qed
  then show ?thesis using False dd by (simp add: wp_Ok[where f = "log_write b", OF e])
qed

theorem log_write_correct_witness:
  "wp (log_write 0) (\<lambda>_ t. \<exists>m. lh_n t = int m \<and> lh_block t ` {..<m} = {100, 0}) (demo_lgst\<lparr>lh_n := 1, lh_block := (\<lambda>_. 100), lg_outstanding := 1\<rparr>)"
proof -
  let ?s = "demo_lgst\<lparr>lh_n := 1, lh_block := (\<lambda>_. 100), lg_outstanding := 1\<rparr>"
  have "held ?s = []" "lh_n ?s = int 1" "distinct (map (lh_block ?s) [0..<1])" "lg_size ?s = 30"
    by (simp_all add: demo_lgst_def[THEN arg_cong[where f = lg_size]] bst.defs)
  note f = this
  have b: "b_blockno (bufs ?s 0) = 0" by (simp add: cold_buf_def)
  show ?thesis
    using log_write_correct[OF f(1-3), of 0] f(4) b by (auto simp: LOGSIZE_def insert_commute elim!: wp_mono)
qed

text \<open>C24. The reservation is one block too generous. With the log size \<open>mkfs\<close> writes, \<open>LOGSIZE\<close>
  blocks with the header among them, three operations may begin on an empty log, each entitled to
  \<open>MAXOPBLOCKS\<close> blocks, 30 together; but the thirtieth block they log panics.\<close>

theorem log_reservation_gap:
  assumes "held s = []" and "\<not> lg_committing s" and "lh_n s = 0" and "lg_outstanding s = 0"
  shows "\<exists>t. steps [begin_op, begin_op, begin_op] s = Ok () t \<and> lg_outstanding t = 3 \<and>
     lg_outstanding t * MAXOPBLOCKS = int LOGSIZE \<and>
     (\<forall>u b. lh_n u = 29 \<and> lg_size u = int LOGSIZE \<longrightarrow> log_write b (u :: 'a lgst_scheme) = Panic ''too big a transaction'')"
  using assms by (simp add: begin_op_eq MAXOPBLOCKS_def LOGSIZE_def ret_eq log_write_def rd_eq panic_eq)

theorem log_reservation_gap_witness:
  "\<exists>t. steps [begin_op, begin_op, begin_op] demo_lgst = Ok () t \<and> lg_outstanding t = 3"
proof -
  have "\<not> lg_committing demo_lgst" "lh_n demo_lgst = 0" "lg_outstanding demo_lgst = 0" by (simp_all add: demo_lgst_def bst.defs)
  from log_reservation_gap[OF demo_lgst_fields(1) this] show ?thesis by blast
qed

end
