(* ===== verification/Inode.thy ===== *)
theory Inode
  imports Log
begin

text \<open>
  Disk blocks and inodes (the first part of \<open>src/fs.c\<close>): the block allocator over the free bitmap, the
  inode cache, reading and writing the contents of a file.

  An inode pointer is an index into \<open>icache.inode\<close>. Where the code copies file contents to or from a
  pointer that may be a user address, the model takes the copying routine as an argument: \<open>dst k bs\<close>
  stores \<open>bs\<close> at \<open>k\<close> bytes from the destination, \<open>src k n\<close> fetches \<open>n\<close> bytes from there. \<open>readi\<close> also returns the bytes,
  which is what a caller with a local buffer looks at. The device table \<open>devsw\<close> is the argument \<open>dsw\<close>.
\<close>

unbundle bit_operations_syntax

definition NINODE :: nat where "NINODE = 50"
definition NDEV :: int where "NDEV = 10"
definition NDIRECT :: nat where "NDIRECT = 12"
definition NINDIRECT :: nat where "NINDIRECT = 128"
definition MAXFILE :: nat where "MAXFILE = NDIRECT + NINDIRECT"
definition T_DIR :: u16 where "T_DIR = 1"
definition T_FILE :: u16 where "T_FILE = 2"
definition T_DEV :: u16 where "T_DEV = 3"

section \<open>Data\<close>

definition get16 :: "u8 list \<Rightarrow> nat \<Rightarrow> u16" where
  "get16 d off = ucast (d ! off) OR push_bit 8 (ucast (d ! Suc off))"

definition put16 :: "u8 list \<Rightarrow> nat \<Rightarrow> u16 \<Rightarrow> u8 list" where
  "put16 d off v = splice d off [ucast v, ucast (drop_bit 8 v)]"

text \<open>The fields an inode has in memory and on the disk.\<close>

record dinode =
  d_type :: u16
  d_major :: u16
  d_minor :: u16
  d_nlink :: u16
  d_size :: u32
  d_addrs :: "u32 list"

record inode =
  i_dev :: u32
  i_inum :: u32
  i_ref :: int
  i_valid :: bool
  i_d :: dinode

record ist = lgst +
  sb :: superblock
  inodes :: "nat \<Rightarrow> inode"

definition IPB :: nat where "IPB = 8"
definition BPB :: nat where "BPB = 4096"

definition IBLOCK :: "u32 \<Rightarrow> superblock \<Rightarrow> u32" where
  "IBLOCK i b = i div of_nat IPB + sb_inodestart b"

definition BBLOCK :: "u32 \<Rightarrow> superblock \<Rightarrow> u32" where
  "BBLOCK b s = b div of_nat BPB + sb_bmapstart s"

text \<open>\<open>(struct dinode* )data + k\<close>: 64 bytes, the addresses from byte 12.\<close>

definition dinode_get :: "u8 list \<Rightarrow> nat \<Rightarrow> dinode" where
  "dinode_get d k = (let p = 64 * k in \<lparr>d_type = get16 d p, d_major = get16 d (p + 2), d_minor = get16 d (p + 4),
     d_nlink = get16 d (p + 6), d_size = get32 d (p + 8), d_addrs = map (\<lambda>i. get32 d (p + 12 + 4 * i)) [0..<NDIRECT + 1]\<rparr>)"

definition dinode_put :: "u8 list \<Rightarrow> nat \<Rightarrow> dinode \<Rightarrow> u8 list" where
  "dinode_put d k x = (let p = 64 * k;
       d = put16 d p (d_type x); d = put16 d (p + 2) (d_major x); d = put16 d (p + 4) (d_minor x);
       d = put16 d (p + 6) (d_nlink x); d = put32 d (p + 8) (d_size x)
     in splice d (p + 12) (concat (map le32 (d_addrs x))))"

definition modi :: "nat \<Rightarrow> (inode \<Rightarrow> inode) \<Rightarrow> ('a ist_scheme, unit) kern" where
  "modi i f = upd (\<lambda>s. s\<lparr>inodes := (inodes s)(i := f (inodes s i))\<rparr>)"

definition geti :: "nat \<Rightarrow> ('a ist_scheme, inode) kern" where
  "geti i = rd (\<lambda>s. inodes s i)"

definition modd :: "nat \<Rightarrow> (dinode \<Rightarrow> dinode) \<Rightarrow> ('a ist_scheme, unit) kern" where
  "modd i f = modi i (\<lambda>x. x\<lparr>i_d := f (i_d x)\<rparr>)"

definition setb :: "nat \<Rightarrow> (u8 list \<Rightarrow> u8 list) \<Rightarrow> ('a bst_scheme, unit) kern" where
  "setb b f = modb b (\<lambda>x. x\<lparr>b_data := f (b_data x)\<rparr>)"

section \<open>Blocks\<close>

definition bzero :: "u32 \<Rightarrow> u32 \<Rightarrow> ('a lgst_scheme, unit) kern" where
  "bzero dev bno = bnd (bread dev bno) (\<lambda>bp. steps [setb bp (\<lambda>_. replicate BSIZE 0), log_write bp, brelse bp])"

definition bit_clear :: "u8 list \<Rightarrow> nat \<Rightarrow> bool" where
  "bit_clear d bi \<longleftrightarrow> d ! (bi div 8) AND push_bit (bi mod 8) 1 = 0"

definition balloc :: "u32 \<Rightarrow> ('a ist_scheme, u32) kern" where
  "balloc dev = bnd (rd sb) (\<lambda>sb.
     bnd (scan (map (\<lambda>k. k * BPB) [0..<(unat (sb_size sb) + BPB - 1) div BPB]) (\<lambda>b.
        bnd (bread dev (BBLOCK (of_nat b) sb)) (\<lambda>bp. bnd (getb bp) (\<lambda>x.
          case find (\<lambda>bi. bit_clear (b_data x) bi) [0..<min BPB (unat (sb_size sb) - b)] of
            Some bi \<Rightarrow>
              sq (setb bp (\<lambda>d. d[bi div 8 := d ! (bi div 8) OR push_bit (bi mod 8) 1]))
              (sq (log_write bp) (sq (brelse bp) (sq (bzero dev (of_nat (b + bi))) (ret (Some (of_nat (b + bi)))))))
          | None \<Rightarrow> sq (brelse bp) (ret None)))))
       (\<lambda>r. case r of Some a \<Rightarrow> ret a | None \<Rightarrow> panic ''balloc: out of blocks''))"

definition bfree :: "u32 \<Rightarrow> u32 \<Rightarrow> ('a ist_scheme, unit) kern" where
  "bfree dev b = bnd (rd sb) (\<lambda>sb. bnd (bread dev (BBLOCK b sb)) (\<lambda>bp. bnd (getb bp) (\<lambda>x.
     let bi = unat (b mod of_nat BPB) in
     if bit_clear (b_data x) bi then panic ''freeing free block''
     else steps [setb bp (\<lambda>d. d[bi div 8 := d ! (bi div 8) AND NOT (push_bit (bi mod 8) 1)]),
       log_write bp, brelse bp])))"

section \<open>The inode cache\<close>

definition iinit :: "u32 \<Rightarrow> ('a ist_scheme, unit) kern" where
  "iinit dev = sq (for_each [0..<NINODE] (\<lambda>i. initsleeplock (InodeSL i)))
     (bnd (readsb dev) (\<lambda>b. sq (upd (\<lambda>s. s\<lparr>sb := b\<rparr>))
       (cprintf ''sb: size %d nblocks %d ninodes %d nlog %d logstart %d inodestart %d bmap start %d\<newline>''
          [ANum (sb_size b), ANum (sb_nblocks b), ANum (sb_ninodes b), ANum (sb_nlog b), ANum (sb_logstart b),
           ANum (sb_inodestart b), ANum (sb_bmapstart b)])))"

definition iget :: "u32 \<Rightarrow> u32 \<Rightarrow> ('a ist_scheme, nat) kern" where
  "iget dev inum = sq (acquire IcacheLock) (bnd (rd inodes) (\<lambda>I.
     case find (\<lambda>i. i_ref (I i) > 0 \<and> i_dev (I i) = dev \<and> i_inum (I i) = inum) [0..<NINODE] of
       Some i \<Rightarrow> sq (modi i (\<lambda>x. x\<lparr>i_ref := i_ref x + 1\<rparr>)) (sq (release IcacheLock) (ret i))
     | None \<Rightarrow> (case find (\<lambda>i. i_ref (I i) = 0) [0..<NINODE] of
         None \<Rightarrow> panic ''iget: no inodes''
       | Some i \<Rightarrow> sq (modi i (\<lambda>x. x\<lparr>i_dev := dev, i_inum := inum, i_ref := 1, i_valid := False\<rparr>))
           (sq (release IcacheLock) (ret i)))))"

definition ialloc :: "u32 \<Rightarrow> u16 \<Rightarrow> ('a ist_scheme, nat) kern" where
  "ialloc dev ty = bnd (rd sb) (\<lambda>sb.
     bnd (scan [1..<unat (sb_ninodes sb)] (\<lambda>inum.
        bnd (bread dev (IBLOCK (of_nat inum) sb)) (\<lambda>bp. bnd (getb bp) (\<lambda>x.
          if d_type (dinode_get (b_data x) (inum mod IPB)) = 0 then
            sq (setb bp (\<lambda>d. put16 (splice d (64 * (inum mod IPB)) (replicate 64 0)) (64 * (inum mod IPB)) ty))
            (sq (log_write bp) (sq (brelse bp) (bnd (iget dev (of_nat inum)) (\<lambda>i. ret (Some i)))))
          else sq (brelse bp) (ret None)))))
       (\<lambda>r. case r of Some i \<Rightarrow> ret i | None \<Rightarrow> panic ''ialloc: no inodes''))"

definition iupdate :: "nat \<Rightarrow> ('a ist_scheme, unit) kern" where
  "iupdate ip = bnd (geti ip) (\<lambda>x. bnd (rd sb) (\<lambda>sb. bnd (bread (i_dev x) (IBLOCK (i_inum x) sb)) (\<lambda>bp.
     steps [setb bp (\<lambda>d. dinode_put d (unat (i_inum x) mod IPB) (i_d x)), log_write bp, brelse bp])))"

definition idup :: "nat \<Rightarrow> ('a ist_scheme, nat) kern" where
  "idup ip = sq (acquire IcacheLock) (sq (modi ip (\<lambda>x. x\<lparr>i_ref := i_ref x + 1\<rparr>)) (sq (release IcacheLock) (ret ip)))"

definition ilock :: "nat \<Rightarrow> ('a ist_scheme, unit) kern" where
  "ilock ip = bnd (geti ip) (\<lambda>x. if i_ref x < 1 then panic ''ilock''
     else sq (acquiresleep (InodeSL ip)) (bnd (geti ip) (\<lambda>x. bnd (rd sb) (\<lambda>sb.
       whenb (\<not> i_valid x)
         (bnd (bread (i_dev x) (IBLOCK (i_inum x) sb)) (\<lambda>bp. bnd (getb bp) (\<lambda>y.
            let d = dinode_get (b_data y) (unat (i_inum x) mod IPB) in
            steps [modi ip (\<lambda>z. z\<lparr>i_d := d\<rparr>), brelse bp, modi ip (\<lambda>z. z\<lparr>i_valid := True\<rparr>),
              whenb (d_type d = 0) (panic ''ilock: no type'')])))))))"

definition iunlock :: "nat \<Rightarrow> ('a ist_scheme, unit) kern" where
  "iunlock ip = bnd (holdingsleep (InodeSL ip)) (\<lambda>h. bnd (geti ip) (\<lambda>x.
     if \<not> h \<or> i_ref x < 1 then panic ''iunlock'' else releasesleep (InodeSL ip)))"

section \<open>Inode contents\<close>

definition set_addr :: "nat \<Rightarrow> nat \<Rightarrow> u32 \<Rightarrow> ('a ist_scheme, unit) kern" where
  "set_addr ip k a = modd ip (\<lambda>d. d\<lparr>d_addrs := (d_addrs d)[k := a]\<rparr>)"

text \<open>\<open>if ((addr = ip->addrs[k]) == 0) ip->addrs[k] = addr = balloc(ip->dev);\<close>\<close>

definition addr_or_alloc :: "nat \<Rightarrow> nat \<Rightarrow> ('a ist_scheme, u32) kern" where
  "addr_or_alloc ip k = bnd (geti ip) (\<lambda>x.
     if d_addrs (i_d x) ! k = 0 then bnd (balloc (i_dev x)) (\<lambda>a. sq (set_addr ip k a) (ret a))
     else ret (d_addrs (i_d x) ! k))"

definition bmap :: "nat \<Rightarrow> nat \<Rightarrow> ('a ist_scheme, u32) kern" where
  "bmap ip bn =
     (if bn < NDIRECT then addr_or_alloc ip bn
      else if bn - NDIRECT < NINDIRECT then
        bnd (geti ip) (\<lambda>x. bnd (addr_or_alloc ip NDIRECT) (\<lambda>ind.
        bnd (bread (i_dev x) ind) (\<lambda>bp. bnd (getb bp) (\<lambda>y.
          let a = get32 (b_data y) (4 * (bn - NDIRECT)) in
          if a = 0 then
            bnd (balloc (i_dev x)) (\<lambda>a.
              sq (setb bp (\<lambda>d. put32 d (4 * (bn - NDIRECT)) a))
              (sq (log_write bp) (sq (brelse bp) (ret a))))
          else sq (brelse bp) (ret a)))))
      else panic ''bmap: out of range'')"

definition itrunc :: "nat \<Rightarrow> ('a ist_scheme, unit) kern" where
  "itrunc ip = sq (for_each [0..<NDIRECT] (\<lambda>i. bnd (geti ip) (\<lambda>x.
        whenb (d_addrs (i_d x) ! i \<noteq> 0) (sq (bfree (i_dev x) (d_addrs (i_d x) ! i)) (set_addr ip i 0)))))
     (sq (bnd (geti ip) (\<lambda>x. whenb (d_addrs (i_d x) ! NDIRECT \<noteq> 0)
        (bnd (bread (i_dev x) (d_addrs (i_d x) ! NDIRECT)) (\<lambda>bp.
           steps [for_each [0..<NINDIRECT] (\<lambda>j. bnd (getb bp) (\<lambda>y. whenb (get32 (b_data y) (4 * j) \<noteq> 0)
                    (bfree (i_dev x) (get32 (b_data y) (4 * j))))),
             brelse bp, bfree (i_dev x) (d_addrs (i_d x) ! NDIRECT), set_addr ip NDIRECT 0]))))
     (sq (modd ip (\<lambda>d. d\<lparr>d_size := 0\<rparr>)) (iupdate ip)))"

definition iput :: "nat \<Rightarrow> ('a ist_scheme, unit) kern" where
  "iput ip = sq (acquiresleep (InodeSL ip)) (bnd (geti ip) (\<lambda>x.
     sq (whenb (i_valid x \<and> d_nlink (i_d x) = 0)
           (sq (acquire IcacheLock) (bnd (geti ip) (\<lambda>y. sq (release IcacheLock)
              (whenb (i_ref y = 1)
                 (steps [itrunc ip, modd ip (\<lambda>d. d\<lparr>d_type := 0\<rparr>), iupdate ip, modi ip (\<lambda>z. z\<lparr>i_valid := False\<rparr>)]))))))
     (steps [releasesleep (InodeSL ip), acquire IcacheLock, modi ip (\<lambda>z. z\<lparr>i_ref := i_ref z - 1\<rparr>), release IcacheLock])))"

definition iunlockput :: "nat \<Rightarrow> ('a ist_scheme, unit) kern" where
  "iunlockput ip = sq (iunlock ip) (iput ip)"

record stat =
  st_type :: u16
  st_dev :: u32
  st_ino :: u32
  st_nlink :: u16
  st_size :: u32

definition stati :: "nat \<Rightarrow> ('a ist_scheme, stat) kern" where
  "stati ip = bnd (geti ip) (\<lambda>x. ret \<lparr>st_type = d_type (i_d x), st_dev = i_dev x, st_ino = i_inum x,
     st_nlink = d_nlink (i_d x), st_size = d_size (i_d x)\<rparr>)"

type_synonym 's dst = "nat \<Rightarrow> u8 list \<Rightarrow> ('s, unit) kern"
type_synonym 's src = "nat \<Rightarrow> nat \<Rightarrow> ('s, u8 list) kern"

record 's devsw =
  dev_read :: "nat \<Rightarrow> (nat \<Rightarrow> 's dst \<Rightarrow> int \<Rightarrow> ('s, int) kern) option"
  dev_write :: "nat \<Rightarrow> (nat \<Rightarrow> 's src \<Rightarrow> int \<Rightarrow> ('s, int) kern) option"

text \<open>The loops of \<open>readi\<close> and \<open>writei\<close>; \<open>tot\<close> bytes are done.\<close>

definition chunk :: "nat \<Rightarrow> nat \<Rightarrow> nat \<Rightarrow> nat" where
  "chunk n tot off = min (n - tot) (BSIZE - off mod BSIZE)"

lemma chunk_pos: "tot < n \<Longrightarrow> 0 < chunk n tot off"
  by (simp add: chunk_def BSIZE_def)

function readi_loop :: "nat \<Rightarrow> ('a ist_scheme) dst \<Rightarrow> nat \<Rightarrow> nat \<Rightarrow> nat \<Rightarrow> ('a ist_scheme, u8 list) kern" where
  "readi_loop ip dst off n tot =
     (if tot < n then
        let m = chunk n tot off in
        bnd (geti ip) (\<lambda>x. bnd (bmap ip (off div BSIZE)) (\<lambda>a. bnd (bread (i_dev x) a) (\<lambda>bp. bnd (getb bp) (\<lambda>y.
          let bs = take m (drop (off mod BSIZE) (b_data y)) in
          sq (dst tot bs) (sq (brelse bp)
            (bnd (readi_loop ip dst (off + m) n (tot + m)) (\<lambda>rest. ret (bs @ rest))))))))
      else ret [])"
  by pat_completeness auto
termination
  using chunk_pos by (relation "measure (\<lambda>(ip, dst, off, n, tot). n - tot)") (auto intro: diff_less_mono2)

declare readi_loop.simps [simp del]

definition readi ::
    "('a ist_scheme) devsw \<Rightarrow> nat \<Rightarrow> ('a ist_scheme) dst \<Rightarrow> u32 \<Rightarrow> u32 \<Rightarrow> ('a ist_scheme, int \<times> u8 list) kern" where
  "readi dsw ip dst off n = bnd (geti ip) (\<lambda>x.
     if d_type (i_d x) = T_DEV then
       (let mj = sint (d_major (i_d x)) in
        if mj < 0 \<or> mj \<ge> NDEV then ret (-1, [])
        else case dev_read dsw (nat mj) of None \<Rightarrow> ret (-1, [])
        | Some f \<Rightarrow> bnd (f ip dst (sint n)) (\<lambda>r. ret (r, [])))
     else if off > d_size (i_d x) \<or> off + n < off then ret (-1, [])
     else let n = (if off + n > d_size (i_d x) then d_size (i_d x) - off else n) in
       bnd (readi_loop ip dst (unat off) (unat n) 0) (\<lambda>bs. ret (sint n, bs)))"

function writei_loop :: "nat \<Rightarrow> ('a ist_scheme) src \<Rightarrow> nat \<Rightarrow> nat \<Rightarrow> nat \<Rightarrow> ('a ist_scheme, nat) kern" where
  "writei_loop ip src off n tot =
     (if tot < n then
        let m = chunk n tot off in
        bnd (geti ip) (\<lambda>x. bnd (bmap ip (off div BSIZE)) (\<lambda>a. bnd (bread (i_dev x) a) (\<lambda>bp. bnd (src tot m) (\<lambda>bs.
          sq (setb bp (\<lambda>d. splice d (off mod BSIZE) bs)) (sq (log_write bp) (sq (brelse bp)
            (writei_loop ip src (off + m) n (tot + m))))))))
      else ret off)"
  by pat_completeness auto
termination
  using chunk_pos by (relation "measure (\<lambda>(ip, src, off, n, tot). n - tot)") (auto intro: diff_less_mono2)

declare writei_loop.simps [simp del]

definition writei ::
    "('a ist_scheme) devsw \<Rightarrow> nat \<Rightarrow> ('a ist_scheme) src \<Rightarrow> u32 \<Rightarrow> u32 \<Rightarrow> ('a ist_scheme, int) kern" where
  "writei dsw ip src off n = bnd (geti ip) (\<lambda>x.
     if d_type (i_d x) = T_DEV then
       (let mj = sint (d_major (i_d x)) in
        if mj < 0 \<or> mj \<ge> NDEV then ret (-1)
        else case dev_write dsw (nat mj) of None \<Rightarrow> ret (-1) | Some f \<Rightarrow> f ip src (sint n))
     else if off > d_size (i_d x) \<or> off + n < off then ret (-1)
     else if off + n > of_nat (MAXFILE * BSIZE) then ret (-1)
     else bnd (writei_loop ip src (unat off) (unat n) 0) (\<lambda>off'. bnd (geti ip) (\<lambda>y.
       sq (whenb (n > 0 \<and> of_nat off' > d_size (i_d y))
             (sq (modd ip (\<lambda>d. d\<lparr>d_size := of_nat off'\<rparr>)) (iupdate ip)))
          (ret (sint n)))))"

end
