(* ===== verification/Dir.thy ===== *)
theory Dir
  imports Inode
begin

text \<open>
  Directories and paths (the second part of \<open>src/fs.c\<close>). A directory is a file of 16-byte entries, an
  inode number and a name of up to 14 bytes. A path is modelled as its bytes, without the closing NUL;
  the name buffer as its 14 bytes, including what an earlier, longer name left behind.
\<close>

definition DIRSIZ :: nat where "DIRSIZ = 14"
definition ROOTDEV :: u32 where "ROOTDEV = 1"
definition ROOTINO :: u32 where "ROOTINO = 1"

text \<open>The bytes at a pointer to a NUL-terminated string.\<close>

definition rdr :: "u8 list \<Rightarrow> reader" where
  "rdr bs i = (if i < length bs then bs ! i else 0)"

definition namecmp :: "u8 list \<Rightarrow> u8 list \<Rightarrow> int" where
  "namecmp s t = strncmp (rdr s) (rdr t) DIRSIZ"

section \<open>Paths\<close>

definition slash :: u8 where "slash = 47"

definition skipelem :: "u8 list \<Rightarrow> u8 list \<Rightarrow> (u8 list \<times> u8 list) option" where
  "skipelem path name =
     (let s = dropWhile (\<lambda>c. c = slash) path in
      if s = [] then None
      else let elem = takeWhile (\<lambda>c. c \<noteq> slash) s; path = dropWhile (\<lambda>c. c \<noteq> slash) s in
        Some (dropWhile (\<lambda>c. c = slash) path,
          if length elem \<ge> DIRSIZ then take DIRSIZ elem else splice name 0 (elem @ [0])))"

lemma skipelem_shorter:
  assumes "skipelem path name = Some (rest, name')"
  shows "length rest < length path"
proof -
  let ?s = "dropWhile (\<lambda>c. c = slash) path"
  have s: "?s \<noteq> []" and r: "rest = dropWhile (\<lambda>c. c = slash) (dropWhile (\<lambda>c. c \<noteq> slash) ?s)"
    using assms by (auto simp: skipelem_def Let_def split: if_splits)
  have "hd ?s \<noteq> slash" using hd_dropWhile[OF s] .
  then have "length (dropWhile (\<lambda>c. c \<noteq> slash) ?s) < length ?s"
    using s by (cases ?s) (auto simp: le_imp_less_Suc length_dropWhile_le)
  moreover have "length rest \<le> length (dropWhile (\<lambda>c. c \<noteq> slash) ?s)" unfolding r by (rule length_dropWhile_le)
  moreover have "length ?s \<le> length path" by (rule length_dropWhile_le)
  ultimately show ?thesis by simp
qed

section \<open>Directory entries\<close>

definition de_inum :: "u8 list \<Rightarrow> u16" where
  "de_inum de = get16 de 0"

definition de_name :: "u8 list \<Rightarrow> u8 list" where
  "de_name de = take DIRSIZ (drop 2 de)"

text \<open>\<open>for (off = 0; off < dp->size; off += sizeof(de))\<close>, and reading the entry there.\<close>

definition dir_offs :: "u32 \<Rightarrow> nat list" where
  "dir_offs sz = map (\<lambda>k. 16 * k) [0..<(unat sz + 15) div 16]"

definition no_dst :: "'s dst" where
  "no_dst k bs = ret ()"

definition read_dirent :: "('a ist_scheme) devsw \<Rightarrow> string \<Rightarrow> nat \<Rightarrow> nat \<Rightarrow> ('a ist_scheme, u8 list) kern" where
  "read_dirent dsw msg dp off = bnd (readi dsw dp no_dst (of_nat off) 16) (\<lambda>(r, de).
     if r \<noteq> 16 then panic msg else ret de)"

definition dirlookup ::
    "('a ist_scheme) devsw \<Rightarrow> nat \<Rightarrow> u8 list \<Rightarrow> ('a ist_scheme, (nat \<times> nat) option) kern" where
  "dirlookup dsw dp name = bnd (geti dp) (\<lambda>x.
     if d_type (i_d x) \<noteq> T_DIR then panic ''dirlookup not DIR''
     else scan (dir_offs (d_size (i_d x))) (\<lambda>off. bnd (read_dirent dsw ''dirlookup read'' dp off) (\<lambda>de.
       if de_inum de = 0 then ret None
       else if namecmp name (de_name de) = 0 then bnd (iget (i_dev x) (ucast (de_inum de))) (\<lambda>ip. ret (Some (ip, off)))
       else ret None)))"

definition mk_dirent :: "u8 list \<Rightarrow> u32 \<Rightarrow> u8 list" where
  "mk_dirent name inum = [ucast inum, ucast (drop_bit 8 inum)] @ strncpy (rdr name) DIRSIZ"

definition from_buf :: "u8 list \<Rightarrow> 's src" where
  "from_buf bs k n = ret (take n (drop k bs))"

definition dirlink :: "('a ist_scheme) devsw \<Rightarrow> nat \<Rightarrow> u8 list \<Rightarrow> u32 \<Rightarrow> ('a ist_scheme, int) kern" where
  "dirlink dsw dp name inum = bnd (dirlookup dsw dp name) (\<lambda>r. case r of
     Some (ip, _) \<Rightarrow> sq (iput ip) (ret (-1))
   | None \<Rightarrow> bnd (geti dp) (\<lambda>x. let offs = dir_offs (d_size (i_d x)) in
       bnd (scan offs (\<lambda>off. bnd (read_dirent dsw ''dirlink read'' dp off) (\<lambda>de.
              ret (if de_inum de = 0 then Some off else None)))) (\<lambda>r.
       let off = (case r of Some off \<Rightarrow> off | None \<Rightarrow> 16 * length offs) in
       bnd (writei dsw dp (from_buf (mk_dirent name inum)) (of_nat off) 16) (\<lambda>n.
         if n \<noteq> 16 then panic ''dirlink'' else ret 0))))"

section \<open>Path lookup\<close>

function namex_loop ::
    "('a ist_scheme) devsw \<Rightarrow> bool \<Rightarrow> u8 list \<Rightarrow> u8 list \<Rightarrow> nat \<Rightarrow> ('a ist_scheme, nat option \<times> u8 list) kern" where
  "namex_loop dsw parent path name ip = (case skipelem path name of
     None \<Rightarrow> if parent then sq (iput ip) (ret (None, name)) else ret (Some ip, name)
   | Some (path', name') \<Rightarrow>
       sq (ilock ip) (bnd (geti ip) (\<lambda>x.
         if d_type (i_d x) \<noteq> T_DIR then sq (iunlockput ip) (ret (None, name'))
         else if parent \<and> path' = [] then sq (iunlock ip) (ret (Some ip, name'))
         else bnd (dirlookup dsw ip name') (\<lambda>r. case r of
           None \<Rightarrow> sq (iunlockput ip) (ret (None, name'))
         | Some (next_ip, _) \<Rightarrow> sq (iunlockput ip) (namex_loop dsw parent path' name' next_ip)))))"
  by pat_completeness auto
termination
  using skipelem_shorter by (relation "measure (\<lambda>(dsw, parent, path, name, ip). length path)") auto

declare namex_loop.simps [simp del]

definition namex ::
    "('a ist_scheme) devsw \<Rightarrow> bool \<Rightarrow> u8 list \<Rightarrow> u8 list \<Rightarrow> ('a ist_scheme, nat option \<times> u8 list) kern" where
  "namex dsw parent path name =
     bnd (if path \<noteq> [] \<and> hd path = slash then iget ROOTDEV ROOTINO
          else bnd myproc_deref (\<lambda>p. bnd (getp p) (\<lambda>x.
            case p_cwd x of None \<Rightarrow> undef ''null cwd'' | Some ip \<Rightarrow> idup ip)))
       (\<lambda>ip. namex_loop dsw parent path name ip)"

definition namei :: "('a ist_scheme) devsw \<Rightarrow> u8 list \<Rightarrow> ('a ist_scheme, nat option) kern" where
  "namei dsw path = bnd (namex dsw False path (replicate DIRSIZ 0)) (\<lambda>(ip, _). ret ip)"

definition nameiparent :: "('a ist_scheme) devsw \<Rightarrow> u8 list \<Rightarrow> u8 list \<Rightarrow> ('a ist_scheme, nat option \<times> u8 list) kern" where
  "nameiparent dsw path name = namex dsw True path name"

end
