(* ===== verification/Ring.thy ===== *)
theory Ring
  imports Prelude
begin

text \<open>
  Ring buffers with free-running 32-bit indices, as pipes (\<open>src/pipe.c\<close>) and the console input
  (\<open>src/console.c\<close>) use them: a byte with index \<open>i\<close> is stored in slot \<open>i mod N\<close>, and the contents are the
  bytes from the read to the write index. The indices wrap around at \<open>2 ^ 32\<close>, which is harmless
  because \<open>N\<close> divides it.
\<close>

definition ring_list :: "nat \<Rightarrow> (nat \<Rightarrow> 'x) \<Rightarrow> u32 \<Rightarrow> u32 \<Rightarrow> 'x list" where
  "ring_list N buf r w = map (\<lambda>k. buf (unat (r + of_nat k) mod N)) [0..<unat (w - r)]"

lemma length_ring_list [simp]: "length (ring_list N buf r w) = unat (w - r)"
  by (simp add: ring_list_def)

lemma ring_list_empty [simp]: "ring_list N buf r r = []"
  by (simp add: ring_list_def)

lemma unat_Suc_diff: "unat (w - r) < 4294967295 \<Longrightarrow> unat (w + 1 - r) = Suc (unat ((w :: u32) - r))"
proof -
  assume a: "unat (w - r) < 4294967295"
  have "w + 1 - r = (w - r) + 1" by simp
  also have "unat \<dots> = Suc (unat (w - r))" using a by (simp add: unat_word_ariths)
  finally show ?thesis .
qed

locale ring_buffer =
  fixes N :: nat
  assumes pos: "0 < N" and dvd: "N dvd 4294967296" and small: "N < 4294967296"
begin

lemma slot_of_nat: "unat (r + of_nat k :: u32) mod N = (unat r + k) mod N"
proof -
  have "unat (r + of_nat k :: u32) = (unat r + k) mod 4294967296"
    by (simp add: unat_word_ariths unat_of_nat mod_add_right_eq)
  then show ?thesis using dvd by (simp add: mod_mod_cancel)
qed

lemma slot_distinct:
  assumes "j < k" "k \<le> n" "n < N"
  shows "unat (r + of_nat j :: u32) mod N \<noteq> unat (r + of_nat k :: u32) mod N"
proof
  assume "unat (r + of_nat j :: u32) mod N = unat (r + of_nat k :: u32) mod N"
  then have "(unat r + k) mod N = (unat r + j) mod N" by (simp add: slot_of_nat)
  then have "N dvd (unat r + k) - (unat r + j)" by (rule mod_eq_dvd_iff_nat[THEN iffD1, rotated]) (use assms in simp)
  then have "N dvd k - j" by simp
  then show False using assms nat_dvd_not_less[of "k - j" N] by simp
qed

text \<open>Appending at the write index, with a free slot.\<close>

lemma ring_put:
  assumes "unat (w - r) < N"
  shows "ring_list N (buf(unat w mod N := c)) r (w + 1) = ring_list N buf r w @ [c]"
proof -
  let ?n = "unat (w - r)"
  have n: "unat (w + 1 - r) = Suc ?n" using assms small by (intro unat_Suc_diff) simp
  have w: "w = r + of_nat ?n" by simp
  have "buf (unat (r + of_nat k) mod N) = (buf(unat w mod N := c)) (unat (r + of_nat k) mod N)" if "k < ?n" for k
    using slot_distinct[OF that order_refl assms, of r] w by simp
  then show ?thesis by (simp add: ring_list_def n)
qed

text \<open>Taking from the read index.\<close>

lemma ring_get:
  assumes "r \<noteq> w"
  shows "ring_list N buf r w = buf (unat r mod N) # ring_list N buf (r + 1) w"
proof -
  have "unat (w - r) \<noteq> 0" using assms by (simp add: unat_eq_0)
  moreover have e: "unat (w - (r + 1)) = unat (w - r) - 1"
  proof -
    have "w - (r + 1) = w - r - 1" by simp
    moreover have "w - r \<noteq> 0" using assms by simp
    ultimately show ?thesis using unat_minus_one by metis
  qed
  ultimately have n: "unat (w - r) = Suc (unat (w - (r + 1)))" by simp
  show ?thesis
    unfolding ring_list_def n upt_conv_Cons[OF zero_less_Suc] map_Suc_upt[symmetric]
    by (simp add: algebra_simps)
qed

text \<open>Dropping the last byte again.\<close>

lemma ring_unput:
  assumes "r \<noteq> w"
  shows "ring_list N buf r (w - 1) = butlast (ring_list N buf r w)"
proof -
  have "w - 1 - r = w - r - 1" by simp
  moreover have "w - r \<noteq> 0" using assms by simp
  ultimately have "unat (w - 1 - r) = unat (w - r) - 1" using unat_minus_one by metis
  then show ?thesis by (simp add: ring_list_def butlast_conv_take take_map)
qed

end

end
