(* ===== verification/Pipe.thy ===== *)
theory Pipe
  imports Dir Ring
begin

text \<open>
  Pipes (\<open>src/pipe.c\<close>), and the part of the state that holds what file descriptors refer to: the pipes
  (by the address of the page that holds them), the console input and screen, and the table of open files
  (\<open>struct file\<close> of \<open>src/file.h\<close>).

  \<open>pipewrite_loop\<close> is the loop of \<open>pipewrite\<close> from byte \<open>i\<close>, and \<open>piperead_loop\<close> the waiting loop of
  \<open>piperead\<close>: what a process does when it is resumed after having slept there is \<open>sleep_resume\<close> and then the same loop.
\<close>

definition PIPESIZE :: nat where "PIPESIZE = 512"
definition NFILE :: nat where "NFILE = 100"

record pipe =
  pi_data :: "nat \<Rightarrow> u8"
  pi_nread :: u32
  pi_nwrite :: u32
  pi_readopen :: bool
  pi_writeopen :: bool

datatype ftype = FD_NONE | FD_PIPE | FD_INODE

record filestruct =
  f_type :: ftype
  f_ref :: int
  f_readable :: bool
  f_writable :: bool
  f_pipe :: u32
  f_ip :: nat
  f_off :: u32

record fdst = ist +
  pipes :: "u32 \<Rightarrow> pipe"
  in_buf :: "nat \<Rightarrow> u8"
  in_r :: u32
  in_w :: u32
  in_e :: u32
  crt :: "nat \<Rightarrow> u16"
  cursor :: int
  ftable :: "nat \<Rightarrow> filestruct"

definition modpi :: "u32 \<Rightarrow> (pipe \<Rightarrow> pipe) \<Rightarrow> ('a fdst_scheme, unit) kern" where
  "modpi p f = upd (\<lambda>s. s\<lparr>pipes := (pipes s)(p := f (pipes s p))\<rparr>)"

definition getpi :: "u32 \<Rightarrow> ('a fdst_scheme, pipe) kern" where
  "getpi p = rd (\<lambda>s. pipes s p)"

definition my_killed :: "('a pst_scheme, bool) kern" where
  "my_killed = bnd myproc_deref (\<lambda>p. bnd (getp p) (\<lambda>x. ret (p_killed x \<noteq> 0)))"

section \<open>Operations\<close>

definition pipeclose :: "u32 \<Rightarrow> bool \<Rightarrow> ('a fdst_scheme, unit) kern" where
  "pipeclose p writable = sq (acquire (PipeLock p))
     (sq (if writable then sq (modpi p (\<lambda>x. x\<lparr>pi_writeopen := False\<rparr>)) (wakeup (ChPipeRead p))
          else sq (modpi p (\<lambda>x. x\<lparr>pi_readopen := False\<rparr>)) (wakeup (ChPipeWrite p)))
     (bnd (getpi p) (\<lambda>x.
        if \<not> pi_readopen x \<and> \<not> pi_writeopen x then sq (release (PipeLock p)) (kfree p)
        else release (PipeLock p))))"

definition pipe_push :: "u32 \<Rightarrow> u8 \<Rightarrow> ('a fdst_scheme, unit) kern" where
  "pipe_push p c = modpi p (\<lambda>x. x\<lparr>pi_data := (pi_data x)(unat (pi_nwrite x) mod PIPESIZE := c), pi_nwrite := pi_nwrite x + 1\<rparr>)"

function pipewrite_loop :: "u32 \<Rightarrow> ('a fdst_scheme) src \<Rightarrow> nat \<Rightarrow> nat \<Rightarrow> ('a fdst_scheme, int) kern" where
  "pipewrite_loop p src n i =
     (if i < n then bnd (getpi p) (\<lambda>x.
        if pi_nwrite x = pi_nread x + of_nat PIPESIZE then
          bnd my_killed (\<lambda>k.
            if \<not> pi_readopen x \<or> k then sq (release (PipeLock p)) (ret (-1))
            else sq (wakeup (ChPipeRead p)) (sleep (ChPipeWrite p) (PipeLock p)))
        else bnd (src i 1) (\<lambda>bs. sq (pipe_push p (hd bs)) (pipewrite_loop p src n (Suc i))))
      else sq (wakeup (ChPipeRead p)) (sq (release (PipeLock p)) (ret (int n))))"
  by pat_completeness auto
termination
  by (relation "measure (\<lambda>(p, src, n, i). n - i)") auto

declare pipewrite_loop.simps [simp del]

definition pipewrite :: "u32 \<Rightarrow> ('a fdst_scheme) src \<Rightarrow> int \<Rightarrow> ('a fdst_scheme, int) kern" where
  "pipewrite p src n = sq (acquire (PipeLock p))
     (bnd (pipewrite_loop p src (nat n) 0) (\<lambda>r. ret (if r < 0 then r else n)))"

function pipe_copy :: "u32 \<Rightarrow> ('a fdst_scheme) dst \<Rightarrow> nat \<Rightarrow> nat \<Rightarrow> ('a fdst_scheme, nat) kern" where
  "pipe_copy p dst n i =
     (if i < n then bnd (getpi p) (\<lambda>x.
        if pi_nread x = pi_nwrite x then ret i
        else sq (modpi p (\<lambda>y. y\<lparr>pi_nread := pi_nread y + 1\<rparr>))
          (sq (dst i [pi_data x (unat (pi_nread x) mod PIPESIZE)]) (pipe_copy p dst n (Suc i))))
      else ret i)"
  by pat_completeness auto
termination
  by (relation "measure (\<lambda>(p, dst, n, i). n - i)") auto

declare pipe_copy.simps [simp del]

definition piperead_loop :: "u32 \<Rightarrow> ('a fdst_scheme) dst \<Rightarrow> int \<Rightarrow> ('a fdst_scheme, int) kern" where
  "piperead_loop p dst n = bnd (getpi p) (\<lambda>x.
     if pi_nread x = pi_nwrite x \<and> pi_writeopen x then
       bnd my_killed (\<lambda>k. if k then sq (release (PipeLock p)) (ret (-1)) else sleep (ChPipeRead p) (PipeLock p))
     else bnd (pipe_copy p dst (nat n) 0) (\<lambda>i.
       sq (wakeup (ChPipeWrite p)) (sq (release (PipeLock p)) (ret (int i)))))"

definition piperead :: "u32 \<Rightarrow> ('a fdst_scheme) dst \<Rightarrow> int \<Rightarrow> ('a fdst_scheme, int) kern" where
  "piperead p dst n = sq (acquire (PipeLock p)) (piperead_loop p dst n)"

section \<open>Pipes as queues\<close>

interpretation pipe_ring: ring_buffer PIPESIZE
  by unfold_locales (simp_all add: PIPESIZE_def)

definition pipe_list :: "pipe \<Rightarrow> u8 list" where
  "pipe_list x = ring_list PIPESIZE (pi_data x) (pi_nread x) (pi_nwrite x)"

definition pipe_wf :: "pipe \<Rightarrow> bool" where
  "pipe_wf x \<longleftrightarrow> length (pipe_list x) \<le> PIPESIZE"

definition pushed1 :: "u8 \<Rightarrow> pipe \<Rightarrow> pipe" where
  "pushed1 c x = x\<lparr>pi_data := (pi_data x)(unat (pi_nwrite x) mod PIPESIZE := c), pi_nwrite := pi_nwrite x + 1\<rparr>"

definition push_all :: "u8 list \<Rightarrow> pipe \<Rightarrow> pipe" where
  "push_all bs x = foldl (\<lambda>x c. pushed1 c x) x bs"

lemma pipe_full_iff: "pipe_wf x \<Longrightarrow> pi_nwrite x = pi_nread x + of_nat PIPESIZE \<longleftrightarrow> length (pipe_list x) = PIPESIZE"
proof -
  have "pi_nwrite x = pi_nread x + of_nat PIPESIZE \<longleftrightarrow> pi_nwrite x - pi_nread x = of_nat PIPESIZE" by (auto simp: algebra_simps)
  also have "\<dots> \<longleftrightarrow> unat (pi_nwrite x - pi_nread x) = PIPESIZE"
    by (simp add: word_unat_eq_iff PIPESIZE_def)
  finally show ?thesis by (simp add: pipe_list_def)
qed

lemma pushed1_list:
  assumes "length (pipe_list x) < PIPESIZE"
  shows "pipe_list (pushed1 c x) = pipe_list x @ [c]"
  using pipe_ring.ring_put[of "pi_nwrite x" "pi_nread x"] assms by (simp add: pipe_list_def pushed1_def)

lemma push_all_list:
  "length (pipe_list x) + length bs \<le> PIPESIZE \<Longrightarrow> pipe_list (push_all bs x) = pipe_list x @ bs"
  by (induction bs arbitrary: x) (simp_all add: push_all_def pushed1_list)

lemma push_all_open [simp]:
  "pi_readopen (push_all bs x) = pi_readopen x" "pi_writeopen (push_all bs x) = pi_writeopen x"
  by (induction bs arbitrary: x) (simp_all add: push_all_def pushed1_def)

lemma modpi_eq: "modpi p f s = Ok () (s\<lparr>pipes := (pipes s)(p := f (pipes s p))\<rparr>)"
  by (simp add: modpi_def upd_eq)

lemma getpi_eq: "getpi p s = Ok (pipes s p) s"
  by (simp add: getpi_def rd_eq)

lemma pipe_push_eq: "pipe_push p c s = Ok () (s\<lparr>pipes := (pipes s)(p := pushed1 c (pipes s p))\<rparr>)"
  by (simp add: pipe_push_def modpi_eq pushed1_def)

lemma my_killed_eq: "curproc s = Some q \<Longrightarrow> my_killed s = Ok (p_killed (ptable s q) \<noteq> 0) s"
  by (simp add: my_killed_def proc_runs)

lemmas pipe_runs = sl_runs modpi_eq getpi_eq pipe_push_eq my_killed_eq

lemma now_pipes [simp]: "now (s\<lparr>pipes := f\<rparr>) = now s"
  by (simp add: now_def)

section \<open>Writing\<close>

text \<open>As long as there is room the loop moves bytes.\<close>

lemma pipewrite_moves:
  assumes "pipe_wf (pipes s p)" "i + m \<le> length bs" "length (pipe_list (pipes s p)) + m \<le> PIPESIZE"
  shows "pipewrite_loop p (from_buf bs) (length bs) i s = pipewrite_loop p (from_buf bs) (length bs) (i + m)
     (s\<lparr>pipes := (pipes s)(p := push_all (take m (drop i bs)) (pipes s p))\<rparr>)"
  using assms
proof (induction m arbitrary: i s)
  case 0
  then show ?case by (simp add: push_all_def)
next
  case (Suc m)
  have i: "i < length bs" and room: "length (pipe_list (pipes s p)) < PIPESIZE" using Suc.prems by auto
  let ?s = "s\<lparr>pipes := (pipes s)(p := pushed1 (bs ! i) (pipes s p))\<rparr>"
  have "hd (drop i bs) = bs ! i" using i by (simp add: hd_drop_conv_nth)
  then have hd: "from_buf bs i 1 s = Ok (take 1 (drop i bs)) s" "hd (take 1 (drop i bs)) = bs ! i"
    using i by (simp_all add: from_buf_def ret_eq)
  have full: "pi_nwrite (pipes s p) \<noteq> pi_nread (pipes s p) + of_nat PIPESIZE"
    using pipe_full_iff[OF Suc.prems(1)] room by simp
  have "pipewrite_loop p (from_buf bs) (length bs) i s = pipewrite_loop p (from_buf bs) (length bs) (Suc i) ?s"
    using i hd full by (subst pipewrite_loop.simps) (simp add: pipe_runs)
  also have "\<dots> = pipewrite_loop p (from_buf bs) (length bs) (i + Suc m)
     (s\<lparr>pipes := (pipes s)(p := push_all (take m (drop (Suc i) bs)) (pushed1 (bs ! i) (pipes s p)))\<rparr>)"
  proof -
    have e: "?s\<lparr>pipes := (pipes ?s)(p := v)\<rparr> = s\<lparr>pipes := (pipes s)(p := v)\<rparr>" for v by (cases s) simp
    show ?thesis using Suc.IH[of ?s "Suc i", unfolded e] Suc.prems room by (simp add: pipe_wf_def pushed1_list)
  qed
  also have "push_all (take m (drop (Suc i) bs)) (pushed1 (bs ! i) (pipes s p)) = push_all (take (Suc m) (drop i bs)) (pipes s p)"
    using i by (simp add: push_all_def Cons_nth_drop_Suc[symmetric])
  finally show ?case .
qed

lemma pipewrite_end:
  assumes "held s = [PipeLock p]"
  shows "pipewrite_loop p src n n s = Ok (int n) (s\<lparr>held := [], ptable := wake_table (ChPipeRead p) (now s) (ptable s)\<rparr>)"
  using assms by (subst pipewrite_loop.simps) (simp add: pipe_runs wakeup_eq)

lemma pipewrite_full:
  assumes "held s = [PipeLock p]" "curproc s = Some q" "pipe_wf (pipes s p)" "length (pipe_list (pipes s p)) = PIPESIZE" "i < n"
  shows "pipewrite_loop p src n i s =
     (if \<not> pi_readopen (pipes s p) \<or> p_killed (ptable s q) \<noteq> 0 then Ok (-1) (s\<lparr>held := []\<rparr>)
      else Switches (s\<lparr>held := [PtableLock], ptable := (wake_table (ChPipeRead p) (now s) (ptable s))
         (q := (wake_table (ChPipeRead p) (now s) (ptable s) q)\<lparr>p_chan := Some (ChPipeWrite p), p_state := SLEEPING\<rparr>)\<rparr>))"
  using assms pipe_full_iff[OF assms(3)]
  by (subst pipewrite_loop.simps) (simp add: pipe_runs wakeup_eq sleep_eq)

section \<open>Reading\<close>

text \<open>A destination in memory.\<close>

definition mem_dst :: "(nat \<Rightarrow> u8 list \<Rightarrow> mem \<Rightarrow> mem) \<Rightarrow> ('a kmem_scheme) dst" where
  "mem_dst P k bs = upd (\<lambda>s. s\<lparr>pmem := P k bs (pmem s)\<rparr>)"

fun deliver :: "(nat \<Rightarrow> u8 list \<Rightarrow> mem \<Rightarrow> mem) \<Rightarrow> nat \<Rightarrow> u8 list \<Rightarrow> mem \<Rightarrow> mem" where
  "deliver P k [] m = m"
| "deliver P k (c # cs) m = deliver P (Suc k) cs (P k [c] m)"

definition popped :: "nat \<Rightarrow> pipe \<Rightarrow> pipe" where
  "popped k x = x\<lparr>pi_nread := pi_nread x + of_nat k\<rparr>"

lemma popped_0 [simp]: "popped 0 x = x"
  by (simp add: popped_def)

lemma pipe_list_Cons:
  assumes "pi_nread x \<noteq> pi_nwrite x"
  shows "pipe_list x = pi_data x (unat (pi_nread x) mod PIPESIZE) # pipe_list (popped 1 x)"
  using pipe_ring.ring_get[OF assms, of "pi_data x"] by (simp add: pipe_list_def popped_def)

lemma pipe_list_Nil: "pi_nread x = pi_nwrite x \<longleftrightarrow> pipe_list x = []"
  by (metis length_0_conv length_ring_list pipe_list_Cons pipe_list_def ring_list_empty list.distinct(1))

lemma pipe_copy_eq:
  "pipe_copy p (mem_dst P) n i s = (let j = min (n - i) (length (pipe_list (pipes s p))) in
     Ok (i + j) (s\<lparr>pmem := deliver P i (take j (pipe_list (pipes s p))) (pmem s), pipes := (pipes s)(p := popped j (pipes s p))\<rparr>))"
proof (induction "n - i" arbitrary: i s)
  case 0
  then show ?case by (subst pipe_copy.simps) (simp add: ret_eq)
next
  case (Suc d)
  then have i: "i < n" by simp
  let ?x = "pipes s p"
  show ?case
  proof (cases "pi_nread ?x = pi_nwrite ?x")
    case True
    then show ?thesis using i pipe_list_Nil[of ?x] by (subst pipe_copy.simps) (simp add: pipe_runs)
  next
    case False
    let ?c = "pi_data ?x (unat (pi_nread ?x) mod PIPESIZE)"
    let ?s = "s\<lparr>pipes := (pipes s)(p := popped 1 ?x), pmem := P i [?c] (pmem s)\<rparr>"
    have l: "pipe_list ?x = ?c # pipe_list (popped 1 ?x)" by (rule pipe_list_Cons[OF False])
    have "pipe_copy p (mem_dst P) n i s = pipe_copy p (mem_dst P) n (Suc i) ?s"
      using i False by (subst pipe_copy.simps) (simp add: pipe_runs mem_dst_def popped_def)
    also have "\<dots> = (let j = min (n - Suc i) (length (pipe_list (popped 1 ?x))) in
     Ok (Suc i + j) (?s\<lparr>pmem := deliver P (Suc i) (take j (pipe_list (popped 1 ?x))) (P i [?c] (pmem s)),
        pipes := (pipes s)(p := popped j (popped 1 ?x))\<rparr>))"
      using Suc.hyps(1)[of "Suc i" ?s] Suc.hyps(2) by (simp add: Let_def)
    also have "\<dots> = (let j = min (n - i) (length (pipe_list ?x)) in
     Ok (i + j) (s\<lparr>pmem := deliver P i (take j (pipe_list ?x)) (pmem s), pipes := (pipes s)(p := popped j ?x)\<rparr>))"
    proof -
      have "min (n - i) (length (pipe_list ?x)) = Suc (min (n - Suc i) (length (pipe_list (popped 1 ?x))))"
        unfolding l Suc_diff_Suc[OF i, symmetric] by simp
      moreover have "popped j (popped 1 ?x) = popped (Suc j) ?x" for j by (simp add: popped_def algebra_simps)
      moreover have "take (Suc j) (pipe_list ?x) = ?c # take j (pipe_list (popped 1 ?x))" for j by (subst l) simp
      ultimately show ?thesis by (simp add: Let_def)
    qed
    finally show ?thesis .
  qed
qed

lemma popped_list: "j \<le> length (pipe_list x) \<Longrightarrow> pipe_list (popped j x) = drop j (pipe_list x)"
proof (induction j arbitrary: x)
  case 0
  then show ?case by (simp add: popped_def)
next
  case (Suc j)
  then have "pi_nread x \<noteq> pi_nwrite x" using pipe_list_Nil[of x] by auto
  note l = pipe_list_Cons[OF this]
  have "popped (Suc j) x = popped j (popped 1 x)" by (simp add: popped_def algebra_simps)
  then show ?case using Suc l by simp
qed

section \<open>Properties\<close>

text \<open>A process with an empty pipe, for the examples.\<close>

definition empty_pipe :: pipe where
  "empty_pipe = \<lparr>pi_data = (\<lambda>_. 0), pi_nread = 0xFFFFFFFF, pi_nwrite = 0xFFFFFFFF, pi_readopen = True, pi_writeopen = True\<rparr>"

definition free_file :: filestruct where
  "free_file = \<lparr>f_type = FD_NONE, f_ref = 0, f_readable = False, f_writable = False, f_pipe = 0, f_ip = 0, f_off = 0\<rparr>"

definition free_inode :: inode where
  "free_inode = \<lparr>i_dev = 0, i_inum = 0, i_ref = 0, i_valid = False,
     i_d = \<lparr>d_type = 0, d_major = 0, d_minor = 0, d_nlink = 0, d_size = 0, d_addrs = replicate 13 0\<rparr>\<rparr>"

definition demo_fdst :: fdst where
  "demo_fdst = ist.extend (lgst.extend (bst.extend demo_bst
       \<lparr>lg_start = 2, lg_size = 30, lg_outstanding = 1, lg_committing = False, lg_dev = 1, lh_n = 0, lh_block = (\<lambda>_. 0)\<rparr>)
     \<lparr>sb = \<lparr>sb_size = 1000, sb_nblocks = 941, sb_ninodes = 200, sb_nlog = 30, sb_logstart = 2, sb_inodestart = 32, sb_bmapstart = 58\<rparr>,
      inodes = (\<lambda>_. free_inode)\<rparr>)
     \<lparr>pipes = (\<lambda>_. empty_pipe), in_buf = (\<lambda>_. 0), in_r = 0, in_w = 0, in_e = 0, crt = (\<lambda>_. 0), cursor = 0, ftable = (\<lambda>_. free_file)\<rparr>"

lemma demo_fdst_fields:
  "held demo_fdst = []" "curproc demo_fdst = Some 0" "pipes demo_fdst = (\<lambda>_. empty_pipe)" "ptable demo_fdst = (\<lambda>_. zero_proc)"
  "ftable demo_fdst = (\<lambda>_. free_file)" "inodes demo_fdst = (\<lambda>_. free_inode)" "in_r demo_fdst = 0" "in_w demo_fdst = 0" "in_e demo_fdst = 0"
  by (simp_all add: demo_fdst_def demo_bst_def boot_pst_def pst.defs slst.defs bst.defs lgst.defs ist.defs)

lemma empty_pipe_list: "pipe_list empty_pipe = []" "pipe_wf empty_pipe"
  by (simp_all add: pipe_list_def pipe_wf_def empty_pipe_def)

text \<open>C12. Writing to a pipe appends to a queue of at most \<open>PIPESIZE\<close> bytes, across the wrap-around of
  the indices. With room for all the bytes they are appended and the readers woken; with less, the
  queue is filled up, the readers are woken and the writer sleeps, unless the read end is closed or
  the writer has been killed, in which case it returns -1. No lock is held afterwards.\<close>

theorem pipewrite_correct:
  fixes s :: "'a fdst_scheme"
  assumes h: "held s = []" and c: "curproc s = Some q" and wf: "pipe_wf (pipes s p)"
  shows "let room = PIPESIZE - length (pipe_list (pipes s p)); out = pipewrite p (from_buf bs) (int (length bs)) s in
    if length bs \<le> room then
      \<exists>t. out = Ok (int (length bs)) t \<and> pipe_list (pipes t p) = pipe_list (pipes s p) @ bs \<and> held t = [] \<and>
        ptable t = wake_table (ChPipeRead p) (now s) (ptable s)
    else if \<not> pi_readopen (pipes s p) \<or> p_killed (ptable s q) \<noteq> 0 then \<exists>t. out = Ok (-1) t \<and> held t = []
    else \<exists>t. out = Switches t \<and> pipe_list (pipes t p) = pipe_list (pipes s p) @ take room bs \<and>
        p_state (ptable t q) = SLEEPING \<and> p_chan (ptable t q) = Some (ChPipeWrite p) \<and>
        (\<forall>i. i \<noteq> q \<longrightarrow> ptable t i = wake_table (ChPipeRead p) (now s) (ptable s) i)"
proof -
  let ?x = "pipes s p"
  let ?room = "PIPESIZE - length (pipe_list ?x)"
  let ?m = "min (length bs) ?room"
  let ?u = "s\<lparr>held := [PipeLock p]\<rparr>"
  let ?t = "?u\<lparr>pipes := (pipes s)(p := push_all (take ?m bs) ?x)\<rparr>"
  have l: "pipe_list (push_all (take ?m bs) ?x) = pipe_list ?x @ take ?m bs"
    using wf by (intro push_all_list) (auto simp: pipe_wf_def)
  have "pipewrite_loop p (from_buf bs) (length bs) 0 ?u = pipewrite_loop p (from_buf bs) (length bs) ?m ?t"
    using pipewrite_moves[of ?u p 0 ?m bs] wf by (simp add: pipe_wf_def)
  then have run: "pipewrite p (from_buf bs) (int (length bs)) s =
      bnd (pipewrite_loop p (from_buf bs) (length bs) ?m) (\<lambda>r. ret (if r < 0 then r else int (length bs))) ?t"
    using h by (simp add: pipewrite_def pipe_runs bnd_def)
  show ?thesis
  proof (cases "length bs \<le> ?room")
    case True
    have "pipewrite_loop p (from_buf bs) (length bs) (length bs) ?t =
        Ok (int (length bs)) (?t\<lparr>held := [], ptable := wake_table (ChPipeRead p) (now s) (ptable s)\<rparr>)"
      using pipewrite_end[of ?t p] by simp
    then show ?thesis using True l run by (simp add: Let_def ret_eq)
  next
    case False
    then have m: "?m = ?room" "?room < length bs" by auto
    have full: "length (pipe_list (push_all (take ?m bs) ?x)) = PIPESIZE"
      unfolding l using m wf by (simp add: pipe_wf_def)
    then have "pipe_wf (push_all (take ?m bs) ?x)" by (simp add: pipe_wf_def)
    note e = pipewrite_full[of ?t p q ?room "length bs" "from_buf bs"]
    show ?thesis
      using False full l run e c m(2) \<open>pipe_wf (push_all (take ?m bs) ?x)\<close> unfolding m(1)
      by (simp add: Let_def ret_eq) (simp add: bnd_def)
  qed
qed

theorem pipewrite_correct_witness:
  "\<exists>t. pipewrite 0x80300000 (from_buf [104, 105]) 2 demo_fdst = Ok 2 t \<and> pipe_list (pipes t 0x80300000) = [104, 105]"
  using pipewrite_correct[OF demo_fdst_fields(1,2), of "0x80300000" "[104, 105]"]
  by (auto simp: demo_fdst_fields(3) empty_pipe_list PIPESIZE_def)

text \<open>C13. Reading from a pipe takes from the front of the queue. A reader of an empty pipe whose
  write end is open sleeps, or returns -1 if it has been killed; otherwise it gets the first bytes, as
  many as there are up to \<open>n\<close>, in order, and the writers are woken: 0 means the end of the stream.\<close>

theorem piperead_correct:
  fixes s :: "'a fdst_scheme"
  assumes h: "held s = []" and c: "curproc s = Some q"
  shows "let out = piperead p (mem_dst P) n s; bs = pipe_list (pipes s p); j = min (nat n) (length bs) in
    if bs = [] \<and> pi_writeopen (pipes s p) then
      if p_killed (ptable s q) \<noteq> 0 then out = Ok (-1) s
      else \<exists>t. out = Switches t \<and> pipes t = pipes s \<and> p_state (ptable t q) = SLEEPING \<and>
        p_chan (ptable t q) = Some (ChPipeRead p)
    else \<exists>t. out = Ok (int j) t \<and> pipe_list (pipes t p) = drop j bs \<and> held t = [] \<and>
      pmem t = deliver P 0 (take j bs) (pmem s) \<and> ptable t = wake_table (ChPipeWrite p) (now s) (ptable s)"
proof -
  let ?u = "s\<lparr>held := [PipeLock p]\<rparr>"
  have run: "piperead p (mem_dst P) n s = piperead_loop p (mem_dst P) n ?u"
    using h by (simp add: piperead_def pipe_runs)
  show ?thesis
  proof (cases "pipe_list (pipes s p) = [] \<and> pi_writeopen (pipes s p)")
    case True
    then show ?thesis
      using run h c pipe_list_Nil[of "pipes s p"] by (simp add: piperead_loop_def pipe_runs sleep_eq)
  next
    case False
    let ?j = "min (nat n) (length (pipe_list (pipes s p)))"
    have nx: "\<not> (pi_nread (pipes s p) = pi_nwrite (pipes s p) \<and> pi_writeopen (pipes s p))"
      using False pipe_list_Nil[of "pipes s p"] by simp
    have cp: "pipe_copy p (mem_dst P) (nat n) 0 ?u = Ok ?j (?u\<lparr>pmem := deliver P 0 (take ?j (pipe_list (pipes s p))) (pmem s),
        pipes := (pipes s)(p := popped ?j (pipes s p))\<rparr>)"
      unfolding pipe_copy_eq by (simp add: Let_def)
    have "pipe_list (popped ?j (pipes s p)) = drop ?j (pipe_list (pipes s p))" by (rule popped_list) simp
    moreover have "now (s\<lparr>held := h', pmem := m, pipes := P'\<rparr>) = now s" for h' m P' by (simp add: now_def)
    ultimately show ?thesis
      using False nx by (simp only: run) (simp add: Let_def piperead_loop_def pipe_runs cp wakeup_eq)
  qed
qed

theorem piperead_correct_witness:
  "\<exists>t. piperead 0x80300000 (mem_dst (\<lambda>k. put_bytes (0x80400000 + of_nat k))) 10
       (demo_fdst\<lparr>pipes := (\<lambda>_. pushed1 104 (empty_pipe\<lparr>pi_writeopen := False\<rparr>))\<rparr>) = Ok 1 t \<and> pmem t 0x80400000 = 104"
proof -
  let ?s = "demo_fdst\<lparr>pipes := (\<lambda>_. pushed1 104 (empty_pipe\<lparr>pi_writeopen := False\<rparr>))\<rparr>"
  have f: "held ?s = []" "curproc ?s = Some 0" by (simp_all add: demo_fdst_fields)
  have "pipe_list (pushed1 104 (empty_pipe\<lparr>pi_writeopen := False\<rparr>)) = [104]"
    by (subst pushed1_list) (simp_all add: pipe_list_def empty_pipe_def PIPESIZE_def)
  then show ?thesis
    using piperead_correct[OF f, of "0x80300000" "\<lambda>k. put_bytes (0x80400000 + of_nat k)" 10] by (auto simp: Let_def)
qed

end
