(* ===== verification/Console.thy ===== *)
theory Console
  imports Pipe
begin

text \<open>
  The console (\<open>src/console.c\<close>): the screen, the line editor behind the keyboard interrupt, and reading
  and writing the console device. The keys that are pending when the interrupt handler runs, which it
  gets by calling \<open>getc\<close> until that returns a negative number, are a list. \<open>consoleread_loop\<close> is the
  reading loop with \<open>n\<close> of \<open>target\<close> bytes left; a reader that slept continues with \<open>sleep_resume\<close> and that loop.
\<close>

definition INPUT_BUF :: nat where "INPUT_BUF = 128"
definition BACKSPACE :: int where "BACKSPACE = 0x100"
definition CONSOLE :: nat where "CONSOLE = 1"

section \<open>The screen\<close>

text \<open>The CGA text memory and the cursor position; \<open>None\<close> is the panic.\<close>

definition cgaputc :: "int \<Rightarrow> (nat \<Rightarrow> u16) \<times> int \<Rightarrow> ((nat \<Rightarrow> u16) \<times> int) option" where
  "cgaputc c st = (case st of (scr, pos) \<Rightarrow>
     let (scr, pos) =
       (if c = 10 then (scr, pos + (80 - pos mod 80))
        else if c = BACKSPACE then (scr, if pos > 0 then pos - 1 else pos)
        else (scr(nat pos := (word_of_int c AND 0xFF) OR 0x0700), pos + 1)) in
     if pos < 0 \<or> pos > 25 * 80 then None
     else
       let (scr, pos) =
         (if pos div 80 \<ge> 24 then
            let scr = (\<lambda>i. if i < 23 * 80 then scr (i + 80) else scr i); pos = pos - 80 in
            (\<lambda>i. if nat pos \<le> i \<and> i < 24 * 80 then 0 else scr i, pos)
          else (scr, pos)) in
       Some (scr(nat pos := 0x20 OR 0x0700), pos))"

text \<open>The serial line, then the screen; a backspace is sent over the line as three characters. The loop
  of a panicked kernel is not reached, since the model stops at a panic.\<close>

definition uart_bytes :: "int \<Rightarrow> string" where
  "uart_bytes c = (if c = BACKSPACE then [char_of (8 :: nat), CHR '' '', char_of (8 :: nat)] else [char_of (nat (c mod 256))])"

definition consputc :: "int \<Rightarrow> ('a fdst_scheme, unit) kern" where
  "consputc c = sq (upd (\<lambda>s. s\<lparr>console := console s @ uart_bytes c\<rparr>))
     (bnd (rd (\<lambda>s. cgaputc c (crt s, cursor s))) (\<lambda>r. case r of
        None \<Rightarrow> panic ''pos under/overflow''
      | Some (m, pos) \<Rightarrow> upd (\<lambda>s. s\<lparr>crt := m, cursor := pos\<rparr>)))"

section \<open>The line editor\<close>

function kill_line :: "(nat \<Rightarrow> u8) \<Rightarrow> u32 \<Rightarrow> u32 \<Rightarrow> u32" where
  "kill_line buf w e =
     (if e \<noteq> w \<and> buf (unat (e - 1) mod INPUT_BUF) \<noteq> 10 then kill_line buf w (e - 1) else e)"
  by pat_completeness auto
termination
proof (relation "measure (\<lambda>(buf, w, e). unat (e - w))")
  fix buf :: "nat \<Rightarrow> u8" and w e :: u32
  assume "e \<noteq> w \<and> buf (unat (e - 1) mod INPUT_BUF) \<noteq> 10"
  then have "e - w \<noteq> 0" by simp
  moreover have "e - 1 - w = e - w - 1" by simp
  ultimately have "unat (e - 1 - w) = unat (e - w) - 1" "unat (e - w) \<noteq> 0" using unat_minus_one by (metis, simp add: unat_eq_0)
  then show "((buf, w, e - 1), (buf, w, e)) \<in> measure (\<lambda>(buf, w, e). unat (e - w))" by simp
qed simp

declare kill_line.simps [simp del]

definition key :: "int \<Rightarrow> ('a fdst_scheme, unit) kern" where
  "key c =
     (if c = 16 then ret ()
      else if c = 21 then bnd (rd (\<lambda>s. (in_e s, kill_line (in_buf s) (in_w s) (in_e s)))) (\<lambda>(e, e').
        sq (for_each [0..<unat (e - e')] (\<lambda>_. consputc BACKSPACE)) (upd (\<lambda>s. s\<lparr>in_e := e'\<rparr>)))
      else if c = 8 \<or> c = 127 then bnd (rd (\<lambda>s. in_e s \<noteq> in_w s)) (\<lambda>b.
        whenb b (sq (upd (\<lambda>s. s\<lparr>in_e := in_e s - 1\<rparr>)) (consputc BACKSPACE)))
      else bnd (rd (\<lambda>s. in_e s - in_r s < of_nat INPUT_BUF)) (\<lambda>room.
        whenb (c \<noteq> 0 \<and> room)
          (let c = (if c = 13 then 10 else c) in
           sq (upd (\<lambda>s. s\<lparr>in_buf := (in_buf s)(unat (in_e s) mod INPUT_BUF := word_of_int c), in_e := in_e s + 1\<rparr>))
           (sq (consputc c)
           (bnd (rd (\<lambda>s. in_e s = in_r s + of_nat INPUT_BUF)) (\<lambda>full.
              whenb (c = 10 \<or> c = 4 \<or> full) (sq (upd (\<lambda>s. s\<lparr>in_w := in_e s\<rparr>)) (wakeup ChInput))))))))"

definition consoleintr :: "int list \<Rightarrow> ('a fdst_scheme, unit) kern" where
  "consoleintr keys = steps [acquire ConsLock, for_each keys key, release ConsLock, whenb (16 \<in> set keys) procdump]"

section \<open>The console device\<close>

definition cons_finish :: "nat \<Rightarrow> int \<Rightarrow> ('a fdst_scheme, int) kern" where
  "cons_finish ip r = sq (release ConsLock) (sq (ilock ip) (ret r))"

fun consoleread_loop :: "nat \<Rightarrow> ('a fdst_scheme) dst \<Rightarrow> nat \<Rightarrow> nat \<Rightarrow> ('a fdst_scheme, int) kern" where
  "consoleread_loop ip dst target 0 = cons_finish ip (int target)"
| "consoleread_loop ip dst target (Suc n) = bnd (rd (\<lambda>s. (in_r s, in_w s, in_buf s (unat (in_r s) mod INPUT_BUF)))) (\<lambda>(r, w, c).
     if r = w then bnd my_killed (\<lambda>k. if k then cons_finish ip (-1) else sleep ChInput ConsLock)
     else if c = 4 then
       sq (whenb (Suc n = target) (upd (\<lambda>s. s\<lparr>in_r := r + 1\<rparr>))) (cons_finish ip (int target - int (Suc n)))
     else sq (upd (\<lambda>s. s\<lparr>in_r := r + 1\<rparr>)) (sq (dst (target - Suc n) [c])
       (if c = 10 then cons_finish ip (int target - int n) else consoleread_loop ip dst target n)))"

definition consoleread :: "nat \<Rightarrow> ('a fdst_scheme) dst \<Rightarrow> int \<Rightarrow> ('a fdst_scheme, int) kern" where
  "consoleread ip dst n = sq (iunlock ip) (sq (acquire ConsLock) (consoleread_loop ip dst (nat n) (nat n)))"

definition consolewrite :: "nat \<Rightarrow> ('a fdst_scheme) src \<Rightarrow> int \<Rightarrow> ('a fdst_scheme, int) kern" where
  "consolewrite ip src n = sq (iunlock ip) (sq (acquire ConsLock)
     (sq (for_each [0..<nat n] (\<lambda>i. bnd (src i 1) (\<lambda>bs. consputc (uint (hd bs)))))
     (sq (release ConsLock) (sq (ilock ip) (ret n)))))"

text \<open>The device table after \<open>consoleinit\<close>.\<close>

definition devsw_init :: "('a fdst_scheme) devsw" where
  "devsw_init = \<lparr>dev_read = (\<lambda>_. None)(CONSOLE := Some consoleread), dev_write = (\<lambda>_. None)(CONSOLE := Some consolewrite)\<rparr>"

definition consoleinit :: "('a kst_scheme, unit) kern" where
  "consoleinit = upd (\<lambda>s. s\<lparr>cons_locking := True\<rparr>)"

end
