(* ===== verification/File.thy ===== *)
theory File
  imports Console
begin

text \<open>
  Open files (\<open>src/file.c\<close>): the table of reference-counted \<open>struct file\<close>, reading and writing through
  it, and \<open>pipealloc\<close> of \<open>src/pipe.c\<close>, which creates the two files of a pipe. A \<open>struct file *\<close> is its
  index in \<open>ftable.file\<close>. The device table is the argument \<open>dsw\<close>, which \<open>devsw_init\<close> instantiates.
\<close>

unbundle bit_operations_syntax

definition modf :: "nat \<Rightarrow> (filestruct \<Rightarrow> filestruct) \<Rightarrow> ('a fdst_scheme, unit) kern" where
  "modf f g = upd (\<lambda>s. s\<lparr>ftable := (ftable s)(f := g (ftable s f))\<rparr>)"

definition getf :: "nat \<Rightarrow> ('a fdst_scheme, filestruct) kern" where
  "getf f = rd (\<lambda>s. ftable s f)"

definition filealloc :: "('a fdst_scheme, nat option) kern" where
  "filealloc = sq (acquire FtableLock) (bnd (rd (\<lambda>s. find (\<lambda>i. f_ref (ftable s i) = 0) [0..<NFILE])) (\<lambda>r. case r of
     Some f \<Rightarrow> sq (modf f (\<lambda>x. x\<lparr>f_ref := 1\<rparr>)) (sq (release FtableLock) (ret (Some f)))
   | None \<Rightarrow> sq (release FtableLock) (ret None)))"

definition filedup :: "nat \<Rightarrow> ('a fdst_scheme, nat) kern" where
  "filedup f = sq (acquire FtableLock) (bnd (getf f) (\<lambda>x.
     if f_ref x < 1 then panic ''filedup''
     else sq (modf f (\<lambda>x. x\<lparr>f_ref := f_ref x + 1\<rparr>)) (sq (release FtableLock) (ret f))))"

definition fileclose :: "nat \<Rightarrow> ('a fdst_scheme, unit) kern" where
  "fileclose f = sq (acquire FtableLock) (bnd (getf f) (\<lambda>x.
     if f_ref x < 1 then panic ''fileclose''
     else sq (modf f (\<lambda>x. x\<lparr>f_ref := f_ref x - 1\<rparr>)) (bnd (getf f) (\<lambda>ff.
       if f_ref ff > 0 then release FtableLock
       else sq (modf f (\<lambda>x. x\<lparr>f_ref := 0, f_type := FD_NONE\<rparr>)) (sq (release FtableLock)
         (case f_type ff of
            FD_PIPE \<Rightarrow> pipeclose (f_pipe ff) (f_writable ff)
          | FD_INODE \<Rightarrow> steps [begin_op, iput (f_ip ff), end_op]
          | FD_NONE \<Rightarrow> ret ()))))))"

text \<open>\<open>stati\<close> stores into the caller's \<open>struct stat\<close>, in this order; the bytes between the fields stay.\<close>

definition le16 :: "u16 \<Rightarrow> u8 list" where
  "le16 v = [ucast v, ucast (drop_bit 8 v)]"

definition put_stat :: "('a fdst_scheme) dst \<Rightarrow> stat \<Rightarrow> ('a fdst_scheme, unit) kern" where
  "put_stat dst st = steps [dst 4 (le32 (st_dev st)), dst 8 (le32 (st_ino st)), dst 0 (le16 (st_type st)),
     dst 12 (le16 (st_nlink st)), dst 16 (le32 (st_size st))]"

definition filestat :: "nat \<Rightarrow> ('a fdst_scheme) dst \<Rightarrow> ('a fdst_scheme, int) kern" where
  "filestat f dst = bnd (getf f) (\<lambda>x.
     if f_type x = FD_INODE then
       sq (ilock (f_ip x)) (bnd (stati (f_ip x)) (\<lambda>st. sq (put_stat dst st) (sq (iunlock (f_ip x)) (ret 0))))
     else ret (-1))"

definition fileread ::
    "('a fdst_scheme) devsw \<Rightarrow> nat \<Rightarrow> ('a fdst_scheme) dst \<Rightarrow> int \<Rightarrow> ('a fdst_scheme, int) kern" where
  "fileread dsw f dst n = bnd (getf f) (\<lambda>x.
     if \<not> f_readable x then ret (-1)
     else case f_type x of
       FD_PIPE \<Rightarrow> piperead (f_pipe x) dst n
     | FD_INODE \<Rightarrow> sq (ilock (f_ip x)) (bnd (getf f) (\<lambda>y. bnd (readi dsw (f_ip x) dst (f_off y) (word_of_int n)) (\<lambda>(r, bs).
         sq (whenb (r > 0) (modf f (\<lambda>z. z\<lparr>f_off := f_off z + word_of_int r\<rparr>)))
           (sq (iunlock (f_ip x)) (ret r)))))
     | FD_NONE \<Rightarrow> panic ''fileread'')"

text \<open>The loop of \<open>filewrite\<close> from byte \<open>i\<close>, a transaction per round.\<close>

definition fw_max :: int where
  "fw_max = ((MAXOPBLOCKS - 1 - 1 - 2) div 2) * 512"

function filewrite_loop ::
    "('a fdst_scheme) devsw \<Rightarrow> nat \<Rightarrow> nat \<Rightarrow> ('a fdst_scheme) src \<Rightarrow> int \<Rightarrow> int \<Rightarrow> ('a fdst_scheme, int) kern" where
  "filewrite_loop dsw f ip src n i =
     (if i < n then
        let n1 = (if n - i > fw_max then fw_max else n - i) in
        sq begin_op (sq (ilock ip) (bnd (getf f) (\<lambda>y.
          bnd (writei dsw ip (\<lambda>k m. src (nat i + k) m) (f_off y) (word_of_int n1)) (\<lambda>r.
          sq (whenb (r > 0) (modf f (\<lambda>z. z\<lparr>f_off := f_off z + word_of_int r\<rparr>)))
          (sq (iunlock ip) (sq end_op
            (if r < 0 then ret i
             else if r \<noteq> n1 then panic ''short filewrite''
             else filewrite_loop dsw f ip src n (i + n1))))))))
      else ret i)"
  by pat_completeness auto
termination
  by (relation "measure (\<lambda>(dsw, f, ip, src, n, i). nat (n - i))") (auto simp: fw_max_def MAXOPBLOCKS_def)

declare filewrite_loop.simps [simp del]

definition filewrite ::
    "('a fdst_scheme) devsw \<Rightarrow> nat \<Rightarrow> ('a fdst_scheme) src \<Rightarrow> int \<Rightarrow> ('a fdst_scheme, int) kern" where
  "filewrite dsw f src n = bnd (getf f) (\<lambda>x.
     if \<not> f_writable x then ret (-1)
     else case f_type x of
       FD_PIPE \<Rightarrow> pipewrite (f_pipe x) src n
     | FD_INODE \<Rightarrow> bnd (filewrite_loop dsw f (f_ip x) src n 0) (\<lambda>i. ret (if i = n then n else -1))
     | FD_NONE \<Rightarrow> panic ''filewrite'')"

section \<open>Creating a pipe\<close>

definition pipealloc :: "('a fdst_scheme, (nat \<times> nat) option) kern" where
  "pipealloc = bnd filealloc (\<lambda>r0. case r0 of None \<Rightarrow> ret None
   | Some f0 \<Rightarrow> bnd filealloc (\<lambda>r1. case r1 of None \<Rightarrow> sq (fileclose f0) (ret None)
   | Some f1 \<Rightarrow> bnd kalloc (\<lambda>p.
       if p = 0 then sq (fileclose f0) (sq (fileclose f1) (ret None))
       else sq (steps [modpi p (\<lambda>x. x\<lparr>pi_readopen := True, pi_writeopen := True, pi_nwrite := 0, pi_nread := 0\<rparr>),
              modf f0 (\<lambda>x. x\<lparr>f_type := FD_PIPE, f_readable := True, f_writable := False, f_pipe := p\<rparr>),
              modf f1 (\<lambda>x. x\<lparr>f_type := FD_PIPE, f_readable := False, f_writable := True, f_pipe := p\<rparr>)])
            (ret (Some (f0, f1))))))"

end
