(* ===== verification/Args.thy ===== *)
theory Args
  imports File
begin

text \<open>
  The arguments of system calls (the first part of \<open>src/syscall.c\<close>). A user program passes them on its
  stack; the kernel reads them through the saved stack pointer in the trap frame and checks every
  address against the size of the process. \<open>fetchstr\<close> yields the pointer together with the bytes it scanned,
  which is what its callers use the pointer for. \<open>None\<close> is the return value -1.
\<close>

unbundle bit_operations_syntax

text \<open>Offsets in \<open>struct trapframe\<close>.\<close>

definition TF_eax :: u32 where "TF_eax = 28"
definition TF_es :: u32 where "TF_es = 40"
definition TF_ds :: u32 where "TF_ds = 44"
definition TF_trapno :: u32 where "TF_trapno = 48"
definition TF_err :: u32 where "TF_err = 52"
definition TF_eip :: u32 where "TF_eip = 56"
definition TF_cs :: u32 where "TF_cs = 60"
definition TF_eflags :: u32 where "TF_eflags = 64"
definition TF_esp :: u32 where "TF_esp = 68"
definition TF_ss :: u32 where "TF_ss = 72"
definition TF_size :: u32 where "TF_size = 76"

definition my :: "('a pst_scheme, proc) kern" where
  "my = bnd myproc_deref getp"

definition fetchint :: "u32 \<Rightarrow> ('a pst_scheme, u32 option) kern" where
  "fetchint addr = bnd my (\<lambda>x.
     if addr \<ge> p_sz x \<or> addr + 4 > p_sz x then ret None
     else bnd (get_user addr 4) (\<lambda>bs. ret (Some (of_le32 bs))))"

text \<open>The scan for the terminator, at most \<open>n\<close> bytes from \<open>a\<close>.\<close>

fun fetchstr_loop :: "nat \<Rightarrow> u32 \<Rightarrow> ('a vmst_scheme, u8 list option) kern" where
  "fetchstr_loop 0 a = ret None"
| "fetchstr_loop (Suc n) a = bnd (get_user a 1) (\<lambda>bs.
     if hd bs = 0 then ret (Some [])
     else bnd (fetchstr_loop n (a + 1)) (\<lambda>r. ret (map_option (\<lambda>cs. hd bs # cs) r)))"

definition fetchstr :: "u32 \<Rightarrow> ('a pst_scheme, (u32 \<times> u8 list) option) kern" where
  "fetchstr addr = bnd my (\<lambda>x.
     if addr \<ge> p_sz x then ret None
     else bnd (fetchstr_loop (unat (p_sz x) - unat addr) addr) (\<lambda>r. ret (map_option (\<lambda>cs. (addr, cs)) r)))"

definition argint :: "nat \<Rightarrow> ('a pst_scheme, u32 option) kern" where
  "argint n = bnd my (\<lambda>x. bnd (ld32 (p_tf x + TF_esp)) (\<lambda>esp. fetchint (esp + 4 + 4 * of_nat n)))"

definition argptr :: "nat \<Rightarrow> int \<Rightarrow> ('a pst_scheme, u32 option) kern" where
  "argptr n sz = bnd my (\<lambda>x. bnd (argint n) (\<lambda>r. case r of None \<Rightarrow> ret None
     | Some i \<Rightarrow> if sz < 0 \<or> i \<ge> p_sz x \<or> i + word_of_int sz > p_sz x then ret None else ret (Some i)))"

definition argstr :: "nat \<Rightarrow> ('a pst_scheme, (u32 \<times> u8 list) option) kern" where
  "argstr n = bnd (argint n) (\<lambda>r. case r of None \<Rightarrow> ret None | Some addr \<Rightarrow> fetchstr addr)"

text \<open>A pointer into user memory as a destination and as a source.\<close>

definition user_dst :: "u32 \<Rightarrow> ('a vmst_scheme) dst" where
  "user_dst p k bs = put_user (p + of_nat k) bs"

definition user_src :: "u32 \<Rightarrow> ('a vmst_scheme) src" where
  "user_src p k n = get_user (p + of_nat k) n"

end
