(* ===== verification/ProcOps.thy ===== *)
theory ProcOps
  imports Args
begin

text \<open>
  The operations on processes that involve their files (\<open>src/proc.c\<close>): creating the first process, fork, exit,
  and where a new process starts to run. \<open>initcode\<close> is the image of the first program, which the
  linker places in the kernel.
\<close>

unbundle bit_operations_syntax

definition sets_ofile :: "nat \<Rightarrow> nat option \<Rightarrow> proc \<Rightarrow> proc" where
  "sets_ofile fd f x = x\<lparr>p_ofile := (p_ofile x)[fd := f]\<rparr>"

text \<open>\<open>SEG_UCODE << 3 | DPL_USER\<close> and \<open>SEG_UDATA << 3 | DPL_USER\<close>; a 16-bit field of a trap frame.\<close>

definition USER_CS :: u16 where "USER_CS = push_bit 3 3 OR 3"
definition USER_DS :: u16 where "USER_DS = push_bit 3 4 OR 3"
definition FL_IF :: u32 where "FL_IF = 0x200"

definition st16 :: "u32 \<Rightarrow> u16 \<Rightarrow> ('a kmem_scheme, unit) kern" where
  "st16 a v = upd (\<lambda>s. s\<lparr>pmem := (pmem s)(a := ucast v, a + 1 := ucast (drop_bit 8 v))\<rparr>)"

definition initcode_name :: "u8 list" where
  "initcode_name = [105, 110, 105, 116, 99, 111, 100, 101]"

definition userinit :: "('a fdst_scheme) devsw \<Rightarrow> u8 list \<Rightarrow> ('a fdst_scheme, unit) kern" where
  "userinit dsw initcode = bnd allocproc (\<lambda>r.
     sq (upd (\<lambda>s. s\<lparr>initproc := r\<rparr>))
     (case r of None \<Rightarrow> undef ''null process''
      | Some p \<Rightarrow> bnd setupkvm (\<lambda>d. sq (modp p (\<lambda>x. x\<lparr>p_pgdir := d\<rparr>))
          (if d = 0 then panic ''userinit: out of memory?''
           else sq (inituvm d initcode) (sq (modp p (\<lambda>x. x\<lparr>p_sz := PGSIZE\<rparr>)) (bnd (getp p) (\<lambda>x.
             let tf = p_tf x in
             sq (steps [kmemset tf 0 TF_size, st16 (tf + TF_cs) USER_CS, st16 (tf + TF_ds) USER_DS, st16 (tf + TF_es) USER_DS,
               st16 (tf + TF_ss) USER_DS, st32 (tf + TF_eflags) FL_IF, st32 (tf + TF_esp) PGSIZE, st32 (tf + TF_eip) 0,
               modp p (\<lambda>x. x\<lparr>p_name := splice (p_name x) 0 (safestrcpy (rdr initcode_name) 16)\<rparr>)])
             (bnd (namei dsw [slash]) (\<lambda>c.
               steps [modp p (\<lambda>x. x\<lparr>p_cwd := c\<rparr>), acquire PtableLock, modp p (\<lambda>x. x\<lparr>p_state := RUNNABLE\<rparr>),
                 modt p (\<lambda>t x. x\<lparr>p_start := t\<rparr>), release PtableLock])))))))))"

definition fork :: "('a fdst_scheme, int) kern" where
  "fork = bnd myproc_deref (\<lambda>cur. bnd allocproc (\<lambda>r. case r of None \<Rightarrow> ret (-1)
   | Some np \<Rightarrow> bnd (getp cur) (\<lambda>x. bnd (copyuvm (p_pgdir x) (p_sz x)) (\<lambda>d.
       sq (modp np (\<lambda>y. y\<lparr>p_pgdir := d\<rparr>))
       (bnd (getp np) (\<lambda>y.
         if d = 0 then sq (kfree (p_kstack y)) (sq (modp np (\<lambda>y. y\<lparr>p_kstack := 0, p_state := UNUSED\<rparr>)) (ret (-1)))
         else
           sq (steps [modp np (\<lambda>y. y\<lparr>p_sz := p_sz x, p_parent := Some cur\<rparr>),
             kmemmove (p_tf y) (p_tf x) TF_size,
             st32 (p_tf y + TF_eax) 0,
             for_each [0..<NOFILE] (\<lambda>i. case p_ofile x ! i of None \<Rightarrow> ret ()
               | Some f \<Rightarrow> bnd (filedup f) (\<lambda>f. modp np (sets_ofile i (Some f))))])
           (case p_cwd x of None \<Rightarrow> undef ''null cwd''
            | Some c \<Rightarrow> bnd (idup c) (\<lambda>c.
                sq (steps [modp np (\<lambda>y. y\<lparr>p_cwd := Some c\<rparr>),
                  modp np (\<lambda>y. y\<lparr>p_name := splice (p_name y) 0 (safestrcpy (rdr (p_name x)) 16)\<rparr>),
                  acquire PtableLock,
                  modp np (\<lambda>y. y\<lparr>p_state := RUNNABLE\<rparr>),
                  modt np (\<lambda>t y. y\<lparr>p_start := t\<rparr>),
                  release PtableLock])
                (ret (p_pid y))))))))))"

text \<open>\<open>wakeup1(q)\<close> for a process pointer that may be null.\<close>

definition wakeup1_proc :: "nat option \<Rightarrow> ('a pst_scheme, unit) kern" where
  "wakeup1_proc q = for_each [0..<NPROC] (\<lambda>i. bnd (getp i) (\<lambda>x.
     whenb (p_state x = SLEEPING \<and> p_chan x = map_option ChProc q)
       (sq (modp i (\<lambda>x. x\<lparr>p_state := RUNNABLE\<rparr>)) (modt i (\<lambda>t x. x\<lparr>p_start := t\<rparr>)))))"

definition exit_close :: "nat \<Rightarrow> nat \<Rightarrow> ('a fdst_scheme, unit) kern" where
  "exit_close cur fd = bnd (getp cur) (\<lambda>x. case p_ofile x ! fd of None \<Rightarrow> ret ()
     | Some f \<Rightarrow> sq (fileclose f) (modp cur (sets_ofile fd None)))"

definition exit_adopt :: "nat \<Rightarrow> nat \<Rightarrow> ('a pst_scheme, unit) kern" where
  "exit_adopt cur i = bnd (getp i) (\<lambda>x. bnd (rd initproc) (\<lambda>init.
     whenb (p_parent x = Some cur)
       (sq (modp i (\<lambda>x. x\<lparr>p_parent := init\<rparr>)) (whenb (p_state x = ZOMBIE) (wakeup1_proc init)))))"

definition exit :: "('a fdst_scheme, 'b) kern" where
  "exit = bnd myproc (\<lambda>r. bnd (rd initproc) (\<lambda>init.
     if r = init then panic ''init exiting''
     else case r of None \<Rightarrow> undef ''null process''
     | Some cur \<Rightarrow>
       sq (for_each [0..<NOFILE] (exit_close cur))
       (sq begin_op (bnd (getp cur) (\<lambda>x. case p_cwd x of None \<Rightarrow> undef ''null cwd''
        | Some c \<Rightarrow> sq (iput c) (sq end_op
         (sq (modp cur (\<lambda>x. x\<lparr>p_cwd := None\<rparr>))
         (sq (acquire PtableLock)
         (bnd (getp cur) (\<lambda>x. sq (wakeup1_proc (p_parent x))
         (sq (for_each [0..<NPROC] (exit_adopt cur))
         (sq (modp cur (\<lambda>x. x\<lparr>p_state := ZOMBIE\<rparr>))
         (sq (modt cur (\<lambda>t x. x\<lparr>p_etime := t\<rparr>))
         (bnd (getp cur) (\<lambda>x. sq (cprintf ''Total Time: %d\<newline>'' [ANum (int32 (p_etime x - p_ctime x))])
         sched)))))))))))))))"

text \<open>\<open>fresh\<close> is \<open>forkret\<close>'s static variable \<open>first\<close>; the result is its new value.\<close>

definition forkret :: "bool \<Rightarrow> ('a fdst_scheme, bool) kern" where
  "forkret fresh = sq (release PtableLock)
     (sq (whenb fresh (sq (iinit ROOTDEV) (initlog ROOTDEV))) (ret False))"

end
