(* ===== verification/Exec.thy ===== *)
theory Exec
  imports ProcOps
begin

text \<open>
  Replacing the program of a process (\<open>src/exec.c\<close>) and loading its segments (\<open>loaduvm\<close> of \<open>src/vm.c\<close>). The
  arguments are the strings that the entries of \<open>argv\<close> point to, up to its null entry. The loops that
  the code leaves by \<open>goto bad\<close> yield \<open>None\<close> there.
\<close>

unbundle bit_operations_syntax

definition MAXARG :: nat where "MAXARG = 32"
definition ELF_MAGIC :: u32 where "ELF_MAGIC = 0x464C457F"
definition ELF_PROG_LOAD :: u32 where "ELF_PROG_LOAD = 1"

record elfhdr =
  e_magic :: u32
  e_entry :: u32
  e_phoff :: u32
  e_phnum :: u16

record proghdr =
  ph_type :: u32
  ph_off :: u32
  ph_vaddr :: u32
  ph_filesz :: u32
  ph_memsz :: u32

definition elfhdr_get :: "u8 list \<Rightarrow> elfhdr" where
  "elfhdr_get d = \<lparr>e_magic = get32 d 0, e_entry = get32 d 24, e_phoff = get32 d 28, e_phnum = get16 d 44\<rparr>"

definition proghdr_get :: "u8 list \<Rightarrow> proghdr" where
  "proghdr_get d = \<lparr>ph_type = get32 d 0, ph_off = get32 d 4, ph_vaddr = get32 d 8, ph_filesz = get32 d 16, ph_memsz = get32 d 20\<rparr>"

definition kernel_dst :: "u32 \<Rightarrow> ('a kmem_scheme) dst" where
  "kernel_dst a k bs = upd (\<lambda>s. s\<lparr>pmem := put_bytes (a + of_nat k) bs (pmem s)\<rparr>)"

definition loaduvm ::
    "('a fdst_scheme) devsw \<Rightarrow> u32 \<Rightarrow> u32 \<Rightarrow> nat \<Rightarrow> u32 \<Rightarrow> u32 \<Rightarrow> ('a fdst_scheme, int) kern" where
  "loaduvm dsw pgdir addr ip offset sz =
     (if addr mod PGSIZE \<noteq> 0 then panic ''loaduvm: addr must be page aligned''
      else bnd (scan (page_range 0 sz) (\<lambda>i. bnd (walkpgdir pgdir (addr + i) False) (\<lambda>pte.
          if pte = 0 then panic ''loaduvm: address should exist''
          else bnd (ld32 pte) (\<lambda>e.
            let pa = PTE_ADDR e; n = (if sz - i < PGSIZE then sz - i else PGSIZE) in
            bnd (readi dsw ip (kernel_dst (P2V pa)) (offset + i) n) (\<lambda>(r, bs).
              ret (if word_of_int r \<noteq> n then Some (-1) else None))))))
        (\<lambda>r. case r of Some v \<Rightarrow> ret v | None \<Rightarrow> ret 0))"

section \<open>exec\<close>

fun exec_load ::
    "('a fdst_scheme) devsw \<Rightarrow> nat \<Rightarrow> u32 \<Rightarrow> nat \<Rightarrow> u32 \<Rightarrow> u32 \<Rightarrow> ('a fdst_scheme, u32 option) kern" where
  "exec_load dsw ip pgdir 0 off sz = ret (Some sz)"
| "exec_load dsw ip pgdir (Suc n) off sz = bnd (readi dsw ip no_dst off 32) (\<lambda>(r, bs).
     if r \<noteq> 32 then ret None
     else let ph = proghdr_get bs in
       if ph_type ph \<noteq> ELF_PROG_LOAD then exec_load dsw ip pgdir n (off + 32) sz
       else if ph_memsz ph < ph_filesz ph then ret None
       else if ph_vaddr ph + ph_memsz ph < ph_vaddr ph then ret None
       else bnd (allocuvm pgdir sz (ph_vaddr ph + ph_memsz ph)) (\<lambda>sz.
         if sz = 0 then ret None
         else if ph_vaddr ph mod PGSIZE \<noteq> 0 then ret None
         else bnd (loaduvm dsw pgdir (ph_vaddr ph) ip (ph_off ph) (ph_filesz ph)) (\<lambda>r.
           if r < 0 then ret None else exec_load dsw ip pgdir n (off + 32) sz)))"

fun exec_args :: "u32 \<Rightarrow> u8 list list \<Rightarrow> nat \<Rightarrow> u32 \<Rightarrow> u32 list \<Rightarrow> ('a kmem_scheme, (u32 \<times> u32 list) option) kern" where
  "exec_args pgdir [] argc sp ustack = ret (Some (sp, ustack))"
| "exec_args pgdir (a # argv) argc sp ustack =
     (if argc \<ge> MAXARG then ret None
      else let sp = (sp - of_nat (length a + 1)) AND NOT 3 in
        bnd (copyout pgdir sp (a @ [0])) (\<lambda>r.
          if r < 0 then ret None else exec_args pgdir argv (Suc argc) sp (ustack @ [sp])))"

definition exec_bad :: "u32 \<Rightarrow> nat option \<Rightarrow> ('a fdst_scheme, int) kern" where
  "exec_bad pgdir ip = sq (whenb (pgdir \<noteq> 0) (freevm pgdir))
     (sq (case ip of None \<Rightarrow> ret () | Some i \<Rightarrow> sq (iunlockput i) end_op) (ret (-1)))"

text \<open>\<open>for (last = s = path; *s; s++) if (*s == '/') last = s + 1;\<close>\<close>

fun last_elem :: "u8 list \<Rightarrow> u8 list \<Rightarrow> u8 list" where
  "last_elem l [] = l"
| "last_elem l (c # s) = last_elem (if c = slash then s else l) s"

text \<open>From the stack on, with the program loaded into \<open>pgdir\<close> up to \<open>sz\<close>.\<close>

definition exec_stack :: "nat \<Rightarrow> u8 list \<Rightarrow> u8 list list \<Rightarrow> elfhdr \<Rightarrow> u32 \<Rightarrow> u32 \<Rightarrow> ('a fdst_scheme, int) kern" where
  "exec_stack cur path argv elf pgdir sz =
     bnd (let sz = PGROUNDUP sz in allocuvm pgdir sz (sz + 2 * PGSIZE)) (\<lambda>sz.
       if sz = 0 then exec_bad pgdir None
       else sq (clearpteu pgdir (sz - 2 * PGSIZE)) (bnd (exec_args pgdir argv 0 sz []) (\<lambda>r. case r of
         None \<Rightarrow> exec_bad pgdir None
       | Some (sp, ptrs) \<Rightarrow>
           let argc = of_nat (length argv);
               ustack = [0xffffffff, argc, sp - (argc + 1) * 4] @ ptrs @ [0];
               sp = sp - (3 + argc + 1) * 4 in
           bnd (copyout pgdir sp (concat (map le32 ustack))) (\<lambda>r.
             if r < 0 then exec_bad pgdir None
             else bnd (getp cur) (\<lambda>x.
               sq (steps [modp cur (\<lambda>x. x\<lparr>p_name := splice (p_name x) 0 (safestrcpy (rdr (last_elem path path)) 16)\<rparr>),
                 modp cur (\<lambda>x. x\<lparr>p_pgdir := pgdir, p_sz := sz\<rparr>),
                 st32 (p_tf x + TF_eip) (e_entry elf),
                 st32 (p_tf x + TF_esp) sp,
                 switchuvm (Some cur),
                 freevm (p_pgdir x)])
               (ret 0))))))"

definition exec :: "('a fdst_scheme) devsw \<Rightarrow> u8 list \<Rightarrow> u8 list list \<Rightarrow> ('a fdst_scheme, int) kern" where
  "exec dsw path argv = bnd myproc_deref (\<lambda>cur. sq begin_op (bnd (namei dsw path) (\<lambda>r. case r of
     None \<Rightarrow> sq end_op (sq (cprintf ''exec: fail\<newline>'' []) (ret (-1)))
   | Some ip \<Rightarrow> sq (ilock ip) (bnd (readi dsw ip no_dst 0 52) (\<lambda>(r, bs).
       let elf = elfhdr_get bs in
       if r \<noteq> 52 then exec_bad 0 (Some ip)
       else if e_magic elf \<noteq> ELF_MAGIC then exec_bad 0 (Some ip)
       else bnd setupkvm (\<lambda>pgdir.
         if pgdir = 0 then exec_bad 0 (Some ip)
         else bnd (exec_load dsw ip pgdir (unat (e_phnum elf)) (e_phoff elf) 0) (\<lambda>r. case r of
           None \<Rightarrow> exec_bad pgdir (Some ip)
         | Some sz \<Rightarrow> sq (iunlockput ip) (sq end_op (exec_stack cur path argv elf pgdir sz)))))))))"

end
