(* ===== verification/Sysfile.thy ===== *)
theory Sysfile
  imports Exec
begin

text \<open>
  The system calls on files (\<open>src/sysfile.c\<close>). Each fetches and checks its arguments and calls the
  routines below it. A path is the byte string that \<open>argstr\<close> scanned. The local buffer \<open>name[DIRSIZ]\<close> starts
  with unspecified contents, which the model takes to be zero; only what \<open>skipelem\<close> writes there is looked at.
\<close>

unbundle bit_operations_syntax

definition O_WRONLY :: u32 where "O_WRONLY = 1"
definition O_RDWR :: u32 where "O_RDWR = 2"
definition O_CREATE :: u32 where "O_CREATE = 0x200"

definition argfd :: "nat \<Rightarrow> ('a fdst_scheme, (nat \<times> nat) option) kern" where
  "argfd n = bnd (argint n) (\<lambda>r. case r of None \<Rightarrow> ret None
   | Some v \<Rightarrow> (let fd = sint v in
       if fd < 0 \<or> fd \<ge> int NOFILE then ret None
       else bnd my (\<lambda>x. ret (map_option (\<lambda>f. (nat fd, f)) (p_ofile x ! nat fd)))))"

definition fdalloc :: "nat \<Rightarrow> ('a fdst_scheme, nat option) kern" where
  "fdalloc f = bnd myproc_deref (\<lambda>cur. bnd (getp cur) (\<lambda>x.
     case find (\<lambda>fd. p_ofile x ! fd = None) [0..<NOFILE] of
       Some fd \<Rightarrow> sq (modp cur (sets_ofile fd (Some f))) (ret (Some fd))
     | None \<Rightarrow> ret None))"

definition sys_dup :: "('a fdst_scheme, int) kern" where
  "sys_dup = bnd (argfd 0) (\<lambda>r. case r of None \<Rightarrow> ret (-1)
   | Some (_, f) \<Rightarrow> bnd (fdalloc f) (\<lambda>r. case r of None \<Rightarrow> ret (-1)
     | Some fd \<Rightarrow> bnd (filedup f) (\<lambda>_. ret (int fd))))"

text \<open>The common argument checks of \<open>sys_read\<close> and \<open>sys_write\<close>.\<close>

definition rw_args :: "('a fdst_scheme, (nat \<times> u32 \<times> int) option) kern" where
  "rw_args = bnd (argfd 0) (\<lambda>r. case r of None \<Rightarrow> ret None
   | Some (_, f) \<Rightarrow> bnd (argint 2) (\<lambda>r. case r of None \<Rightarrow> ret None
     | Some v \<Rightarrow> bnd (argptr 1 (sint v)) (\<lambda>r. ret (map_option (\<lambda>p. (f, p, sint v)) r))))"

definition sys_read :: "('a fdst_scheme) devsw \<Rightarrow> ('a fdst_scheme, int) kern" where
  "sys_read dsw = bnd rw_args (\<lambda>r. case r of None \<Rightarrow> ret (-1)
   | Some (f, p, n) \<Rightarrow> fileread dsw f (user_dst p) n)"

definition sys_write :: "('a fdst_scheme) devsw \<Rightarrow> ('a fdst_scheme, int) kern" where
  "sys_write dsw = bnd rw_args (\<lambda>r. case r of None \<Rightarrow> ret (-1)
   | Some (f, p, n) \<Rightarrow> filewrite dsw f (user_src p) n)"

definition sys_close :: "('a fdst_scheme, int) kern" where
  "sys_close = bnd (argfd 0) (\<lambda>r. case r of None \<Rightarrow> ret (-1)
   | Some (fd, f) \<Rightarrow> bnd myproc_deref (\<lambda>cur. sq (modp cur (sets_ofile fd None)) (sq (fileclose f) (ret 0))))"

definition sys_fstat :: "('a fdst_scheme, int) kern" where
  "sys_fstat = bnd (argfd 0) (\<lambda>r. case r of None \<Rightarrow> ret (-1)
   | Some (_, f) \<Rightarrow> bnd (argptr 1 20) (\<lambda>r. case r of None \<Rightarrow> ret (-1)
     | Some st \<Rightarrow> filestat f (user_dst st)))"

section \<open>Links\<close>

definition no_name :: "u8 list" where "no_name = replicate DIRSIZ 0"

text \<open>\<open>bad:\<close> of \<open>sys_link\<close>.\<close>

definition link_bad :: "nat \<Rightarrow> ('a fdst_scheme, int) kern" where
  "link_bad ip = sq (steps [ilock ip, modd ip (\<lambda>d. d\<lparr>d_nlink := d_nlink d - 1\<rparr>), iupdate ip, iunlockput ip, end_op]) (ret (-1))"

definition sys_link :: "('a fdst_scheme) devsw \<Rightarrow> ('a fdst_scheme, int) kern" where
  "sys_link dsw = bnd (argstr 0) (\<lambda>r. case r of None \<Rightarrow> ret (-1) | Some (_, old) \<Rightarrow>
   bnd (argstr 1) (\<lambda>r. case r of None \<Rightarrow> ret (-1) | Some (_, new) \<Rightarrow>
   sq begin_op (bnd (namei dsw old) (\<lambda>r. case r of None \<Rightarrow> sq end_op (ret (-1))
   | Some ip \<Rightarrow> sq (ilock ip) (bnd (geti ip) (\<lambda>x.
       if d_type (i_d x) = T_DIR then sq (iunlockput ip) (sq end_op (ret (-1)))
       else sq (steps [modd ip (\<lambda>d. d\<lparr>d_nlink := d_nlink d + 1\<rparr>), iupdate ip, iunlock ip])
         (bnd (nameiparent dsw new no_name) (\<lambda>(r, name). case r of None \<Rightarrow> link_bad ip
          | Some dp \<Rightarrow> sq (ilock dp) (bnd (geti dp) (\<lambda>y. bnd (geti ip) (\<lambda>x.
              bnd (if i_dev y \<noteq> i_dev x then ret (-1) else dirlink dsw dp name (i_inum x)) (\<lambda>r.
                if r < 0 then sq (iunlockput dp) (link_bad ip)
                else sq (steps [iunlockput dp, iput ip, end_op]) (ret 0)))))))))))))"

definition isdirempty :: "('a fdst_scheme) devsw \<Rightarrow> nat \<Rightarrow> ('a fdst_scheme, bool) kern" where
  "isdirempty dsw dp = bnd (geti dp) (\<lambda>x.
     bnd (scan (drop 2 (dir_offs (d_size (i_d x)))) (\<lambda>off. bnd (read_dirent dsw ''isdirempty: readi'' dp off) (\<lambda>de.
        ret (if de_inum de \<noteq> 0 then Some () else None))))
       (\<lambda>r. ret (r = None)))"

definition dot :: "u8 list" where "dot = [46]"
definition dotdot :: "u8 list" where "dotdot = [46, 46]"

text \<open>\<open>bad:\<close> of \<open>sys_unlink\<close>.\<close>

definition unlink_bad :: "nat \<Rightarrow> ('a fdst_scheme, int) kern" where
  "unlink_bad dp = sq (iunlockput dp) (sq end_op (ret (-1)))"

definition sys_unlink :: "('a fdst_scheme) devsw \<Rightarrow> ('a fdst_scheme, int) kern" where
  "sys_unlink dsw = bnd (argstr 0) (\<lambda>r. case r of None \<Rightarrow> ret (-1) | Some (_, path) \<Rightarrow>
   sq begin_op (bnd (nameiparent dsw path no_name) (\<lambda>(r, name). case r of None \<Rightarrow> sq end_op (ret (-1))
   | Some dp \<Rightarrow> sq (ilock dp)
      (if namecmp name dot = 0 \<or> namecmp name dotdot = 0 then unlink_bad dp
       else bnd (dirlookup dsw dp name) (\<lambda>r. case r of None \<Rightarrow> unlink_bad dp
       | Some (ip, off) \<Rightarrow> sq (ilock ip) (bnd (geti ip) (\<lambda>x.
           if sint (d_nlink (i_d x)) < 1 then panic ''unlink: nlink < 1''
           else bnd (if d_type (i_d x) = T_DIR then isdirempty dsw ip else ret True) (\<lambda>ok.
             if \<not> ok then sq (iunlockput ip) (unlink_bad dp)
             else bnd (writei dsw dp (from_buf (replicate 16 0)) (of_nat off) 16) (\<lambda>n.
               if n \<noteq> 16 then panic ''unlink: writei''
               else bnd (geti ip) (\<lambda>x.
                 sq (steps [whenb (d_type (i_d x) = T_DIR) (sq (modd dp (\<lambda>d. d\<lparr>d_nlink := d_nlink d - 1\<rparr>)) (iupdate dp)),
                   iunlockput dp,
                   modd ip (\<lambda>d. d\<lparr>d_nlink := d_nlink d - 1\<rparr>),
                   iupdate ip,
                   iunlockput ip,
                   end_op])
                 (ret 0)))))))))))"

section \<open>Opening and creating\<close>

definition create ::
    "('a fdst_scheme) devsw \<Rightarrow> u8 list \<Rightarrow> u16 \<Rightarrow> u16 \<Rightarrow> u16 \<Rightarrow> ('a fdst_scheme, nat option) kern" where
  "create dsw path ty major minor = bnd (nameiparent dsw path no_name) (\<lambda>(r, name). case r of None \<Rightarrow> ret None
   | Some dp \<Rightarrow> sq (ilock dp) (bnd (dirlookup dsw dp name) (\<lambda>r. case r of
       Some (ip, _) \<Rightarrow> sq (iunlockput dp) (sq (ilock ip) (bnd (geti ip) (\<lambda>x.
         if ty = T_FILE \<and> d_type (i_d x) = T_FILE then ret (Some ip)
         else sq (iunlockput ip) (ret None))))
     | None \<Rightarrow> bnd (geti dp) (\<lambda>y. bnd (ialloc (i_dev y) ty) (\<lambda>ip.
         sq (steps [ilock ip, modd ip (\<lambda>d. d\<lparr>d_major := major, d_minor := minor, d_nlink := 1\<rparr>), iupdate ip,
           whenb (ty = T_DIR) (sq (modd dp (\<lambda>d. d\<lparr>d_nlink := d_nlink d + 1\<rparr>)) (sq (iupdate dp)
             (bnd (geti ip) (\<lambda>x. bnd (geti dp) (\<lambda>y. bnd (dirlink dsw ip dot (i_inum x)) (\<lambda>r.
               bnd (if r < 0 then ret (-1) else dirlink dsw ip dotdot (i_inum y)) (\<lambda>r.
                 whenb (r < 0) (panic ''create dots'')))))))),
           bnd (geti ip) (\<lambda>x. bnd (dirlink dsw dp name (i_inum x)) (\<lambda>r. whenb (r < 0) (panic ''create: dirlink''))),
           iunlockput dp])
         (ret (Some ip)))))))"

definition sys_open :: "('a fdst_scheme) devsw \<Rightarrow> ('a fdst_scheme, int) kern" where
  "sys_open dsw = bnd (argstr 0) (\<lambda>r. case r of None \<Rightarrow> ret (-1) | Some (_, path) \<Rightarrow>
   bnd (argint 1) (\<lambda>r. case r of None \<Rightarrow> ret (-1) | Some omode \<Rightarrow>
   sq begin_op
   (bnd (if omode AND O_CREATE \<noteq> 0 then create dsw path T_FILE 0 0
         else bnd (namei dsw path) (\<lambda>r. case r of None \<Rightarrow> ret None
           | Some ip \<Rightarrow> sq (ilock ip) (bnd (geti ip) (\<lambda>x.
               if d_type (i_d x) = T_DIR \<and> omode \<noteq> 0 then sq (iunlockput ip) (ret None) else ret (Some ip)))))
     (\<lambda>r. case r of None \<Rightarrow> sq end_op (ret (-1))
      | Some ip \<Rightarrow> bnd filealloc (\<lambda>r. case r of None \<Rightarrow> sq (iunlockput ip) (sq end_op (ret (-1)))
        | Some f \<Rightarrow> bnd (fdalloc f) (\<lambda>r. case r of
            None \<Rightarrow> sq (fileclose f) (sq (iunlockput ip) (sq end_op (ret (-1))))
          | Some fd \<Rightarrow> sq (steps [iunlock ip, end_op,
              modf f (\<lambda>x. x\<lparr>f_type := FD_INODE, f_ip := ip, f_off := 0, f_readable := (omode AND O_WRONLY = 0),
                f_writable := (omode AND O_WRONLY \<noteq> 0 \<or> omode AND O_RDWR \<noteq> 0)\<rparr>)])
              (ret (int fd))))))))"

text \<open>The end of \<open>sys_mkdir\<close> and \<open>sys_mknod\<close>.\<close>

definition made :: "nat option \<Rightarrow> ('a fdst_scheme, int) kern" where
  "made r = (case r of None \<Rightarrow> sq end_op (ret (-1)) | Some ip \<Rightarrow> sq (iunlockput ip) (sq end_op (ret 0)))"

definition sys_mkdir :: "('a fdst_scheme) devsw \<Rightarrow> ('a fdst_scheme, int) kern" where
  "sys_mkdir dsw = sq begin_op (bnd (argstr 0) (\<lambda>r. case r of None \<Rightarrow> made None
   | Some (_, path) \<Rightarrow> bnd (create dsw path T_DIR 0 0) made))"

definition sys_mknod :: "('a fdst_scheme) devsw \<Rightarrow> ('a fdst_scheme, int) kern" where
  "sys_mknod dsw = sq begin_op (bnd (argstr 0) (\<lambda>r. case r of None \<Rightarrow> made None
   | Some (_, path) \<Rightarrow> bnd (argint 1) (\<lambda>r. case r of None \<Rightarrow> made None
   | Some major \<Rightarrow> bnd (argint 2) (\<lambda>r. case r of None \<Rightarrow> made None
   | Some minor \<Rightarrow> bnd (create dsw path T_DEV (ucast major) (ucast minor)) made))))"

definition sys_chdir :: "('a fdst_scheme) devsw \<Rightarrow> ('a fdst_scheme, int) kern" where
  "sys_chdir dsw = bnd myproc_deref (\<lambda>cur. sq begin_op (bnd (argstr 0) (\<lambda>r. case r of None \<Rightarrow> sq end_op (ret (-1))
   | Some (_, path) \<Rightarrow> bnd (namei dsw path) (\<lambda>r. case r of None \<Rightarrow> sq end_op (ret (-1))
     | Some ip \<Rightarrow> sq (ilock ip) (bnd (geti ip) (\<lambda>x.
         if d_type (i_d x) \<noteq> T_DIR then sq (iunlockput ip) (sq end_op (ret (-1)))
         else sq (iunlock ip) (bnd (getp cur) (\<lambda>p. case p_cwd p of None \<Rightarrow> undef ''null cwd''
           | Some c \<Rightarrow> sq (steps [iput c, end_op, modp cur (\<lambda>p. p\<lparr>p_cwd := Some ip\<rparr>)]) (ret 0)))))))))"

text \<open>The loop of \<open>sys_exec\<close>, with room for \<open>n\<close> more entries.\<close>

fun exec_argv :: "nat \<Rightarrow> u32 \<Rightarrow> ('a fdst_scheme, u8 list list option) kern" where
  "exec_argv 0 a = ret None"
| "exec_argv (Suc n) a = bnd (fetchint a) (\<lambda>r. case r of None \<Rightarrow> ret None
   | Some uarg \<Rightarrow> if uarg = 0 then ret (Some [])
     else bnd (fetchstr uarg) (\<lambda>r. case r of None \<Rightarrow> ret None
       | Some (_, str) \<Rightarrow> bnd (exec_argv n (a + 4)) (\<lambda>r. ret (map_option (\<lambda>rest. str # rest) r))))"

definition sys_exec :: "('a fdst_scheme) devsw \<Rightarrow> ('a fdst_scheme, int) kern" where
  "sys_exec dsw = bnd (argstr 0) (\<lambda>r. case r of None \<Rightarrow> ret (-1) | Some (_, path) \<Rightarrow>
   bnd (argint 1) (\<lambda>r. case r of None \<Rightarrow> ret (-1) | Some uargv \<Rightarrow>
   bnd (exec_argv MAXARG uargv) (\<lambda>r. case r of None \<Rightarrow> ret (-1) | Some argv \<Rightarrow> exec dsw path argv)))"

definition sys_pipe :: "('a fdst_scheme, int) kern" where
  "sys_pipe = bnd (argptr 0 8) (\<lambda>r. case r of None \<Rightarrow> ret (-1)
   | Some p \<Rightarrow> bnd pipealloc (\<lambda>r. case r of None \<Rightarrow> ret (-1)
     | Some (rf, wrf) \<Rightarrow> bnd (fdalloc rf) (\<lambda>r. case r of
         None \<Rightarrow> sq (fileclose rf) (sq (fileclose wrf) (ret (-1)))
       | Some fd0 \<Rightarrow> bnd (fdalloc wrf) (\<lambda>r. case r of
           None \<Rightarrow> bnd myproc_deref (\<lambda>cur.
             sq (steps [modp cur (sets_ofile fd0 None), fileclose rf, fileclose wrf]) (ret (-1)))
         | Some fd1 \<Rightarrow> sq (put_user p (le32 (of_nat fd0))) (sq (put_user (p + 4) (le32 (of_nat fd1))) (ret 0))))))"

end
