(* ===== verification/Sysproc.thy ===== *)
theory Sysproc
  imports Sysfile
begin

text \<open>
  The system calls on processes (\<open>src/sysproc.c\<close>). \<open>sys_sleep_loop\<close> is the loop of \<open>sys_sleep\<close>: a process that
  slept there continues with \<open>sleep_resume\<close> and that loop. The build's scheduling policy is an argument where
  the code it calls depends on it.
\<close>

definition sys_fork :: "('a fdst_scheme, int) kern" where "sys_fork = fork"

definition sys_exit :: "('a fdst_scheme, int) kern" where "sys_exit = exit"

definition sys_wait :: "policy \<Rightarrow> ('a fdst_scheme, int) kern" where "sys_wait pol = wait pol"

definition sys_kill :: "('a fdst_scheme, int) kern" where
  "sys_kill = bnd (argint 0) (\<lambda>r. case r of None \<Rightarrow> ret (-1) | Some pid \<Rightarrow> kill (sint pid))"

definition sys_getpid :: "('a fdst_scheme, int) kern" where
  "sys_getpid = bnd my (\<lambda>x. ret (p_pid x))"

definition sys_sbrk :: "('a fdst_scheme, int) kern" where
  "sys_sbrk = bnd (argint 0) (\<lambda>r. case r of None \<Rightarrow> ret (-1)
   | Some n \<Rightarrow> bnd my (\<lambda>x. bnd (growproc (sint n)) (\<lambda>r. ret (if r < 0 then -1 else sint (p_sz x)))))"

text \<open>\<open>ticks - ticks0 < n\<close> compares unsigned numbers.\<close>

definition sys_sleep_loop :: "u32 \<Rightarrow> u32 \<Rightarrow> ('a fdst_scheme, int) kern" where
  "sys_sleep_loop ticks0 n = bnd (rd ticks) (\<lambda>t.
     if t - ticks0 < n then bnd my (\<lambda>x. if p_killed x \<noteq> 0 then sq (release TicksLock) (ret (-1)) else sleep ChTicks TicksLock)
     else sq (release TicksLock) (ret 0))"

definition sys_sleep :: "('a fdst_scheme, int) kern" where
  "sys_sleep = bnd (argint 0) (\<lambda>r. case r of None \<Rightarrow> ret (-1)
   | Some n \<Rightarrow> sq (acquire TicksLock) (bnd (rd ticks) (\<lambda>ticks0. sys_sleep_loop ticks0 n)))"

definition sys_uptime :: "('a fdst_scheme, int) kern" where
  "sys_uptime = sq (acquire TicksLock) (bnd (rd ticks) (\<lambda>xticks. sq (release TicksLock) (ret (sint xticks))))"

definition sys_cps :: "policy \<Rightarrow> ('a fdst_scheme, int) kern" where "sys_cps pol = cps pol"

definition sys_chpr :: "('a fdst_scheme, int) kern" where
  "sys_chpr = bnd (argint 0) (\<lambda>r. case r of None \<Rightarrow> ret (-1) | Some pid \<Rightarrow>
   bnd (argint 1) (\<lambda>r. case r of None \<Rightarrow> ret (-1) | Some pr \<Rightarrow> chpr (sint pid) (sint pr)))"

definition sys_waitx :: "('a fdst_scheme, int) kern" where
  "sys_waitx = bnd (argptr 0 4) (\<lambda>r. case r of None \<Rightarrow> ret (-1) | Some wtime \<Rightarrow>
   bnd (argptr 1 4) (\<lambda>r. case r of None \<Rightarrow> ret (-1) | Some rtime \<Rightarrow> waitx wtime rtime))"

definition sys_setPriority :: "('a fdst_scheme, int) kern" where
  "sys_setPriority = bnd (argint 0) (\<lambda>r. case r of None \<Rightarrow> ret (-1) | Some pid \<Rightarrow>
   bnd (argint 1) (\<lambda>r. case r of None \<Rightarrow> ret (-1) | Some priority \<Rightarrow> setPriority (sint priority) (sint pid)))"

end
