(* ===== verification/Trap.thy ===== *)
theory Trap
  imports Sysproc
begin

text \<open>
  The system call dispatcher (the second part of \<open>src/syscall.c\<close>) and the trap handler (\<open>src/trap.c\<close>). The
  trap frame is in memory at \<open>tf\<close>. The record \<open>hw\<close> holds what the handler learns from the hardware: the
  number of the CPU, the fault address, and the characters that the keyboard and the serial line have pending.
  Acknowledging an interrupt at the local APIC leaves no trace in the state, and the interrupt of the memory
  disk does nothing. A process that yielded in the handler continues with \<open>yield_resume\<close> and \<open>trap_end\<close>.
\<close>

unbundle bit_operations_syntax

definition T_SYSCALL :: u32 where "T_SYSCALL = 64"
definition T_IRQ0 :: u32 where "T_IRQ0 = 32"
definition IRQ_TIMER :: u32 where "IRQ_TIMER = 0"
definition IRQ_KBD :: u32 where "IRQ_KBD = 1"
definition IRQ_COM1 :: u32 where "IRQ_COM1 = 4"
definition IRQ_IDE :: u32 where "IRQ_IDE = 14"
definition IRQ_SPURIOUS :: u32 where "IRQ_SPURIOUS = 31"

record hw =
  hw_cpuid :: nat
  hw_cr2 :: u32
  hw_kbd :: "int list"
  hw_uart :: "int list"

section \<open>System calls\<close>

text \<open>The table, indexed by the numbers of \<open>src/syscall.h\<close>.\<close>

definition syscalls :: "policy \<Rightarrow> ('a fdst_scheme) devsw \<Rightarrow> (('a fdst_scheme, int) kern) list" where
  "syscalls pol dsw = [sys_fork, sys_exit, sys_wait pol, sys_pipe, sys_read dsw, sys_kill, sys_exec dsw, sys_fstat,
     sys_chdir dsw, sys_dup, sys_getpid, sys_sbrk, sys_sleep, sys_uptime, sys_open dsw, sys_write dsw, sys_mknod dsw,
     sys_unlink dsw, sys_link dsw, sys_mkdir dsw, sys_close, sys_cps pol, sys_chpr, sys_waitx, sys_setPriority]"

definition syscall :: "policy \<Rightarrow> ('a fdst_scheme) devsw \<Rightarrow> ('a fdst_scheme, unit) kern" where
  "syscall pol dsw = bnd my (\<lambda>x. bnd (ld32 (p_tf x + TF_eax)) (\<lambda>eax.
     let num = sint eax in
     if num > 0 \<and> num \<le> int (length (syscalls pol dsw)) then
       bnd ((syscalls pol dsw ! nat (num - 1))) (\<lambda>r. st32 (p_tf x + TF_eax) (word_of_int r))
     else sq (cprintf ''%d %s: unknown sys call %d\<newline>'' [ANum (int32 (p_pid x)), AStr (Some (cstring (p_name x))), ANum eax])
       (st32 (p_tf x + TF_eax) (-1))))"

section \<open>Traps\<close>

definition killed_user :: "u32 \<Rightarrow> ('a pst_scheme, bool) kern" where
  "killed_user tf = bnd myproc (\<lambda>r. case r of None \<Rightarrow> ret False
     | Some p \<Rightarrow> bnd (getp p) (\<lambda>x. bnd (ld32 (tf + TF_cs)) (\<lambda>cs. ret (p_killed x \<noteq> 0 \<and> cs AND 3 = 3))))"

definition trap_end :: "u32 \<Rightarrow> ('a fdst_scheme, unit) kern" where
  "trap_end tf = bnd (killed_user tf) (\<lambda>k. whenb k exit)"

definition bump :: "int \<Rightarrow> int list \<Rightarrow> int list" where
  "bump q xs = xs[nat q := xs ! nat q + 1]"

text \<open>The timer interrupt on the first CPU; \<open>ticks[current_queue]\<close> has five entries.\<close>

definition timer :: "('a pst_scheme, unit) kern" where
  "timer = steps [acquire TicksLock, upd (\<lambda>s. s\<lparr>ticks := ticks s + 1\<rparr>), wakeup ChTicks, release TicksLock,
     bnd myproc (\<lambda>r. case r of None \<Rightarrow> ret ()
     | Some p \<Rightarrow> bnd (getp p) (\<lambda>x.
         if p_state x = SLEEPING then modp p (\<lambda>x. x\<lparr>p_iotime := p_iotime x + 1\<rparr>)
         else if p_state x = RUNNING then
           if p_current_queue x < 0 \<or> p_current_queue x > 4 then undef ''ticks index out of range''
           else modp p (\<lambda>x. x\<lparr>p_rtime := p_rtime x + 1, p_ticks := bump (p_current_queue x) (p_ticks x),
                  p_total_ticks := bump (p_current_queue x) (p_total_ticks x)\<rparr>)
         else ret ()))]"

definition unexpected :: "hw \<Rightarrow> u32 \<Rightarrow> u32 \<Rightarrow> ('a pst_scheme, unit) kern" where
  "unexpected h tf trapno = bnd (ld32 (tf + TF_cs)) (\<lambda>cs. bnd (ld32 (tf + TF_eip)) (\<lambda>eip. bnd (ld32 (tf + TF_err)) (\<lambda>err.
     bnd myproc (\<lambda>r. case r of
       None \<Rightarrow> steps [cprintf ''myproc\<newline>'' [],
         cprintf ''unexpected trap %d from cpu %d eip %x (cr2=0x%x)\<newline>'' [ANum trapno, ANum (of_nat (hw_cpuid h)), ANum eip, ANum (hw_cr2 h)],
         panic ''trap'']
     | Some p \<Rightarrow>
         if cs AND 3 = 0 then steps [cprintf ''lala\<newline>'' [],
           cprintf ''unexpected trap %d from cpu %d eip %x (cr2=0x%x)\<newline>'' [ANum trapno, ANum (of_nat (hw_cpuid h)), ANum eip, ANum (hw_cr2 h)],
           panic ''trap'']
         else bnd (getp p) (\<lambda>x. sq (cprintf ''pid %d %s: trap %d err %d on cpu %d eip 0x%x addr 0x%x--kill proc\<newline>''
             [ANum (int32 (p_pid x)), AStr (Some (cstring (p_name x))), ANum trapno, ANum err, ANum (of_nat (hw_cpuid h)),
              ANum eip, ANum (hw_cr2 h)])
           (modp p (\<lambda>x. x\<lparr>p_killed := 1\<rparr>)))))))"

definition interrupt :: "hw \<Rightarrow> u32 \<Rightarrow> u32 \<Rightarrow> ('a fdst_scheme, unit) kern" where
  "interrupt h tf trapno =
     (if trapno = T_IRQ0 + IRQ_TIMER then whenb (hw_cpuid h = 0) timer
      else if trapno = T_IRQ0 + IRQ_IDE \<or> trapno = T_IRQ0 + IRQ_IDE + 1 then ret ()
      else if trapno = T_IRQ0 + IRQ_KBD then consoleintr (hw_kbd h)
      else if trapno = T_IRQ0 + IRQ_COM1 then consoleintr (hw_uart h)
      else if trapno = T_IRQ0 + 7 \<or> trapno = T_IRQ0 + IRQ_SPURIOUS then
        bnd (ld32 (tf + TF_cs)) (\<lambda>cs. bnd (ld32 (tf + TF_eip)) (\<lambda>eip.
          cprintf ''cpu%d: spurious interrupt at %x:%x\<newline>'' [ANum (of_nat (hw_cpuid h)), ANum (cs AND 0xffff), ANum eip]))
      else unexpected h tf trapno)"

definition trap :: "policy \<Rightarrow> ('a fdst_scheme) devsw \<Rightarrow> hw \<Rightarrow> u32 \<Rightarrow> ('a fdst_scheme, unit) kern" where
  "trap pol dsw h tf = bnd (ld32 (tf + TF_trapno)) (\<lambda>trapno.
     if trapno = T_SYSCALL then
       bnd myproc_deref (\<lambda>p. bnd my_killed (\<lambda>k. sq (whenb k exit)
         (sq (modp p (\<lambda>x. x\<lparr>p_tf := tf\<rparr>)) (sq (syscall pol dsw)
           (bnd my_killed (\<lambda>k. whenb k exit))))))
     else
       sq (interrupt h tf trapno)
       (sq (trap_end tf)
       (sq (bnd myproc (\<lambda>r. case r of None \<Rightarrow> ret ()
            | Some p \<Rightarrow> bnd (getp p) (\<lambda>x.
                whenb (p_state x = RUNNING \<and> trapno = T_IRQ0 + IRQ_TIMER \<and> pol \<noteq> FCFS) yield)))
          (trap_end tf))))"

end
