(* ===== verification/Kbd.thy ===== *)
theory Kbd
  imports Console
begin

text \<open>
  The keyboard and the serial line as sources of characters (\<open>src/kbd.c\<close>, \<open>src/kbd.h\<close>, \<open>src/uart.c\<close>). A call of
  \<open>kbdgetc\<close> reads the status port and then, if a byte is there, the data port; the model takes the byte
  that is there, if any. The static variable \<open>shift\<close> is passed along. \<open>drain\<close> collects what \<open>consoleintr\<close> gets
  by calling its argument until the result is negative.
\<close>

unbundle bit_operations_syntax

definition NO :: u8 where "NO = 0"
definition SHIFT :: u32 where "SHIFT = 1"
definition CTL :: u32 where "CTL = 2"
definition ALT :: u32 where "ALT = 4"
definition CAPSLOCK :: u32 where "CAPSLOCK = 8"
definition NUMLOCK :: u32 where "NUMLOCK = 16"
definition SCROLLLOCK :: u32 where "SCROLLLOCK = 32"
definition E0ESC :: u32 where "E0ESC = 64"

section \<open>Tables\<close>

text \<open>A table of 256 entries: the first ones in order, then designated ones, zero elsewhere.\<close>

definition table :: "u8 list \<Rightarrow> (nat \<times> u8) list \<Rightarrow> u8 list" where
  "table xs ds = foldl (\<lambda>t (i, v). t[i := v]) (xs @ replicate (256 - length xs) NO) ds"

definition ch :: "string \<Rightarrow> u8 list" where
  "ch cs = map of_char cs"

definition ctl :: "string \<Rightarrow> u8 list" where
  "ctl cs = map (\<lambda>c. of_char c - 64) cs"

definition shiftcode :: "u8 list" where
  "shiftcode = table [] [(0x1D, 2), (0x2A, 1), (0x36, 1), (0x38, 4), (0x9D, 2), (0xB8, 4)]"

definition togglecode :: "u8 list" where
  "togglecode = table [] [(0x3A, 8), (0x45, 16), (0x46, 32)]"

text \<open>The arrow and other keys with an escape code: \<open>KEY_UP\<close> to \<open>KEY_DEL\<close>.\<close>

definition special_keys :: "(nat \<times> u8) list" where
  "special_keys = [(0xC8, 0xE2), (0xD0, 0xE3), (0xC9, 0xE6), (0xD1, 0xE7), (0xCB, 0xE4), (0xCD, 0xE5), (0x97, 0xE0),
     (0xCF, 0xE1), (0xD2, 0xE8), (0xD3, 0xE9)]"

definition keypad :: "u8 list" where
  "keypad = replicate 7 NO @ ch ''789-456+1230.'' @ replicate 4 NO"

definition normalmap :: "u8 list" where
  "normalmap = table ([NO, 0x1B] @ ch ''1234567890-='' @ [8, 9] @ ch ''qwertyuiop[]'' @ [10, NO] @ ch ''asdfghjkl;'' @
     [39] @ ch ''`'' @ [NO, 92] @ ch ''zxcvbnm,./'' @ [NO] @ ch ''*'' @ [NO] @ ch '' '' @ replicate 6 NO @ keypad)
     ([(0x9C, 10), (0xB5, 47)] @ special_keys)"

definition shiftmap :: "u8 list" where
  "shiftmap = table ([NO, 27] @ ch ''!@#$%^&*()_+'' @ [8, 9] @ ch ''QWERTYUIOP{}'' @ [10, NO] @ ch ''ASDFGHJKL:'' @
     [34] @ ch ''~'' @ [NO] @ ch ''|ZXCVBNM<>?'' @ [NO] @ ch ''*'' @ [NO] @ ch '' '' @ replicate 6 NO @ keypad)
     ([(0x9C, 10), (0xB5, 47)] @ special_keys)"

definition ctlmap :: "u8 list" where
  "ctlmap = table (replicate 16 NO @ ctl ''QWERTYUIOP'' @ [NO, NO, 13, NO] @ ctl ''ASDFGHJKL'' @ replicate 4 NO @ [92 - 64] @
     ctl ''ZXCVBNM'' @ [NO, NO] @ ctl ''/'' @ [NO, NO])
     ([(0x9C, 13), (0xB5, 47 - 64)] @ special_keys)"

definition charcode :: "u32 \<Rightarrow> u8 list" where
  "charcode m = [normalmap, shiftmap, ctlmap, ctlmap] ! unat m"

section \<open>Reading a character\<close>

definition caps :: "u32 \<Rightarrow> u32" where
  "caps c = (if 97 \<le> c \<and> c \<le> 122 then c + (65 - 97) else if 65 \<le> c \<and> c \<le> 90 then c + (97 - 65) else c)"

definition kbdgetc :: "u32 \<Rightarrow> u8 option \<Rightarrow> u32 \<times> int" where
  "kbdgetc shift inp = (case inp of None \<Rightarrow> (shift, -1)
   | Some byte \<Rightarrow> (let dat = ucast byte :: u32 in
       if dat = 0xE0 then (shift OR E0ESC, 0)
       else if dat AND 0x80 \<noteq> 0 then
         (let dat = (if shift AND E0ESC \<noteq> 0 then dat else dat AND 0x7F) in
          (shift AND NOT (ucast (shiftcode ! unat dat) OR E0ESC), 0))
       else
         (let (dat, shift) = (if shift AND E0ESC \<noteq> 0 then (dat OR 0x80, shift AND NOT E0ESC) else (dat, shift));
              shift = (shift OR ucast (shiftcode ! unat dat)) XOR ucast (togglecode ! unat dat);
              c = ucast (charcode (shift AND (CTL OR SHIFT)) ! unat dat)
          in (shift, uint (if shift AND CAPSLOCK \<noteq> 0 then caps c else c)))))"

fun kbd_drain :: "u32 \<Rightarrow> u8 list \<Rightarrow> u32 \<times> int list" where
  "kbd_drain shift [] = (shift, [])"
| "kbd_drain shift (b # bs) = (let (shift, c) = kbdgetc shift (Some b); (shift, cs) = kbd_drain shift bs in (shift, c # cs))"

definition kbdintr :: "u32 \<Rightarrow> u8 list \<Rightarrow> ('a fdst_scheme, u32) kern" where
  "kbdintr shift bytes = (let (shift, keys) = kbd_drain shift bytes in sq (consoleintr keys) (ret shift))"

text \<open>The serial line: \<open>uart\<close> says whether there is one, \<open>status\<close> and \<open>dat\<close> are its registers.\<close>

definition uartgetc :: "bool \<Rightarrow> u8 \<Rightarrow> u8 \<Rightarrow> int" where
  "uartgetc uart status dat = (if \<not> uart then -1 else if status AND 1 = 0 then -1 else uint dat)"

definition uartintr :: "bool \<Rightarrow> u8 list \<Rightarrow> ('a fdst_scheme, unit) kern" where
  "uartintr uart bytes = consoleintr (map (uartgetc True 1) (if uart then bytes else []))"

end
