(* ===== verification/Mp.thy ===== *)
theory Mp
  imports Kstring Kalloc
begin

text \<open>
  Finding the processors (\<open>src/mp.c\<close>): the search of memory for the tables the firmware leaves there and
  the loop over the entries of the configuration table.
\<close>

unbundle bit_operations_syntax

definition MPPROC :: u8 where "MPPROC = 0"
definition MPBUS :: u8 where "MPBUS = 1"
definition MPIOAPIC :: u8 where "MPIOAPIC = 2"
definition MPIOINTR :: u8 where "MPIOINTR = 3"
definition MPLINTR :: u8 where "MPLINTR = 4"
definition NCPU :: nat where "NCPU = 8"

text \<open>The sum of \<open>len\<close> bytes, as an \<open>int\<close> converted to \<open>uchar\<close>.\<close>

definition sum_bytes :: "mem \<Rightarrow> u32 \<Rightarrow> nat \<Rightarrow> u8" where
  "sum_bytes m addr len = word_of_int (foldl (\<lambda>s i. s + uint (m (addr + of_nat i))) 0 [0..<len])"

definition bytes_at :: "mem \<Rightarrow> u32 \<Rightarrow> reader" where
  "bytes_at m a i = m (a + of_nat i)"

definition sig_MP :: "u8 list" where "sig_MP = [95, 77, 80, 95]"
definition sig_PCMP :: "u8 list" where "sig_PCMP = [80, 67, 77, 80]"

definition mpsearch1 :: "mem \<Rightarrow> u32 \<Rightarrow> nat \<Rightarrow> u32 option" where
  "mpsearch1 m a len = (let addr = P2V a in
     find (\<lambda>p. memcmp (bytes_at m p) (\<lambda>i. sig_MP ! i) 4 = 0 \<and> sum_bytes m p 16 = 0)
       (map (\<lambda>k. addr + 16 * of_nat k) [0..<(len + 15) div 16]))"

definition mpsearch :: "mem \<Rightarrow> u32 option" where
  "mpsearch m = (let bda = P2V 0x400;
       p = push_bit 4 (push_bit 8 (ucast (m (bda + 0x0F))) OR ucast (m (bda + 0x0E))) :: u32;
       q = (push_bit 8 (ucast (m (bda + 0x14))) OR ucast (m (bda + 0x13))) * 1024 :: u32
     in case (if p \<noteq> 0 then mpsearch1 m p 1024 else mpsearch1 m (q - 1024) 1024) of
       Some mp \<Rightarrow> Some mp
     | None \<Rightarrow> mpsearch1 m 0xF0000 0x10000)"

text \<open>\<open>struct mp\<close> has its table address at offset 4 and \<open>imcrp\<close> at 12; \<open>struct mpconf\<close> its length at 4, its version
  at 6, the address of the local APIC at 36 and 44 bytes in all.\<close>

definition mpconfig :: "mem \<Rightarrow> (u32 \<times> u32) option" where
  "mpconfig m = (case mpsearch m of None \<Rightarrow> None
   | Some mp \<Rightarrow> if load32 m (mp + 4) = 0 then None
     else let conf = P2V (load32 m (mp + 4)); version = m (conf + 6); len = load32 m (conf + 4) AND 0xffff in
       if memcmp (bytes_at m conf) (\<lambda>i. sig_PCMP ! i) 4 \<noteq> 0 then None
       else if version \<noteq> 1 \<and> version \<noteq> 4 then None
       else if sum_bytes m conf (unat len) \<noteq> 0 then None
       else Some (mp, conf))"

record mpst =
  mp_apicids :: "u8 list"
  mp_ioapicid :: u8

datatype mpresult = Found mpst | MpSpins

text \<open>The loop of \<open>mpinit\<close>. The \<open>break\<close> of its default case leaves the \<open>switch\<close> and not the loop, with \<open>p\<close>
  unchanged. The table ends below \<open>2\<^sup>3\<^sup>2\<close>, so that \<open>p\<close> does not wrap.\<close>

function mp_loop :: "mem \<Rightarrow> nat \<Rightarrow> nat \<Rightarrow> mpst \<Rightarrow> mpresult" where
  "mp_loop m e p st =
     (if p < e then
        let at = (\<lambda>k. m (of_nat (p + k))) in
        if at 0 = MPPROC then
          mp_loop m e (p + 20) (if length (mp_apicids st) < NCPU then st\<lparr>mp_apicids := mp_apicids st @ [at 1]\<rparr> else st)
        else if at 0 = MPIOAPIC then mp_loop m e (p + 8) (st\<lparr>mp_ioapicid := at 1\<rparr>)
        else if at 0 = MPBUS \<or> at 0 = MPIOINTR \<or> at 0 = MPLINTR then mp_loop m e (p + 8) st
        else MpSpins
      else Found st)"
  by pat_completeness auto
termination
  by (relation "measure (\<lambda>(m, e, p, st). e - p)") auto

declare mp_loop.simps [simp del]

text \<open>\<open>None\<close> is the panic for a machine without the tables; the result has the address of the local APIC and
  whether the interrupt mode register is to be programmed.\<close>

definition mpinit :: "mem \<Rightarrow> mpst \<Rightarrow> (mpresult \<times> u32 \<times> bool) option" where
  "mpinit m st = (case mpconfig m of None \<Rightarrow> None
   | Some (mp, conf) \<Rightarrow> (let len = unat (load32 m (conf + 4) AND 0xffff) in
       Some (mp_loop m (unat conf + len) (unat conf + 44) st, load32 m (conf + 36), m (mp + 12) \<noteq> 0)))"

end
