(* ===== verification/Ide.thy ===== *)
theory Ide
  imports Bio
begin

text \<open>
  The IDE disk driver (\<open>src/ide.c\<close>), which the ordinary kernel build uses in place of the memory disk. The
  routines keep a queue of buffers, linked through \<open>qnext\<close>, whose first element is the request the disk works
  on. What the driver sends to the controller is recorded as a list of events. What it gets from there is an
  argument: the status that ends the polling of \<open>idewait\<close> (\<open>None\<close> if the disk never becomes ready) and the
  sector that a read delivers. A process that waited for its request continues with \<open>sleep_resume\<close> and \<open>ide_wait_loop\<close>.
\<close>

unbundle bit_operations_syntax

definition SECTOR_SIZE :: nat where "SECTOR_SIZE = 512"
definition IDE_BSY :: u8 where "IDE_BSY = 0x80"
definition IDE_DRDY :: u8 where "IDE_DRDY = 0x40"
definition IDE_DF :: u8 where "IDE_DF = 0x20"
definition IDE_ERR :: u8 where "IDE_ERR = 1"
definition IDE_CMD_READ :: u8 where "IDE_CMD_READ = 0x20"
definition IDE_CMD_WRITE :: u8 where "IDE_CMD_WRITE = 0x30"
definition IDE_CMD_RDMUL :: u8 where "IDE_CMD_RDMUL = 0xc4"
definition IDE_CMD_WRMUL :: u8 where "IDE_CMD_WRMUL = 0xc5"
definition FSSIZE :: u32 where "FSSIZE = 1000"

datatype event = Outb u16 u8 | Outsl u16 "u8 list"

record idest = bst +
  idequeue :: "nat option"
  qnext :: "nat \<Rightarrow> nat option"
  havedisk1 :: bool
  ide_events :: "event list"

definition emit :: "event list \<Rightarrow> ('a idest_scheme, unit) kern" where
  "emit es = upd (\<lambda>s. s\<lparr>ide_events := ide_events s @ es\<rparr>)"

definition idewait :: "u8 option \<Rightarrow> bool \<Rightarrow> ('a idest_scheme, int) kern" where
  "idewait r checkerr = (case r of None \<Rightarrow> spins
     | Some v \<Rightarrow> if v AND (IDE_BSY OR IDE_DRDY) \<noteq> IDE_DRDY then spins
         else ret (if checkerr \<and> v AND (IDE_DF OR IDE_ERR) \<noteq> 0 then -1 else 0))"

text \<open>\<open>probes\<close> are the status bytes read from disk 1.\<close>

definition ide_init :: "u8 option \<Rightarrow> u8 list \<Rightarrow> ('a idest_scheme, unit) kern" where
  "ide_init r probes = steps [bnd (idewait r False) (\<lambda>_. ret ()),
     emit [Outb 0x1f6 (0xe0 OR push_bit 4 1)],
     whenb (\<exists>v \<in> set (take 1000 probes). v \<noteq> 0) (upd (\<lambda>s. s\<lparr>havedisk1 := True\<rparr>)),
     emit [Outb 0x1f6 (0xe0 OR push_bit 4 0)]]"

definition sector_per_block :: nat where "sector_per_block = BSIZE div SECTOR_SIZE"

text \<open>What \<open>idestart\<close> sends for a buffer.\<close>

definition start_events :: "buf \<Rightarrow> event list" where
  "start_events x =
     (let sector = b_blockno x * of_nat sector_per_block;
          read_cmd = (if sector_per_block = 1 then IDE_CMD_READ else IDE_CMD_RDMUL);
          write_cmd = (if sector_per_block = 1 then IDE_CMD_WRITE else IDE_CMD_WRMUL) in
      [Outb 0x3f6 0, Outb 0x1f2 (of_nat sector_per_block), Outb 0x1f3 (ucast (sector AND 0xff)),
       Outb 0x1f4 (ucast (drop_bit 8 sector AND 0xff)), Outb 0x1f5 (ucast (drop_bit 16 sector AND 0xff)),
       Outb 0x1f6 (0xe0 OR ucast (push_bit 4 (b_dev x AND 1)) OR ucast (drop_bit 24 sector AND 0x0f))] @
      (if b_flags x AND B_DIRTY \<noteq> 0 then [Outb 0x1f7 write_cmd, Outsl 0x1f0 (take BSIZE (b_data x))]
       else [Outb 0x1f7 read_cmd]))"

definition idestart :: "u8 option \<Rightarrow> nat option \<Rightarrow> ('a idest_scheme, unit) kern" where
  "idestart r ob = (case ob of None \<Rightarrow> panic ''idestart''
     | Some b \<Rightarrow> bnd (getb b) (\<lambda>x.
         if b_blockno x \<ge> FSSIZE then panic ''incorrect blockno''
         else if sector_per_block > 7 then panic ''idestart''
         else bnd (idewait r False) (\<lambda>_. emit (start_events x))))"

definition ideintr :: "u8 option \<Rightarrow> u8 list \<Rightarrow> ('a idest_scheme, unit) kern" where
  "ideintr r sector = sq (acquire IdeLock) (bnd (rd idequeue) (\<lambda>q. case q of
     None \<Rightarrow> release IdeLock
   | Some b \<Rightarrow>
       sq (upd (\<lambda>s. s\<lparr>idequeue := qnext s b\<rparr>)) (bnd (getb b) (\<lambda>x.
       sq (whenb (b_flags x AND B_DIRTY = 0)
             (bnd (idewait r True) (\<lambda>v. whenb (v \<ge> 0) (modb b (\<lambda>y. y\<lparr>b_data := sector\<rparr>)))))
       (steps [modb b (\<lambda>y. y\<lparr>b_flags := b_flags y OR B_VALID\<rparr>),
         modb b (\<lambda>y. y\<lparr>b_flags := b_flags y AND NOT B_DIRTY\<rparr>),
         wakeup (ChBuf b),
         bnd (rd idequeue) (\<lambda>q. whenb (q \<noteq> None) (idestart r q)),
         release IdeLock])))))"

text \<open>\<open>for (pp = &idequeue; *pp; pp = &(*pp)->qnext); *pp = b;\<close> The queue has at most \<open>NBUF\<close> elements.\<close>

fun ide_append :: "nat \<Rightarrow> nat \<Rightarrow> nat option \<Rightarrow> (nat option \<Rightarrow> ('a idest_scheme, unit) kern) \<Rightarrow> ('a idest_scheme, unit) kern" where
  "ide_append b 0 q put = spins"
| "ide_append b (Suc n) q put = (case q of None \<Rightarrow> put (Some b)
     | Some c \<Rightarrow> bnd (rd (\<lambda>s. qnext s c)) (\<lambda>q'. ide_append b n q' (\<lambda>v. upd (\<lambda>s. s\<lparr>qnext := (qnext s)(c := v)\<rparr>))))"

definition ide_wait_loop :: "nat \<Rightarrow> ('a idest_scheme, unit) kern" where
  "ide_wait_loop b = bnd (getb b) (\<lambda>x.
     if b_flags x AND (B_VALID OR B_DIRTY) \<noteq> B_VALID then sleep (ChBuf b) IdeLock else release IdeLock)"

definition ide_rw :: "u8 option \<Rightarrow> nat \<Rightarrow> ('a idest_scheme, unit) kern" where
  "ide_rw r b = bnd (holdingsleep (BufSL b)) (\<lambda>h. bnd (getb b) (\<lambda>x. bnd (rd havedisk1) (\<lambda>d1.
     if \<not> h then panic ''iderw: buf not locked''
     else if b_flags x AND (B_VALID OR B_DIRTY) = B_VALID then panic ''iderw: nothing to do''
     else if b_dev x \<noteq> 0 \<and> \<not> d1 then panic ''iderw: ide disk 1 not present''
     else steps [acquire IdeLock,
       upd (\<lambda>s. s\<lparr>qnext := (qnext s)(b := None)\<rparr>),
       bnd (rd idequeue) (\<lambda>q. ide_append b (Suc NBUF) q (\<lambda>v. upd (\<lambda>s. s\<lparr>idequeue := v\<rparr>))),
       bnd (rd idequeue) (\<lambda>q. whenb (q = Some b) (idestart r (Some b))),
       ide_wait_loop b])))"

end
