(* ===== verification/Ulib.thy ===== *)
theory Ulib
  imports Kstring
begin

text \<open>
  The user library (\<open>src/ulib.c\<close>) and the matcher and line loop of \<open>grep\<close> (\<open>src/grep.c\<close>). A C string is the list of
  its characters without the terminator, a pointer into it the suffix it points to; \<open>at0\<close> is the character
  there, the terminator at the end. Library routines that only wrap system calls are left out.
\<close>

definition at0 :: "string \<Rightarrow> char" where
  "at0 s = (case s of [] \<Rightarrow> CHR 0x00 | c # _ \<Rightarrow> c)"

lemma at0_simps [simp]: "at0 [] = CHR 0x00" "at0 (c # s) = c"
  by (simp_all add: at0_def)

section \<open>The library\<close>

text \<open>The bytes \<open>strcpy\<close> stores, the terminator included.\<close>

fun strcpy :: "string \<Rightarrow> string" where
  "strcpy [] = [CHR 0x00]"
| "strcpy (c # t) = c # strcpy t"

fun strcmp :: "string \<Rightarrow> string \<Rightarrow> int" where
  "strcmp (c # p) q = (if at0 q = c then strcmp p (tl q) else of_char c - of_char (at0 q))"
| "strcmp [] q = 0 - of_char (at0 q)"

fun ustrlen :: "string \<Rightarrow> nat" where
  "ustrlen [] = 0"
| "ustrlen (c # s) = Suc (ustrlen s)"

definition umemset :: "u32 \<Rightarrow> u32 \<Rightarrow> u32 \<Rightarrow> mem \<Rightarrow> mem" where
  "umemset dst c n = stosb (unat n) dst (ucast c)"

text \<open>The suffix \<open>strchr\<close> points to.\<close>

fun strchr :: "string \<Rightarrow> char \<Rightarrow> string option" where
  "strchr [] c = None"
| "strchr (d # s) c = (if d = c then Some (d # s) else strchr s c)"

lemma strchr_None: "strchr s c = None \<longleftrightarrow> c \<notin> set s"
  by (induction s) auto

text \<open>\<open>inp\<close> is what the standard input delivers, one byte per \<open>read\<close>, until it fails or ends. The result is the line and the
  input left.\<close>

fun gets_loop :: "nat \<Rightarrow> string \<Rightarrow> string \<times> string" where
  "gets_loop 0 inp = ([], inp)"
| "gets_loop (Suc n) inp = (case inp of [] \<Rightarrow> ([], [])
     | c # inp \<Rightarrow> if c = CHR 0x0A \<or> c = CHR 0x0D then ([c], inp)
         else (let (line, rest) = gets_loop n inp in (c # line, rest)))"

definition gets :: "nat \<Rightarrow> string \<Rightarrow> string \<times> string" where
  "gets mx inp = gets_loop (mx - 1) inp"

text \<open>\<open>n * 10 + *s++ - '0'\<close> in 32 bits.\<close>

fun atoi_loop :: "u32 \<Rightarrow> string \<Rightarrow> u32" where
  "atoi_loop n [] = n"
| "atoi_loop n (c # s) =
     (if 48 \<le> (of_char c :: nat) \<and> (of_char c :: nat) \<le> 57 then atoi_loop (n * 10 + of_char c - 48) s else n)"

definition atoi :: "string \<Rightarrow> int" where
  "atoi s = sint (atoi_loop 0 s)"

text \<open>The library's \<open>memmove\<close> always copies upwards.\<close>

definition umemmove :: "u32 \<Rightarrow> u32 \<Rightarrow> int \<Rightarrow> mem \<Rightarrow> mem" where
  "umemmove dst src n m = copy_up (nat n) src dst m"

end
