(* ===== verification/Grep.thy ===== *)
theory Grep
  imports Ulib
begin

text \<open>
  \<open>grep\<close> (\<open>src/grep.c\<close>): the matcher for patterns with \<open>^\<close>, \<open>.\<close>, \<open>*\<close> and \<open>$\<close>, and the loop that collects lines
  from what \<open>read\<close> returns.
\<close>

section \<open>The matcher\<close>

function matchhere :: "string \<Rightarrow> string \<Rightarrow> bool" and matchstar :: "char \<Rightarrow> string \<Rightarrow> string \<Rightarrow> bool" where
  "matchhere re text =
     (if re = [] then True
      else if at0 (tl re) = CHR ''*'' then matchstar (hd re) (tl (tl re)) text
      else if hd re = CHR ''$'' \<and> tl re = [] then text = []
      else if text \<noteq> [] \<and> (hd re = CHR ''.'' \<or> hd re = hd text) then matchhere (tl re) (tl text)
      else False)"
| "matchstar c re text =
     (if matchhere re text then True
      else if text \<noteq> [] \<and> (hd text = c \<or> c = CHR ''.'') then matchstar c re (tl text)
      else False)"
  by pat_completeness auto
termination
proof (relation "measure (\<lambda>x. case x of Inl (re, text) \<Rightarrow> 2 * (length re + length text) | Inr (c, re, text) \<Rightarrow> Suc (2 * (length re + length text)))", goal_cases)
  case (2 re t)
  then have "2 \<le> length re" by (cases re; cases "tl re") auto
  then show ?case by simp
next
  case (3 re t)
  then show ?case by (cases re; cases t) auto
next
  case (5 c re t)
  then show ?case by (cases t) auto
qed simp_all

declare matchhere.simps [simp del] matchstar.simps [simp del]

fun match_from :: "string \<Rightarrow> string \<Rightarrow> bool" where
  "match_from re [] = matchhere re []"
| "match_from re (c # text) = (matchhere re (c # text) \<or> match_from re text)"

definition match :: "string \<Rightarrow> string \<Rightarrow> bool" where
  "match re text = (if at0 re = CHR ''^'' then matchhere (tl re) text else match_from re text)"

section \<open>The line loop\<close>

text \<open>The inner loop: the lines of the buffer from \<open>p\<close> on that match, and the rest after the last newline.\<close>

function grep_lines :: "string \<Rightarrow> string \<Rightarrow> string \<times> string" where
  "grep_lines pattern p = (case strchr p (CHR 0x0A) of None \<Rightarrow> ([], p)
     | Some q \<Rightarrow> (let line = take (length p - length q) p; (out, rest) = grep_lines pattern (tl q) in
         ((if match pattern line then line @ [CHR 0x0A] else []) @ out, rest)))"
  by pat_completeness auto
termination
proof (relation "measure (\<lambda>(pattern, p). length p)", goal_cases)
  case (2 pattern p q)
  have "strchr p c = Some q \<Longrightarrow> length q \<le> length p \<and> q \<noteq> []" for c
    by (induction p) (auto split: if_splits)
  then show ?case using 2 by (cases q) fastforce+
qed simp

declare grep_lines.simps [simp del]

text \<open>\<open>kept\<close> is what is left in the buffer, the list are the results of \<open>read\<close> up to the end of the file.\<close>

fun grep :: "string \<Rightarrow> string \<Rightarrow> string list \<Rightarrow> string" where
  "grep pattern kept [] = []"
| "grep pattern kept (chunk # chunks) =
     (let buf = kept @ chunk; (out, p) = grep_lines pattern buf in
      out @ grep pattern (if length p = length buf then [] else p) chunks)"

section \<open>Patterns as languages\<close>

text \<open>A pattern after its \<open>^\<close> is a sequence of single characters and repeated characters, and may end with \<open>$\<close>.\<close>

datatype tok = One char | Star char

fun toks :: "string \<Rightarrow> tok list \<times> bool" where
  "toks [] = ([], False)"
| "toks [c] = (if c = CHR ''$'' then ([], True) else ([One c], False))"
| "toks (c # d # re) = (if d = CHR ''*'' then apfst (Cons (Star c)) (toks re) else apfst (Cons (One c)) (toks (d # re)))"

definition admits :: "char \<Rightarrow> char \<Rightarrow> bool" where
  "admits c x \<longleftrightarrow> c = CHR ''.'' \<or> c = x"

fun lang :: "tok list \<Rightarrow> string set" where
  "lang [] = {[]}"
| "lang (One c # ts) = {x # u |x u. admits c x \<and> u \<in> lang ts}"
| "lang (Star c # ts) = {w @ u |w u. (\<forall>x \<in> set w. admits c x) \<and> u \<in> lang ts}"

text \<open>A prefix of the text, all of it with \<open>$\<close>, is in the language.\<close>

definition begins :: "tok list \<times> bool \<Rightarrow> string \<Rightarrow> bool" where
  "begins p str \<longleftrightarrow> (\<exists>u v. str = u @ v \<and> u \<in> lang (fst p) \<and> (snd p \<longrightarrow> v = []))"

lemma begins_Nil: "begins ([], e) str \<longleftrightarrow> (e \<longrightarrow> str = [])"
  by (auto simp: begins_def)

lemma begins_One:
  "begins (apfst (Cons (One c)) p) str \<longleftrightarrow> str \<noteq> [] \<and> admits c (hd str) \<and> begins p (tl str)"
  by (cases str) (auto simp: begins_def Cons_eq_append_conv)

lemma begins_Star:
  "begins (apfst (Cons (Star c)) p) str \<longleftrightarrow> (\<exists>w u. str = w @ u \<and> (\<forall>x \<in> set w. admits c x) \<and> begins p u)"
proof
  assume "begins (apfst (Cons (Star c)) p) str"
  then obtain z v where z: "str = z @ v" "z \<in> lang (Star c # fst p)" "snd p \<longrightarrow> v = []"
    unfolding begins_def fst_apfst snd_apfst by blast
  then obtain w u where w: "z = w @ u" "\<forall>x \<in> set w. admits c x" "u \<in> lang (fst p)" unfolding lang.simps by blast
  have "str = w @ (u @ v)" using z(1) w(1) by simp
  moreover have "begins p (u @ v)" using z(3) w(3) unfolding begins_def by blast
  ultimately show "\<exists>w u. str = w @ u \<and> (\<forall>x \<in> set w. admits c x) \<and> begins p u" using w(2) by blast
next
  assume "\<exists>w u. str = w @ u \<and> (\<forall>x \<in> set w. admits c x) \<and> begins p u"
  then obtain w u v where "str = w @ u @ v" "\<forall>x \<in> set w. admits c x" "u \<in> lang (fst p)" "snd p \<longrightarrow> v = []"
    unfolding begins_def by blast
  moreover from this have "w @ u \<in> lang (Star c # fst p)" unfolding lang.simps by blast
  ultimately show "begins (apfst (Cons (Star c)) p) str" unfolding begins_def fst_apfst snd_apfst by (metis append.assoc)
qed

lemma star_unfold:
  "(\<exists>w u. str = w @ u \<and> (\<forall>x \<in> set w. admits c x) \<and> P u) \<longleftrightarrow>
     P str \<or> (str \<noteq> [] \<and> admits c (hd str) \<and> (\<exists>w u. tl str = w @ u \<and> (\<forall>x \<in> set w. admits c x) \<and> P u))"
  (is "?L \<longleftrightarrow> ?R")
proof
  assume ?L
  then obtain w u where w: "str = w @ u" "\<forall>x \<in> set w. admits c x" "P u" by blast
  then show ?R by (cases w) auto
next
  assume ?R
  then show ?L
  proof
    assume "str \<noteq> [] \<and> admits c (hd str) \<and> (\<exists>w u. tl str = w @ u \<and> (\<forall>x \<in> set w. admits c x) \<and> P u)"
    then obtain w u where "str = (hd str # w) @ u" "\<forall>x \<in> set (hd str # w). admits c x" "P u" by (cases str) auto
    then show ?L by blast
  qed fastforce
qed

lemma match_spec:
  "matchhere re str = begins (toks re) str"
  "matchstar c re str = (\<exists>w u. str = w @ u \<and> (\<forall>x \<in> set w. admits c x) \<and> begins (toks re) u)"
proof (induction re str and c re str rule: matchhere_matchstar.induct)
  case (1 re str)
  show ?case
  proof (cases re rule: toks.cases)
    case (2 d)
    then show ?thesis using 1(2)
      by (subst matchhere.simps) (auto simp: begins_Nil admits_def begins_One[where p = "([], False)", simplified])
  next
    case (3 d e re')
    then show ?thesis using 1
      by (subst matchhere.simps) (auto simp: begins_Star begins_One admits_def)
  qed (simp add: matchhere.simps begins_Nil)
next
  case (2 c re str)
  then show ?case by (subst matchstar.simps, subst star_unfold) (auto simp: admits_def)
qed

lemma match_from_iff: "match_from re str \<longleftrightarrow> (\<exists>a b. str = a @ b \<and> matchhere re b)"
proof (induction str)
  case (Cons c str)
  have "(\<exists>a b. c # str = a @ b \<and> matchhere re b) \<longleftrightarrow> matchhere re (c # str) \<or> (\<exists>a b. str = a @ b \<and> matchhere re b)"
    unfolding Cons_eq_append_conv by blast
  then show ?case using Cons by simp
qed simp

section \<open>Lines\<close>

text \<open>The complete lines of a text, and what follows the last newline.\<close>

fun lines_of :: "string \<Rightarrow> string list \<times> string" where
  "lines_of [] = ([], [])"
| "lines_of (c # s) = (let (ls, rest) = lines_of s in
     if c = CHR 0x0A then ([] # ls, rest)
     else case ls of [] \<Rightarrow> ([], c # rest) | l # ls' \<Rightarrow> ((c # l) # ls', rest))"

lemma lines_of_append:
  "lines_of (a @ b) = apfst (append (fst (lines_of a))) (lines_of (snd (lines_of a) @ b))"
  by (induction a) (auto simp: Let_def case_prod_beta prod_eq_iff split: list.split)

lemma lines_of_line: "CHR 0x0A \<notin> set l \<Longrightarrow> lines_of (l @ CHR 0x0A # s) = apfst (Cons l) (lines_of s)"
  by (induction l) (auto simp: Let_def case_prod_beta prod_eq_iff)

lemma lines_of_none: "CHR 0x0A \<notin> set s \<Longrightarrow> lines_of s = ([], s)"
  by (induction s) auto

lemma strchr_Some: "strchr s c = Some q \<Longrightarrow> \<exists>l. s = l @ q \<and> c \<notin> set l \<and> q = c # tl q"
proof (induction s)
  case (Cons d s)
  then show ?case
    by (cases "d = c") (auto intro: exI[of _ "[]"] exI[of _ "d # _"])
qed simp

definition hits :: "string \<Rightarrow> string list \<Rightarrow> string" where
  "hits pattern ls = concat (map (\<lambda>l. l @ [CHR 0x0A]) (filter (match pattern) ls))"

lemma grep_lines_eq: "grep_lines pattern p = (hits pattern (fst (lines_of p)), snd (lines_of p))"
proof (induction p rule: length_induct)
  case (1 p)
  show ?case
  proof (cases "strchr p (CHR 0x0A)")
    case None
    then have "CHR 0x0A \<notin> set p" by (simp add: strchr_None)
    with None show ?thesis by (subst grep_lines.simps) (simp add: lines_of_none hits_def)
  next
    case (Some q)
    then obtain l where l: "p = l @ CHR 0x0A # tl q" "CHR 0x0A \<notin> set l" "q = CHR 0x0A # tl q"
      using strchr_Some by fastforce
    have "length (tl q) < length p" using arg_cong[OF l(1), of length] by simp
    then have "grep_lines pattern (tl q) = (hits pattern (fst (lines_of (tl q))), snd (lines_of (tl q)))" using 1 by blast
    moreover have "take (length p - length q) p = l"
      using arg_cong[OF l(1), of length] arg_cong[OF l(3), of length] l(1) by (metis add_diff_cancel_right' append_eq_conv_conj l(3) length_append)
    ultimately have "grep_lines pattern p = ((if match pattern l then l @ [CHR 0x0A] else []) @ hits pattern (fst (lines_of (tl q))),
        snd (lines_of (tl q)))"
      using Some by (subst grep_lines.simps) (simp add: Let_def)
    moreover have "lines_of p = apfst (Cons l) (lines_of (tl q))" using lines_of_line[OF l(2)] l(1) by metis
    ultimately show ?thesis by (simp add: hits_def)
  qed
qed

lemma lines_rest_shorter: "CHR 0x0A \<in> set s \<Longrightarrow> length (snd (lines_of s)) < length s"
proof (induction s)
  case (Cons c s)
  show ?case
  proof (cases "CHR 0x0A \<in> set s")
    case True
    then show ?thesis using Cons by (auto simp: Let_def case_prod_beta split: list.split)
  next
    case False
    then show ?thesis using Cons lines_of_none[of s] by auto
  qed
qed simp

lemma grep_whole:
  assumes "\<And>c. c \<in> set chunks \<Longrightarrow> CHR 0x0A \<in> set c" and "CHR 0x0A \<notin> set kept"
  shows "grep pattern kept chunks = hits pattern (fst (lines_of (kept @ concat chunks)))"
  using assms
proof (induction chunks arbitrary: kept)
  case Nil
  then show ?case by (simp add: lines_of_none hits_def)
next
  case (Cons ch chunks)
  let ?buf = "kept @ ch" and ?p = "snd (lines_of (kept @ ch))"
  have nl: "CHR 0x0A \<in> set ?buf" using Cons.prems by simp
  have p: "CHR 0x0A \<notin> set (snd (lines_of s))" for s
    by (induction s) (auto simp: Let_def case_prod_beta split: list.split)
  have "grep pattern kept (ch # chunks) = hits pattern (fst (lines_of ?buf)) @ grep pattern ?p chunks"
    using lines_rest_shorter[OF nl] by (simp add: grep_lines_eq Let_def)
  also have "grep pattern ?p chunks = hits pattern (fst (lines_of (?p @ concat chunks)))"
    using Cons.IH[OF _ p] Cons.prems by simp
  also have "hits pattern (fst (lines_of ?buf)) @ \<dots> = hits pattern (fst (lines_of (?buf @ concat chunks)))"
    by (subst (3) lines_of_append) (simp add: hits_def)
  finally show ?case by simp
qed

section \<open>Properties\<close>

text \<open>C28. \<open>grep\<close>'s recursive matcher decides the language its patterns denote: a text matches when it contains
  a string of the language, at its beginning if the pattern starts with \<open>^\<close> and at its end if it
  ends with \<open>$\<close>, where \<open>.\<close> stands for any character and \<open>c*\<close> for any number of \<open>c\<close>.\<close>

theorem match_correct:
  "match re str \<longleftrightarrow> (let bol = at0 re = CHR ''^''; (ts, eol) = toks (if bol then tl re else re) in
     \<exists>a u v. str = a @ u @ v \<and> u \<in> lang ts \<and> (bol \<longrightarrow> a = []) \<and> (eol \<longrightarrow> v = []))"
  by (simp add: match_def match_from_iff match_spec begins_def case_prod_beta Let_def) metis

theorem match_correct_witness: "match ''^ab*$'' ''abb''"
proof -
  have "''abb'' = [] @ ''abb'' @ []" "''abb'' \<in> lang [One (CHR ''a''), Star (CHR ''b'')]"
    by (auto simp: admits_def intro: exI[of _ "''bb''"])
  then show ?thesis unfolding match_correct by (simp add: Let_def)
qed



end
