(* ===== verification/Sh.thy ===== *)
theory Sh
  imports Ulib
begin

text \<open>
  The shell (\<open>src/sh.c\<close>): its parser and what it does with a parsed command. The input is the list of the
  characters left. A word is the slice of the input between the pointers \<open>q\<close> and \<open>eq\<close> that \<open>gettoken\<close> returns, which
  is the string that \<open>nulterminate\<close> later makes of it. The node of a simple command is filled in while
  redirections already wrap it, so these are collected as a list and applied at the end.

  The mutually recursive parse functions take fuel; \<open>parsecmd\<close> gives them enough for its input.
\<close>

section \<open>Commands\<close>

datatype cmd =
    EXEC "string list"
  | REDIR cmd string nat nat    \<comment> \<open>file, mode, descriptor\<close>
  | PIPE cmd cmd
  | LIST cmd cmd
  | BACK cmd

definition MAXARGS :: nat where "MAXARGS = 10"
definition SH_RDONLY :: nat where "SH_RDONLY = 0"
definition SH_CREATE :: nat where "SH_CREATE = 0x201"   \<comment> \<open>\<open>O_WRONLY|O_CREATE\<close>\<close>

definition whitespace :: string where
  "whitespace = [CHR '' '', CHR 0x09, CHR 0x0D, CHR 0x0A, CHR 0x0B]"

definition symbols :: string where
  "symbols = ''<|>&;()''"

section \<open>Tokens\<close>

definition blank :: "char \<Rightarrow> bool" where
  "blank c \<longleftrightarrow> strchr whitespace c \<noteq> None"

definition word_char :: "char \<Rightarrow> bool" where
  "word_char c \<longleftrightarrow> strchr whitespace c = None \<and> strchr symbols c = None"

definition skip :: "string \<Rightarrow> string" where
  "skip s = dropWhile blank s"

text \<open>The kind of the token, its text and the rest of the input.\<close>

definition gettoken :: "string \<Rightarrow> char \<times> string \<times> string" where
  "gettoken s = (let s = skip s; c = at0 s in
     if c = CHR 0x00 then (c, [], skip s)
     else if c \<in> {CHR ''|'', CHR ''('', CHR '')'', CHR '';'', CHR ''&'', CHR ''<''} then (c, [c], skip (tl s))
     else if c = CHR ''>'' then
       (if at0 (tl s) = CHR ''>'' then (CHR ''+'', [c, c], skip (tl (tl s))) else (c, [c], skip (tl s)))
     else (CHR ''a'', takeWhile word_char s, skip (dropWhile word_char s)))"

definition peek :: "string \<Rightarrow> string \<Rightarrow> string \<times> bool" where
  "peek s toks = (let s = skip s in (s, at0 s \<noteq> CHR 0x00 \<and> strchr toks (at0 s) \<noteq> None))"

definition after_token :: "string \<Rightarrow> string" where
  "after_token s = snd (snd (gettoken s))"

lemma skip_shorter: "length (skip s) \<le> length s"
  by (simp add: skip_def length_dropWhile_le)

lemma skip_skip [simp]: "skip (skip s) = skip s"
  by (simp add: skip_def)

lemma skip_head: "skip s = [] \<or> \<not> blank (hd (skip s))"
  unfolding skip_def using hd_dropWhile[of blank s] by blast

lemma at0_hd: "at0 s \<noteq> CHR 0x00 \<Longrightarrow> s \<noteq> []"
  by (cases s) auto

lemma after_token_shorter: "at0 (skip s) \<noteq> CHR 0x00 \<Longrightarrow> length (after_token s) < length s"
proof -
  assume c: "at0 (skip s) \<noteq> CHR 0x00"
  then obtain d r where d: "skip s = d # r" by (cases "skip s") auto
  have n: "length r < length s" using skip_shorter[of s] d by simp
  have t: "length (skip r) < length s" "length (skip (tl r)) < length s"
    using skip_shorter[of r] skip_shorter[of "tl r"] n by simp_all
  have w: "length (skip (dropWhile word_char (d # r))) < length s" if "word_char d"
    using that skip_shorter[of "dropWhile word_char r"] length_dropWhile_le[of word_char r] n by simp
  have "word_char d" if "d \<notin> {CHR ''|'', CHR ''('', CHR '')'', CHR '';'', CHR ''&'', CHR ''<''}" "d \<noteq> CHR ''>''"
    using that skip_head[of s] d by (auto simp: word_char_def blank_def symbols_def)
  then show ?thesis using c t w d by (auto simp: after_token_def gettoken_def Let_def)
qed

lemma after_token_le: "length (after_token s) \<le> length s"
proof (cases "at0 (skip s) = CHR 0x00")
  case True
  then show ?thesis by (simp add: after_token_def gettoken_def Let_def skip_shorter)
qed (simp add: after_token_shorter less_imp_le)

lemma peek_shorter: "peek s toks = (t, b) \<Longrightarrow> length t \<le> length s"
  by (auto simp: peek_def Let_def skip_shorter)

lemma peek_token: "peek s toks = (t, True) \<Longrightarrow> length (after_token t) < length s"
  using after_token_shorter[of t] skip_shorter[of s] by (auto simp: peek_def Let_def)

section \<open>The parser\<close>

datatype 'a pres = Parsed 'a string | Fails string | NoFuel

type_synonym redir = "string \<times> nat \<times> nat"

definition wrap :: "redir list \<Rightarrow> cmd \<Rightarrow> cmd" where
  "wrap rs c = foldl (\<lambda>c (f, m, fd). REDIR c f m fd) c rs"

text \<open>The node \<open>parseredirs\<close> adds for a redirection token; \<open>>>\<close> is treated as \<open>>\<close>.\<close>

definition redir_of :: "char \<Rightarrow> string \<Rightarrow> redir" where
  "redir_of tok f = (if tok = CHR ''<'' then (f, SH_RDONLY, 0) else (f, SH_CREATE, 1))"

function parseredirs :: "string \<Rightarrow> redir list pres" where
  "parseredirs s = (case peek s ''<>'' of (s, b) \<Rightarrow>
     if b then (case gettoken s of (tok, _, s1) \<Rightarrow> (case gettoken s1 of (k, q, s2) \<Rightarrow>
       if k \<noteq> CHR ''a'' then Fails ''missing file for redirection''
       else (case parseredirs s2 of Parsed rs t \<Rightarrow> Parsed (redir_of tok q # rs) t | Fails e \<Rightarrow> Fails e | NoFuel \<Rightarrow> NoFuel)))
     else Parsed [] s)"
  by pat_completeness auto
termination
proof (relation "measure length", goal_cases)
  case (2 s)
  then show ?case using peek_token[of s "''<>''"] after_token_le
    by (auto simp: after_token_def) (metis order_le_less_trans snd_conv)
qed simp

declare parseredirs.simps [simp del]

text \<open>The loop over the words of a simple command.\<close>

function exec_loop :: "string list \<Rightarrow> redir list \<Rightarrow> string \<Rightarrow> cmd pres" where
  "exec_loop args rs s = (case peek s ''|)&;'' of (s, b) \<Rightarrow>
     if b then Parsed (wrap rs (EXEC args)) s
     else (case gettoken s of (tok, q, s1) \<Rightarrow>
       if tok = CHR 0x00 then Parsed (wrap rs (EXEC args)) s1
       else if tok \<noteq> CHR ''a'' then Fails ''syntax''
       else if Suc (length args) \<ge> MAXARGS then Fails ''too many args''
       else (case parseredirs s1 of
           Parsed rs' s2 \<Rightarrow> exec_loop (args @ [q]) (rs @ rs') s2 | Fails e \<Rightarrow> Fails e | NoFuel \<Rightarrow> NoFuel)))"
  by pat_completeness auto
termination
  by (relation "measure (\<lambda>(args, rs, s). MAXARGS - length args)") auto

declare exec_loop.simps [simp del]

text \<open>\<open>while (peek(ps, es, "&"))\<close>.\<close>

function back_loop :: "cmd \<Rightarrow> string \<Rightarrow> cmd \<times> string" where
  "back_loop c s = (case peek s ''&'' of (t, b) \<Rightarrow> if b then back_loop (BACK c) (after_token t) else (c, t))"
  by pat_completeness auto
termination
  using peek_token by (relation "measure (\<lambda>(c, s). length s)") auto

declare back_loop.simps [simp del]

fun parseline :: "nat \<Rightarrow> string \<Rightarrow> cmd pres"
  and parsepipe :: "nat \<Rightarrow> string \<Rightarrow> cmd pres"
  and parseexec :: "nat \<Rightarrow> string \<Rightarrow> cmd pres"
  and parseblock :: "nat \<Rightarrow> string \<Rightarrow> cmd pres" where
  "parseline 0 s = NoFuel"
| "parseline (Suc n) s = (case parsepipe n s of
     Parsed c s \<Rightarrow> (case back_loop c s of (c, s) \<Rightarrow> (case peek s '';'' of (s, b) \<Rightarrow>
       if b then (case parseline n (after_token s) of
         Parsed d s \<Rightarrow> Parsed (LIST c d) s | Fails e \<Rightarrow> Fails e | NoFuel \<Rightarrow> NoFuel)
       else Parsed c s))
   | Fails e \<Rightarrow> Fails e | NoFuel \<Rightarrow> NoFuel)"
| "parsepipe 0 s = NoFuel"
| "parsepipe (Suc n) s = (case parseexec n s of
     Parsed c s \<Rightarrow> (case peek s ''|'' of (s, b) \<Rightarrow>
       if b then (case parsepipe n (after_token s) of
         Parsed d s \<Rightarrow> Parsed (PIPE c d) s | Fails e \<Rightarrow> Fails e | NoFuel \<Rightarrow> NoFuel)
       else Parsed c s)
   | Fails e \<Rightarrow> Fails e | NoFuel \<Rightarrow> NoFuel)"
| "parseexec 0 s = NoFuel"
| "parseexec (Suc n) s = (case peek s ''('' of (s, b) \<Rightarrow>
     if b then parseblock n s
     else (case parseredirs s of Parsed rs s \<Rightarrow> exec_loop [] rs s | Fails e \<Rightarrow> Fails e | NoFuel \<Rightarrow> NoFuel))"
| "parseblock 0 s = NoFuel"
| "parseblock (Suc n) s = (case peek s ''('' of (s, b) \<Rightarrow>
     if \<not> b then Fails ''parseblock''
     else (case parseline n (after_token s) of
       Parsed c s \<Rightarrow> (case peek s '')'' of (s, b) \<Rightarrow>
         if \<not> b then Fails ''syntax - missing )''
         else (case parseredirs (after_token s) of
           Parsed rs s \<Rightarrow> Parsed (wrap rs c) s | Fails e \<Rightarrow> Fails e | NoFuel \<Rightarrow> NoFuel))
     | Fails e \<Rightarrow> Fails e | NoFuel \<Rightarrow> NoFuel))"

definition parsecmd :: "string \<Rightarrow> cmd pres" where
  "parsecmd s = (case parseline (4 * length s + 4) s of
     Parsed c s \<Rightarrow> (case peek s [] of (s, _) \<Rightarrow> if s \<noteq> [] then Fails ''syntax'' else Parsed c s)
   | Fails e \<Rightarrow> Fails e | NoFuel \<Rightarrow> NoFuel)"

section \<open>Running a command\<close>

text \<open>The system calls of a process and what it does next. A call that can fail has a continuation
  for that; \<open>Fork\<close> has the child's and the parent's; that of \<open>Pipe\<close> gets the two descriptors.\<close>

datatype prog =
    Exit
  | Exec string "string list" prog
  | Open string nat prog prog
  | Close nat prog
  | Dup nat prog
  | Pipe "nat \<times> nat \<Rightarrow> prog" prog
  | Fork prog prog prog       \<comment> \<open>child, parent, failure\<close>
  | Wait prog
  | Print string prog

definition sh_panic :: "string \<Rightarrow> prog" where
  "sh_panic m = Print (m @ [CHR 0x0A]) Exit"

definition fork1 :: "prog \<Rightarrow> prog \<Rightarrow> prog" where
  "fork1 child parent = Fork child parent (sh_panic ''fork'')"

fun runcmd :: "cmd \<Rightarrow> prog" where
  "runcmd (EXEC argv) = (if argv = [] then Exit
     else Exec (hd argv) argv (Print (''exec '' @ hd argv @ '' failed\<newline>'') Exit))"
| "runcmd (REDIR c f m fd) = Close fd (Open f m (runcmd c) (Print (''open '' @ f @ '' failed\<newline>'') Exit))"
| "runcmd (LIST c d) = fork1 (runcmd c) (Wait (runcmd d))"
| "runcmd (PIPE c d) = Pipe (\<lambda>(p0, p1).
     (fork1 (Close 1 (Dup p1 (Close p0 (Close p1 (runcmd c)))))
       (fork1 (Close 0 (Dup p0 (Close p0 (Close p1 (runcmd d)))))
         (Close p0 (Close p1 (Wait (Wait Exit)))))))
     (sh_panic ''pipe'')"
| "runcmd (BACK c) = fork1 (runcmd c) Exit"

section \<open>The parser terminates\<close>

text \<open>What a parse step may do: it never runs out of fuel, and the input it leaves is no longer.\<close>

fun sound :: "string \<Rightarrow> 'a pres \<Rightarrow> bool" where
  "sound s (Parsed c t) \<longleftrightarrow> length t \<le> length s"
| "sound s (Fails e) \<longleftrightarrow> True"
| "sound s NoFuel \<longleftrightarrow> False"

lemma sound_mono: "sound t r \<Longrightarrow> length t \<le> length s \<Longrightarrow> sound s r"
  by (cases r) auto

lemma gettoken_le: "gettoken s = (k, q, t) \<Longrightarrow> length t \<le> length s"
  using after_token_le[of s] by (simp add: after_token_def)

lemma parseredirs_sound: "sound s (parseredirs s)"
proof (induction s rule: length_induct)
  case (1 s)
  obtain u b where u: "peek s ''<>'' = (u, b)" by fastforce
  obtain tok q s1 where t1: "gettoken u = (tok, q, s1)" by (cases "gettoken u") auto
  obtain k f s2 where t2: "gettoken s1 = (k, f, s2)" by (cases "gettoken s1") auto
  have l: "length u \<le> length s" "length s2 \<le> length s1" using peek_shorter[OF u] gettoken_le[OF t2] by simp_all
  show ?case
  proof (cases b)
    case True
    then have "length s2 < length s" using peek_token[of s "''<>''" u] u t1 l by (simp add: after_token_def)
    then have "sound s2 (parseredirs s2)" "length s2 \<le> length s" using 1 by auto
    then show ?thesis using True u t1 t2 by (subst parseredirs.simps) (auto split: pres.split)
  qed (use u l in \<open>simp add: parseredirs.simps[of s]\<close>)
qed

lemma exec_loop_sound: "sound s (exec_loop args rs s)"
proof (induction "MAXARGS - length args" arbitrary: args rs s rule: less_induct)
  case less
  obtain u b where u: "peek s ''|)&;'' = (u, b)" by fastforce
  obtain tok q s1 where t1: "gettoken u = (tok, q, s1)" by (cases "gettoken u") auto
  have l: "length u \<le> length s" "length s1 \<le> length u" using peek_shorter[OF u] gettoken_le[OF t1] by simp_all
  note r = parseredirs_sound[of s1]
  show ?case
  proof (cases "parseredirs s1")
    case (Parsed rs' s2)
    have "sound s (exec_loop (args @ [q]) (rs @ rs') s2)" if "Suc (length args) < MAXARGS"
      by (rule sound_mono[OF less]) (use that r l Parsed in auto)
    then show ?thesis using u t1 l Parsed by (simp add: exec_loop.simps[of args rs s])
  qed (use u t1 l r in \<open>simp_all add: exec_loop.simps[of args rs s]\<close>)
qed

lemma back_loop_shorter: "back_loop c s = (d, t) \<Longrightarrow> length t \<le> length s"
proof (induction "length s" arbitrary: c s rule: less_induct)
  case less
  obtain u b where u: "peek s ''&'' = (u, b)" by fastforce
  then show ?case using less peek_token[of s "''&''" u] peek_shorter[OF u]
    by (cases b) (auto simp: back_loop.simps[of c s] dest: less_imp_le intro: order_trans)
qed

lemma parse_sound:
  "4 * length s + 4 \<le> n \<Longrightarrow> sound s (parseline n s)"
  "4 * length s + 3 \<le> n \<Longrightarrow> sound s (parsepipe n s)"
  "4 * length s + 2 \<le> n \<Longrightarrow> sound s (parseexec n s)"
  "4 * length s + 1 \<le> n \<Longrightarrow> sound s (parseblock n s)"
proof (induction n s and n s and n s and n s rule: parseline_parsepipe_parseexec_parseblock.induct)
  case (2 n s)
  from 2(1,3) have p: "sound s (parsepipe n s)" by simp
  show ?case
  proof (cases "parsepipe n s")
    case (Parsed c t)
    obtain d u where bl: "back_loop c t = (d, u)" by fastforce
    obtain v b where pk: "peek u '';'' = (v, b)" by fastforce
    have l: "length v \<le> length s" using p Parsed back_loop_shorter[OF bl] peek_shorter[OF pk] by simp
    have "sound s (parseline n (after_token v))" if b
    proof -
      have "length (after_token v) < length s"
        using peek_token[of u "'';''" v] pk that p Parsed back_loop_shorter[OF bl] by simp
      then show ?thesis using 2(2)[OF Parsed bl[symmetric] pk[symmetric] that] 2(3) by (simp add: sound_mono[of "after_token v"])
    qed
    then show ?thesis using Parsed bl pk l by (cases "parseline n (after_token v)") auto
  qed (use p in simp_all)
next
  case (4 n s)
  from 4(1,3) have p: "sound s (parseexec n s)" by simp
  show ?case
  proof (cases "parseexec n s")
    case (Parsed c t)
    obtain v b where pk: "peek t ''|'' = (v, b)" by fastforce
    have l: "length v \<le> length s" using p Parsed peek_shorter[OF pk] by simp
    have "sound s (parsepipe n (after_token v))" if b
    proof -
      have "length (after_token v) < length s" using peek_token[of t "''|''" v] pk that p Parsed by simp
      then show ?thesis using 4(2)[OF Parsed pk[symmetric] that] 4(3) by (simp add: sound_mono[of "after_token v"])
    qed
    then show ?thesis using Parsed pk l by (cases "parsepipe n (after_token v)") auto
  qed (use p in simp_all)
next
  case (6 n s)
  obtain u b where pk: "peek s ''('' = (u, b)" by fastforce
  have l: "length u \<le> length s" by (rule peek_shorter[OF pk])
  have e: "sound s (exec_loop [] rs t)" if "parseredirs u = Parsed rs t" for rs t
    by (rule sound_mono[OF exec_loop_sound]) (use that parseredirs_sound[of u] l in simp)
  have "sound s (parseblock n u)" if b
    by (rule sound_mono[OF 6(1)[OF pk[symmetric] that]]) (use 6(2) l in simp_all)
  then show ?case using pk parseredirs_sound[of u] e by (cases "parseredirs u") auto
next
  case (8 n s)
  obtain u b where pk: "peek s ''('' = (u, b)" by fastforce
  show ?case
  proof (cases b)
    case True
    then have l: "length (after_token u) < length s" using peek_token[of s "''(''" u] pk by simp
    then have p: "sound (after_token u) (parseline n (after_token u))" using 8(1)[OF pk[symmetric]] 8(2) True by simp
    show ?thesis
    proof (cases "parseline n (after_token u)")
      case (Parsed c t)
      obtain v b' where pk': "peek t '')'' = (v, b')" by fastforce
      have "length (after_token v) \<le> length s"
        using p Parsed l peek_shorter[OF pk'] after_token_le[of v] by simp
      then have "sound s (parseredirs (after_token v))" using parseredirs_sound sound_mono by blast
      then show ?thesis using pk True Parsed pk' by (cases "parseredirs (after_token v)") simp_all
    qed (use p pk True in simp_all)
  qed (use pk in simp)
qed simp_all

section \<open>Printing commands\<close>

text \<open>A command as text, at each of the four levels of the grammar: line, pipeline with trailing
  \<open>&\<close>, pipeline, simple command or block.\<close>

definition words_text :: "string list \<Rightarrow> string" where
  "words_text args = concat (map (\<lambda>a. a @ [CHR '' '']) args)"

definition redir_text :: "redir list \<Rightarrow> string" where
  "redir_text rs = concat (map (\<lambda>(f, m, fd). (if fd = 0 then CHR ''<'' else CHR ''>'') # f @ [CHR '' '']) rs)"

definition paren :: "string \<Rightarrow> string" where
  "paren s = CHR ''('' # s @ [CHR '')'']"

primrec shows_cmd :: "cmd \<Rightarrow> string \<times> string \<times> string \<times> string" where
  "shows_cmd (EXEC args) = (let e = words_text args in (e, e, e, e))"
| "shows_cmd (REDIR c f m fd) = (case shows_cmd c of (_, _, _, e) \<Rightarrow> let e = e @ redir_text [(f, m, fd)] in (e, e, e, e))"
| "shows_cmd (PIPE c d) = (case shows_cmd c of (_, _, _, e) \<Rightarrow> case shows_cmd d of (_, _, p, _) \<Rightarrow>
     let p = e @ CHR ''|'' # p in (p, p, p, paren p))"
| "shows_cmd (LIST c d) = (case shows_cmd c of (_, b, _, _) \<Rightarrow> case shows_cmd d of (l, _, _, _) \<Rightarrow>
     let l = b @ CHR '';'' # l in (l, paren l, paren l, paren l))"
| "shows_cmd (BACK c) = (case shows_cmd c of (_, b, _, _) \<Rightarrow>
     let b = b @ [CHR ''&''] in (b, b, paren b, paren b))"

definition line_text :: "cmd \<Rightarrow> string" where "line_text c = fst (shows_cmd c)"
definition back_text :: "cmd \<Rightarrow> string" where "back_text c = fst (snd (shows_cmd c))"
definition pipe_text :: "cmd \<Rightarrow> string" where "pipe_text c = fst (snd (snd (shows_cmd c)))"
definition exec_text :: "cmd \<Rightarrow> string" where "exec_text c = snd (snd (snd (shows_cmd c)))"

lemma cmd_texts [simp]:
  "line_text (EXEC args) = words_text args" "back_text (EXEC args) = words_text args"
  "pipe_text (EXEC args) = words_text args" "exec_text (EXEC args) = words_text args"
  "line_text (REDIR c f m fd) = exec_text c @ redir_text [(f, m, fd)]"
  "back_text (REDIR c f m fd) = exec_text c @ redir_text [(f, m, fd)]"
  "pipe_text (REDIR c f m fd) = exec_text c @ redir_text [(f, m, fd)]"
  "exec_text (REDIR c f m fd) = exec_text c @ redir_text [(f, m, fd)]"
  "line_text (PIPE c d) = exec_text c @ CHR ''|'' # pipe_text d" "back_text (PIPE c d) = exec_text c @ CHR ''|'' # pipe_text d"
  "pipe_text (PIPE c d) = exec_text c @ CHR ''|'' # pipe_text d" "exec_text (PIPE c d) = paren (line_text (PIPE c d))"
  "line_text (LIST c d) = back_text c @ CHR '';'' # line_text d" "back_text (LIST c d) = paren (line_text (LIST c d))"
  "pipe_text (LIST c d) = paren (line_text (LIST c d))" "exec_text (LIST c d) = paren (line_text (LIST c d))"
  "line_text (BACK c) = back_text c @ [CHR ''&'']" "back_text (BACK c) = back_text c @ [CHR ''&'']"
  "pipe_text (BACK c) = paren (line_text (BACK c))" "exec_text (BACK c) = paren (line_text (BACK c))"
  by (simp_all add: line_text_def back_text_def pipe_text_def exec_text_def case_prod_beta Let_def)

text \<open>What the parser can produce: words are not empty and have no special characters, at most nine
  words per command, the two kinds of redirection.\<close>

definition wf_word :: "string \<Rightarrow> bool" where
  "wf_word w \<longleftrightarrow> w \<noteq> [] \<and> (\<forall>c \<in> set w. word_char c \<and> c \<noteq> CHR 0x00)"

definition wf_redir :: "redir \<Rightarrow> bool" where
  "wf_redir r \<longleftrightarrow> (case r of (f, m, fd) \<Rightarrow> wf_word f \<and> (fd = 0 \<and> m = SH_RDONLY \<or> fd = 1 \<and> m = SH_CREATE))"

primrec wf_cmd :: "cmd \<Rightarrow> bool" where
  "wf_cmd (EXEC args) \<longleftrightarrow> (\<forall>a \<in> set args. wf_word a) \<and> length args < MAXARGS"
| "wf_cmd (REDIR c f m fd) \<longleftrightarrow> wf_cmd c \<and> wf_redir (f, m, fd)"
| "wf_cmd (PIPE c d) \<longleftrightarrow> wf_cmd c \<and> wf_cmd d"
| "wf_cmd (LIST c d) \<longleftrightarrow> wf_cmd c \<and> wf_cmd d"
| "wf_cmd (BACK c) \<longleftrightarrow> wf_cmd c"

section \<open>Parsing printed commands\<close>

text \<open>More fuel does not change a result.\<close>

lemma parse_mono:
  "parseline n s \<noteq> NoFuel \<Longrightarrow> n \<le> m \<Longrightarrow> parseline m s = parseline n s"
  "parsepipe n s \<noteq> NoFuel \<Longrightarrow> n \<le> m \<Longrightarrow> parsepipe m s = parsepipe n s"
  "parseexec n s \<noteq> NoFuel \<Longrightarrow> n \<le> m \<Longrightarrow> parseexec m s = parseexec n s"
  "parseblock n s \<noteq> NoFuel \<Longrightarrow> n \<le> m \<Longrightarrow> parseblock m s = parseblock n s"
proof (induction n s and n s and n s and n s arbitrary: m and m and m and m
    rule: parseline_parsepipe_parseexec_parseblock.induct)
  case (2 n s)
  obtain k where m: "m = Suc k" "n \<le> k" using 2(4) by (cases m) auto
  have "parsepipe n s \<noteq> NoFuel" by (rule notI) (use 2(3) in simp)
  then have p: "parsepipe k s = parsepipe n s" using 2(1) m by blast
  show ?case
  proof (cases "parsepipe n s")
    case (Parsed c t)
    obtain d u where bl: "back_loop c t = (d, u)" by fastforce
    obtain v b where pk: "peek u '';'' = (v, b)" by fastforce
    have "parseline k (after_token v) = parseline n (after_token v)" if b
    proof (rule 2(2)[OF Parsed bl[symmetric] pk[symmetric] that _ m(2)])
      show "parseline n (after_token v) \<noteq> NoFuel" by (rule notI) (use 2(3) Parsed bl pk that in simp)
    qed
    then show ?thesis using m p Parsed bl pk by simp
  qed (use m p in simp_all)
next
  case (4 n s)
  obtain k where m: "m = Suc k" "n \<le> k" using 4(4) by (cases m) auto
  have "parseexec n s \<noteq> NoFuel" by (rule notI) (use 4(3) in simp)
  then have p: "parseexec k s = parseexec n s" using 4(1) m by blast
  show ?case
  proof (cases "parseexec n s")
    case (Parsed c t)
    obtain v b where pk: "peek t ''|'' = (v, b)" by fastforce
    have "parsepipe k (after_token v) = parsepipe n (after_token v)" if b
    proof (rule 4(2)[OF Parsed pk[symmetric] that _ m(2)])
      show "parsepipe n (after_token v) \<noteq> NoFuel" by (rule notI) (use 4(3) Parsed pk that in simp)
    qed
    then show ?thesis using m p Parsed pk by simp
  qed (use m p in simp_all)
next
  case (6 n s)
  obtain k where m: "m = Suc k" "n \<le> k" using 6(3) by (cases m) auto
  obtain u b where pk: "peek s ''('' = (u, b)" by fastforce
  have "parseblock k u = parseblock n u" if b
    by (rule 6(1)[OF pk[symmetric] that _ m(2)]) (use 6(2) pk that in simp)
  then show ?case using m pk by simp
next
  case (8 n s)
  obtain k where m: "m = Suc k" "n \<le> k" using 8(3) by (cases m) auto
  obtain u b where pk: "peek s ''('' = (u, b)" by fastforce
  have "parseline k (after_token u) = parseline n (after_token u)" if b
  proof (rule 8(1)[OF pk[symmetric] _ _ m(2)])
    show "\<not> \<not> b" using that by simp
    show "parseline n (after_token u) \<noteq> NoFuel" by (rule notI) (use 8(2) pk that in simp)
  qed
  then show ?case using m pk by simp
qed simp_all

text \<open>Tokens of printed text. \<open>stop L r\<close>: the rest \<open>r\<close> is empty or starts with a character of \<open>L\<close>.\<close>

definition stop :: "string \<Rightarrow> string \<Rightarrow> bool" where
  "stop L r \<longleftrightarrow> r = [] \<or> hd r \<in> set L"

lemmas char_defs = blank_def word_char_def whitespace_def symbols_def

lemma word_not_blank: "word_char c \<Longrightarrow> \<not> blank c"
  by (simp add: word_char_def blank_def)

lemma peek_skip [simp]: "peek (skip s) toks = peek s toks"
  by (simp add: peek_def)

lemma skip_nonblank: "s = [] \<or> \<not> blank (hd s) \<Longrightarrow> skip s = s"
  by (cases s) (auto simp: skip_def)

lemma skip_stop: "stop ''|)&;'' r \<Longrightarrow> skip r = r"
  by (rule skip_nonblank) (auto simp: stop_def char_defs)

lemma skip_word: "wf_word w \<Longrightarrow> skip (w @ s) = w @ s"
  by (rule skip_nonblank) (cases w; auto simp: wf_word_def word_not_blank)

lemma peek_stop: "stop ''|)&;'' r \<Longrightarrow> peek r L = (r, r \<noteq> [] \<and> strchr L (hd r) \<noteq> None)"
  using skip_stop[of r] by (cases r) (auto simp: peek_def Let_def stop_def)

lemma word_headD: "wf_word w \<Longrightarrow> \<exists>c v. w = c # v \<and> word_char c \<and> c \<noteq> CHR 0x00"
  by (cases w) (auto simp: wf_word_def)

lemma peek_word:
  assumes "wf_word w" "set L \<subseteq> set symbols"
  shows "peek (w @ s) L = (w @ s, False)"
proof -
  obtain c v where w: "w = c # v" "word_char c" using word_headD[OF assms(1)] by blast
  then have "strchr L c = None" using assms(2) by (auto simp: strchr_None word_char_def)
  then show ?thesis using w skip_word[OF assms(1), of s] by (simp add: peek_def Let_def)
qed

lemma gettoken_word:
  assumes "wf_word w"
  shows "gettoken (w @ CHR '' '' # s) = (CHR ''a'', w, skip s)"
proof -
  obtain c v where w: "w = c # v" "word_char c" "c \<noteq> CHR 0x00" using word_headD[OF assms] by blast
  have "c \<notin> {CHR ''|'', CHR ''('', CHR '')'', CHR '';'', CHR ''&'', CHR ''<'', CHR ''>''}"
    using w(2) by (auto simp: word_char_def symbols_def)
  moreover have "takeWhile word_char (w @ CHR '' '' # s) = w" "dropWhile word_char (w @ CHR '' '' # s) = CHR '' '' # s"
    using assms by (auto simp: wf_word_def char_defs)
  moreover have "skip (CHR '' '' # s) = skip s" by (simp add: skip_def char_defs)
  ultimately show ?thesis using w skip_word[OF assms] by (simp add: gettoken_def Let_def)
qed

lemma gettoken_sym:
  "c \<in> {CHR ''|'', CHR ''('', CHR '')'', CHR '';'', CHR ''&'', CHR ''<''} \<Longrightarrow> gettoken (c # s) = (c, [c], skip s)"
proof -
  assume c: "c \<in> {CHR ''|'', CHR ''('', CHR '')'', CHR '';'', CHR ''&'', CHR ''<''}"
  then have "\<not> blank c" "c \<noteq> CHR 0x00" by (auto simp: char_defs)
  then show ?thesis using c skip_nonblank[of "c # s"] by (simp add: gettoken_def Let_def)
qed

lemma after_sym:
  "c \<in> {CHR ''|'', CHR ''('', CHR '')'', CHR '';'', CHR ''&'', CHR ''<''} \<Longrightarrow> after_token (c # s) = skip s"
  by (auto simp: after_token_def gettoken_sym)

lemma gettoken_gt: "wf_word w \<Longrightarrow> gettoken (CHR ''>'' # w @ s) = (CHR ''>'', [CHR ''>''], w @ s)"
  using word_headD[of w] skip_word[of w s]
  by (auto simp: gettoken_def Let_def skip_def char_defs)

text \<open>Every parse function skips blanks first.\<close>

lemma parse_skip:
  "parseredirs (skip s) = parseredirs s" "exec_loop args rs (skip s) = exec_loop args rs s"
  "back_loop c (skip s) = back_loop c s" "parseexec n (skip s) = parseexec n s"
  "parsepipe n (skip s) = parsepipe n s" "parseline n (skip s) = parseline n s"
proof -
  show e: "parseexec n (skip s) = parseexec n s" for n by (cases n) simp_all
  show p: "parsepipe n (skip s) = parsepipe n s" for n by (cases n) (simp_all add: e)
  show "parseline n (skip s) = parseline n s" by (cases n) (simp_all add: p)
qed (simp_all add: parseredirs.simps[of s] parseredirs.simps[of "skip s"] exec_loop.simps[of args rs s]
      exec_loop.simps[of args rs "skip s"] back_loop.simps[of c s] back_loop.simps[of c "skip s"])

lemma parseredirs_text:
  assumes "\<forall>r \<in> set rs. wf_redir r" "stop ''|)&;'' r"
  shows "parseredirs (redir_text rs @ r) = Parsed rs r"
  using assms(1)
proof (induction rs)
  case Nil
  then show ?case using peek_stop[OF assms(2), of "''<>''"] assms(2)
    by (subst parseredirs.simps) (auto simp: redir_text_def stop_def)
next
  case (Cons a rs)
  obtain f m fd where a: "a = (f, m, fd)" by (cases a) auto
  let ?c = "if fd = 0 then CHR ''<'' else CHR ''>''" and ?s = "f @ CHR '' '' # redir_text rs @ r"
  have f: "wf_word f" and k: "fd = 0 \<and> m = SH_RDONLY \<or> fd = 1 \<and> m = SH_CREATE" using Cons.prems a by (auto simp: wf_redir_def)
  have e: "redir_text (a # rs) @ r = ?c # ?s" using a by (simp add: redir_text_def)
  have "peek (?c # ?s) ''<>'' = (?c # ?s, True)" by (simp add: peek_def Let_def skip_def char_defs)
  moreover have "gettoken (?c # ?s) = (?c, [?c], ?s)"
    using gettoken_gt[OF f] gettoken_sym[of "CHR ''<''"] skip_word[OF f] by simp
  moreover have "gettoken ?s = (CHR ''a'', f, skip (redir_text rs @ r))" by (rule gettoken_word[OF f])
  moreover have "parseredirs (skip (redir_text rs @ r)) = Parsed rs r" using Cons by (simp add: parse_skip)
  moreover have "redir_of ?c f = a" using k a by (auto simp: redir_of_def)
  ultimately show ?case unfolding e by (subst parseredirs.simps) simp
qed

lemma parseredirs_none:
  assumes "wf_word w"
  shows "parseredirs (w @ s) = Parsed [] (w @ s)"
  using peek_word[OF assms, of "''<>''" s] by (subst parseredirs.simps) (simp add: symbols_def)

lemma exec_loop_end:
  assumes "stop ''|)&;'' r"
  shows "exec_loop args rs r = Parsed (wrap rs (EXEC args)) r"
proof (cases r)
  case Nil
  then show ?thesis by (subst exec_loop.simps) (simp add: peek_def gettoken_def skip_def)
next
  case (Cons c t)
  then show ?thesis using assms peek_stop[OF assms, of "''|)&;''"]
    by (subst exec_loop.simps) (auto simp: stop_def)
qed

lemma exec_loop_text:
  assumes "\<forall>a \<in> set (a # as). wf_word a" "\<forall>r \<in> set rs. wf_redir r" "stop ''|)&;'' r" "length args + length (a # as) < MAXARGS"
  shows "exec_loop args [] (words_text (a # as) @ redir_text rs @ r) = Parsed (wrap rs (EXEC (args @ a # as))) r"
  using assms
proof (induction as arbitrary: a args)
  case Nil
  have a: "wf_word a" using Nil by simp
  have e: "words_text [a] @ redir_text rs @ r = a @ CHR '' '' # redir_text rs @ r" by (simp add: words_text_def)
  show ?case unfolding e using peek_word[OF a, of "''|)&;''"] gettoken_word[OF a] parseredirs_text[OF assms(2,3)] exec_loop_end[OF assms(3)] Nil(4)
    by (subst exec_loop.simps) (simp add: symbols_def parse_skip)
next
  case (Cons b as)
  have a: "wf_word a" and b: "wf_word b" using Cons by simp_all
  let ?s = "words_text (b # as) @ redir_text rs @ r"
  have e: "words_text (a # b # as) @ redir_text rs @ r = a @ CHR '' '' # ?s" by (simp add: words_text_def)
  have n: "parseredirs ?s = Parsed [] ?s"
    using parseredirs_none[OF b, of "CHR '' '' # words_text as @ redir_text rs @ r"] by (simp add: words_text_def)
  have "exec_loop (args @ [a]) [] ?s = Parsed (wrap rs (EXEC ((args @ [a]) @ b # as))) r"
    using Cons.IH[of b "args @ [a]"] Cons.prems by simp
  then show ?case unfolding e using peek_word[OF a, of "''|)&;''"] gettoken_word[OF a] n Cons.prems(4)
    by (subst exec_loop.simps) (simp add: symbols_def parse_skip)
qed

text \<open>With enough fuel, \<open>f\<close> parses \<open>s\<close> as \<open>c\<close> up to the rest \<open>r\<close>. At the second level the pending \<open>&\<close> are still
  to be read.\<close>

definition gives :: "(nat \<Rightarrow> string \<Rightarrow> cmd pres) \<Rightarrow> string \<Rightarrow> cmd \<Rightarrow> string \<Rightarrow> bool" where
  "gives f s c r \<longleftrightarrow> (\<exists>n. f n s = Parsed c r)"

definition gives_back :: "string \<Rightarrow> cmd \<Rightarrow> string \<Rightarrow> bool" where
  "gives_back s c r \<longleftrightarrow> (\<exists>d t. gives parsepipe s d t \<and> back_loop d t = back_loop c r)"

lemma stop_sub: "stop L r \<Longrightarrow> set L \<subseteq> set ''|)&;'' \<Longrightarrow> stop ''|)&;'' r"
  by (auto simp: stop_def)

lemma gives_pipe:
  assumes "gives parseexec s c r" "stop '')&;'' r"
  shows "gives parsepipe s c r"
proof -
  obtain n where "parseexec n s = Parsed c r" using assms(1) by (auto simp: gives_def)
  then have "parsepipe (Suc n) s = Parsed c r"
    using peek_stop[OF stop_sub[OF assms(2)], of "''|''"] assms(2) by (auto simp: stop_def)
  then show ?thesis unfolding gives_def by blast
qed

lemma gives_pipe_cons:
  assumes "gives parseexec s c (CHR ''|'' # t)" "gives parsepipe t d r"
  shows "gives parsepipe s (PIPE c d) r"
proof -
  obtain n m where n: "parseexec n s = Parsed c (CHR ''|'' # t)" and m: "parsepipe m t = Parsed d r"
    using assms by (auto simp: gives_def)
  have "parseexec (max n m) s = Parsed c (CHR ''|'' # t)" "parsepipe (max n m) t = Parsed d r"
    using parse_mono(3)[of n s "max n m"] parse_mono(2)[of m t "max n m"] n m by simp_all
  moreover have "peek (CHR ''|'' # t) ''|'' = (CHR ''|'' # t, True)" by (simp add: peek_stop stop_def)
  ultimately have "parsepipe (Suc (max n m)) s = Parsed (PIPE c d) r" by (simp add: after_sym parse_skip)
  then show ?thesis unfolding gives_def by blast
qed

lemma gives_backI: "gives parsepipe s c r \<Longrightarrow> gives_back s c r"
  by (auto simp: gives_back_def)

lemma back_loop_more: "back_loop c (CHR ''&'' # r) = back_loop (BACK c) r"
  by (subst back_loop.simps) (simp add: peek_stop stop_def after_sym parse_skip)

lemma back_loop_done: "stop '';)'' r \<Longrightarrow> back_loop c r = (c, r)"
  using peek_stop[OF stop_sub, of "'';)''" r "''&''"] by (subst back_loop.simps) (auto simp: stop_def)

lemma gives_line:
  assumes "gives_back s c r" "stop '')'' r"
  shows "gives parseline s c r"
proof -
  obtain n d t where n: "parsepipe n s = Parsed d t" "back_loop d t = back_loop c r"
    using assms(1) by (auto simp: gives_back_def gives_def)
  have "back_loop c r = (c, r)" using assms(2) by (intro back_loop_done) (auto simp: stop_def)
  then have "parseline (Suc n) s = Parsed c r"
    using n peek_stop[OF stop_sub[OF assms(2)], of "'';''"] assms(2) by (auto simp: stop_def)
  then show ?thesis unfolding gives_def by blast
qed

lemma gives_line_cons:
  assumes "gives_back s c (CHR '';'' # t)" "gives parseline t d r"
  shows "gives parseline s (LIST c d) r"
proof -
  obtain n u v m where n: "parsepipe n s = Parsed u v" "back_loop u v = back_loop c (CHR '';'' # t)" and m: "parseline m t = Parsed d r"
    using assms by (auto simp: gives_back_def gives_def)
  have "parsepipe (max n m) s = Parsed u v" "parseline (max n m) t = Parsed d r"
    using parse_mono(2)[of n s "max n m"] parse_mono(1)[of m t "max n m"] n m by simp_all
  moreover have "back_loop c (CHR '';'' # t) = (c, CHR '';'' # t)" by (rule back_loop_done) (simp add: stop_def)
  moreover have "peek (CHR '';'' # t) '';'' = (CHR '';'' # t, True)" by (simp add: peek_stop stop_def)
  ultimately have "parseline (Suc (max n m)) s = Parsed (LIST c d) r" using n(2) by (simp add: after_sym parse_skip)
  then show ?thesis unfolding gives_def by blast
qed

lemma gives_block:
  assumes "gives parseline (s @ CHR '')'' # redir_text rs @ r) c (CHR '')'' # redir_text rs @ r)"
    and "\<forall>r \<in> set rs. wf_redir r" "stop ''|)&;'' r"
  shows "gives parseexec (paren s @ redir_text rs @ r) (wrap rs c) r"
proof -
  let ?t = "s @ CHR '')'' # redir_text rs @ r"
  obtain n where n: "parseline n ?t = Parsed c (CHR '')'' # redir_text rs @ r)" using assms(1) by (auto simp: gives_def)
  have e: "paren s @ redir_text rs @ r = CHR ''('' # ?t" by (simp add: paren_def)
  have p: "peek (CHR ''('' # ?t) ''('' = (CHR ''('' # ?t, True)" by (simp add: peek_def Let_def skip_def char_defs)
  have q: "peek (CHR '')'' # redir_text rs @ r) '')'' = (CHR '')'' # redir_text rs @ r, True)" by (simp add: peek_stop stop_def)
  have "parseblock (Suc n) (CHR ''('' # ?t) = Parsed (wrap rs c) r"
    using p q n parseredirs_text[OF assms(2,3)] by (simp add: after_sym parse_skip)
  then have "parseexec (Suc (Suc n)) (CHR ''('' # ?t) = Parsed (wrap rs c) r" using p by (simp del: parseblock.simps)
  then show ?thesis unfolding gives_def e by blast
qed

lemma gives_exec:
  assumes "wf_cmd (EXEC args)" "\<forall>r \<in> set rs. wf_redir r" "stop ''|)&;'' r"
  shows "gives parseexec (words_text args @ redir_text rs @ r) (wrap rs (EXEC args)) r"
proof (cases args)
  case Nil
  have "peek (redir_text rs @ r) ''('' = (skip (redir_text rs @ r), False)"
  proof (cases rs)
    case Nil
    then show ?thesis using assms(3) peek_stop[OF assms(3), of "''(''"] skip_stop[OF assms(3)]
      by (auto simp: redir_text_def stop_def)
  next
    case (Cons a rs)
    then show ?thesis by (cases a) (simp add: redir_text_def peek_def Let_def skip_def char_defs)
  qed
  then have "parseexec (Suc 0) (redir_text rs @ r) = Parsed (wrap rs (EXEC [])) r"
    using parseredirs_text[OF assms(2,3)] exec_loop_end[OF assms(3)] by (simp add: parse_skip)
  then show ?thesis unfolding gives_def Nil words_text_def by (metis append_Nil concat.simps(1) list.map_disc_iff)
next
  case (Cons a as)
  let ?s = "words_text (a # as) @ redir_text rs @ r"
  have a: "wf_word a" using assms(1) Cons by simp
  have e: "?s = a @ CHR '' '' # words_text as @ redir_text rs @ r" by (simp add: words_text_def)
  have "peek ?s ''('' = (?s, False)" "parseredirs ?s = Parsed [] ?s"
    unfolding e by (rule peek_word[OF a], simp add: symbols_def, rule parseredirs_none[OF a])
  moreover have "exec_loop [] [] ?s = Parsed (wrap rs (EXEC (a # as))) r"
    using exec_loop_text[of a as rs r "[]"] assms Cons by simp
  ultimately have "parseexec (Suc 0) ?s = Parsed (wrap rs (EXEC (a # as))) r" by simp
  then show ?thesis unfolding gives_def Cons by blast
qed

lemma parse_texts:
  assumes "wf_cmd c"
  shows "(\<forall>rs r. (\<forall>x \<in> set rs. wf_redir x) \<longrightarrow> stop ''|)&;'' r \<longrightarrow>
             gives parseexec (exec_text c @ redir_text rs @ r) (wrap rs c) r) \<and>
         (\<forall>r. stop '')&;'' r \<longrightarrow> gives parsepipe (pipe_text c @ r) c r) \<and>
         (\<forall>r. stop '')&;'' r \<longrightarrow> gives_back (back_text c @ r) c r) \<and>
         (\<forall>r. stop '')'' r \<longrightarrow> gives parseline (line_text c @ r) c r)"
  (is "?X c \<and> ?P c \<and> ?B c \<and> ?L c")
  using assms
proof (induction c)
  have pX: "?P c" if "?X c" "pipe_text c = exec_text c" for c
  proof (intro allI impI)
    fix r assume r: "stop '')&;'' r"
    have "gives parseexec (exec_text c @ redir_text [] @ r) (wrap [] c) r" using that(1) stop_sub[OF r] by simp
    then show "gives parsepipe (pipe_text c @ r) c r"
      using gives_pipe[OF _ r] that(2) by (simp add: redir_text_def wrap_def)
  qed
  have bP: "?B c" if "?P c" "back_text c = pipe_text c" for c using that gives_backI by simp
  have lB: "?L c" if "?B c" "line_text c = back_text c" for c
    using that gives_line by (auto simp: stop_def)
  have xL: "?X c" if "?L c" "exec_text c = paren (line_text c)" for c
    unfolding that(2) by (intro allI impI gives_block) (use that(1) in \<open>auto simp: stop_def\<close>)
  {
    case (EXEC args)
    then have x: "?X (EXEC args)" using gives_exec by simp
    have p: "?P (EXEC args)" by (rule pX[OF x]) simp
    have b: "?B (EXEC args)" by (rule bP[OF p]) simp
    have l: "?L (EXEC args)" by (rule lB[OF b]) simp
    show ?case using x p b l by blast
  next
    case (REDIR c f m fd)
    have x: "?X (REDIR c f m fd)"
    proof (intro allI impI)
      fix rs r assume "\<forall>x \<in> set rs. wf_redir x" "stop ''|)&;'' r"
      then have "gives parseexec (exec_text c @ redir_text ((f, m, fd) # rs) @ r) (wrap ((f, m, fd) # rs) c) r"
        using REDIR by simp
      then show "gives parseexec (exec_text (REDIR c f m fd) @ redir_text rs @ r) (wrap rs (REDIR c f m fd)) r"
        by (simp add: redir_text_def wrap_def)
    qed
    have p: "?P (REDIR c f m fd)" by (rule pX[OF x]) simp
    have b: "?B (REDIR c f m fd)" by (rule bP[OF p]) simp
    have l: "?L (REDIR c f m fd)" by (rule lB[OF b]) simp
    show ?case using x p b l by blast
  next
    case (PIPE c d)
    have p: "?P (PIPE c d)"
    proof (intro allI impI)
      fix r assume r: "stop '')&;'' r"
      have "gives parseexec (exec_text c @ redir_text [] @ CHR ''|'' # pipe_text d @ r) (wrap [] c) (CHR ''|'' # pipe_text d @ r)"
        using PIPE by (simp add: stop_def)
      then show "gives parsepipe (pipe_text (PIPE c d) @ r) (PIPE c d) r"
        using gives_pipe_cons PIPE r by (simp add: redir_text_def wrap_def)
    qed
    have b: "?B (PIPE c d)" by (rule bP[OF p]) simp
    have l: "?L (PIPE c d)" by (rule lB[OF b]) simp
    have x: "?X (PIPE c d)" by (rule xL[OF l]) simp
    show ?case using x p b l by blast
  next
    case (LIST c d)
    have l: "?L (LIST c d)"
    proof (intro allI impI)
      fix r assume r: "stop '')'' r"
      have "gives_back (back_text c @ CHR '';'' # line_text d @ r) c (CHR '';'' # line_text d @ r)"
        using LIST by (simp add: stop_def)
      then show "gives parseline (line_text (LIST c d) @ r) (LIST c d) r" using gives_line_cons LIST r by simp
    qed
    have x: "?X (LIST c d)" by (rule xL[OF l]) simp
    have p: "?P (LIST c d)" by (rule pX[OF x]) simp
    have b: "?B (LIST c d)" by (rule bP[OF p]) simp
    show ?case using x p b l by blast
  next
    case (BACK c)
    have b: "?B (BACK c)"
    proof (intro allI impI)
      fix r assume r: "stop '')&;'' r"
      have "gives_back (back_text c @ CHR ''&'' # r) c (CHR ''&'' # r)" using BACK by (simp add: stop_def)
      then show "gives_back (back_text (BACK c) @ r) (BACK c) r" by (simp add: gives_back_def back_loop_more)
    qed
    have l: "?L (BACK c)" by (rule lB[OF b]) simp
    have x: "?X (BACK c)" by (rule xL[OF l]) simp
    have p: "?P (BACK c)" by (rule pX[OF x]) simp
    show ?case using x p b l by blast
  }
qed

section \<open>Descriptors of the commands that are run\<close>

datatype obj = Std nat | File string | PipeR nat | PipeW nat

type_synonym fdmap = "nat \<Rightarrow> obj option"

text \<open>The kernel hands out the lowest free descriptor. Pipes are told apart by a number.\<close>

definition lowest :: "fdmap \<Rightarrow> nat" where
  "lowest m = hd (filter (\<lambda>n. m n = None) [0..<16])"

text \<open>Every call of \<open>exec\<close> that can be reached, with the descriptors open at that point.\<close>

primrec execs :: "prog \<Rightarrow> fdmap \<Rightarrow> nat \<Rightarrow> (string list \<times> fdmap) list" where
  "execs Exit = (\<lambda>m n. [])"
| "execs (Exec p argv k) = (\<lambda>m n. (argv, m) # execs k m n)"
| "execs (Open f md k bad) = (\<lambda>m n. execs k (m(lowest m \<mapsto> File f)) n @ execs bad m n)"
| "execs (Close fd k) = (\<lambda>m n. execs k (m(fd := None)) n)"
| "execs (Dup fd k) = (\<lambda>m n. execs k (m(lowest m := m fd)) n)"
| "execs (Pipe k bad) = (\<lambda>m n. let p0 = lowest m; m1 = m(p0 \<mapsto> PipeR n); p1 = lowest m1 in
     execs (k (p0, p1)) (m1(p1 \<mapsto> PipeW n)) (Suc n) @ execs bad m n)"
| "execs (Fork child parent bad) = (\<lambda>m n. execs child m n @ execs parent m n @ execs bad m n)"
| "execs (Wait k) = execs k"
| "execs (Print s k) = execs k"

definition std :: fdmap where
  "std = (\<lambda>n. if n < 3 then Some (Std n) else None)"

definition three :: "fdmap \<Rightarrow> bool" where
  "three m \<longleftrightarrow> dom m = {0, 1, 2}"

lemma threeD: "three m \<Longrightarrow> (m n = None) = (n \<notin> {0, 1, 2})"
  unfolding three_def by (metis domIff)

lemma three_upd: "three m \<Longrightarrow> fd = 0 \<or> fd = Suc 0 \<Longrightarrow> three (m(fd \<mapsto> x))"
  unfolding three_def by auto

lemma upt_16: "[0..<16] = [0, 1, 2, 3, 4] @ [5..<16 :: nat]"
  by (simp add: upt_rec)

lemma lowest_cases:
  assumes "three m"
  shows "lowest m = 3" "lowest (m(3 \<mapsto> x)) = 4"
    "lowest (m(3 \<mapsto> x, 4 \<mapsto> y, 0 := None)) = 0" "lowest (m(3 \<mapsto> x, 4 \<mapsto> y, Suc 0 := None)) = 1"
    "lowest (m(0 := None)) = 0" "lowest (m(Suc 0 := None)) = 1"
  using threeD[OF assms] unfolding lowest_def upt_16 by simp_all

lemma three_std: "three std"
proof -
  have "dom std = {n. n < 3}" by (auto simp: std_def dom_def)
  then show ?thesis unfolding three_def by auto
qed

lemma execs_fork1 [simp]: "execs (fork1 c d) m n = execs c m n @ execs d m n"
  by (simp add: fork1_def sh_panic_def)

lemma execs_redir:
  assumes "three m" "fd = 0 \<or> fd = Suc 0"
  shows "execs (runcmd (REDIR c f md fd)) m n = execs (runcmd c) (m(fd \<mapsto> File f)) n"
  using assms(2) lowest_cases(5,6)[OF assms(1)] by auto

lemma execs_pipe:
  assumes "three m"
  shows "execs (runcmd (PIPE c d)) m n =
    execs (runcmd c) (m(Suc 0 \<mapsto> PipeW n)) (Suc n) @ execs (runcmd d) (m(0 \<mapsto> PipeR n)) (Suc n)"
proof -
  let ?m = "m(3 \<mapsto> PipeR n, 4 \<mapsto> PipeW n)"
  have n: "m 3 = None" "m 4 = None" using threeD[OF assms] by simp_all
  have l: "?m(Suc 0 := None, Suc 0 := Some (PipeW n), 3 := None, 4 := None) = m(Suc 0 \<mapsto> PipeW n)"
    and r: "?m(0 := None, 0 := Some (PipeR n), 3 := None, 4 := None) = m(0 \<mapsto> PipeR n)"
    using n by (simp_all add: fun_eq_iff)
  show ?thesis using lowest_cases(1-4)[OF assms] l r by (simp add: Let_def sh_panic_def)
qed

lemma runcmd_three: "wf_cmd c \<Longrightarrow> three m \<Longrightarrow> x \<in> set (execs (runcmd c) m n) \<Longrightarrow> three (snd x)"
proof (induction c arbitrary: m n)
  case (EXEC args)
  then show ?case by (auto split: if_splits)
next
  case (REDIR c f md fd)
  then have "fd = 0 \<or> fd = Suc 0" by (auto simp: wf_redir_def)
  then have "three (m(fd \<mapsto> File f))" "x \<in> set (execs (runcmd c) (m(fd \<mapsto> File f)) n)"
    using execs_redir[OF REDIR(3)] three_upd[OF REDIR(3)] REDIR(4) by metis+
  then show ?case using REDIR(1,2) by simp
next
  case (PIPE c d)
  have t: "three (m(Suc 0 \<mapsto> PipeW n))" "three (m(0 \<mapsto> PipeR n))" using three_upd[OF PIPE(4)] by blast+
  have "x \<in> set (execs (runcmd c) (m(Suc 0 \<mapsto> PipeW n)) (Suc n)) \<or> x \<in> set (execs (runcmd d) (m(0 \<mapsto> PipeR n)) (Suc n))"
    using PIPE(5) execs_pipe[OF PIPE(4)] by simp
  then show ?case using PIPE(1)[OF _ t(1)] PIPE(2)[OF _ t(2)] PIPE(3) by (metis wf_cmd.simps(3))
qed auto

section \<open>Properties\<close>

text \<open>C26. The shell's parser returns for every input, with a command or an error message, and it inverts
  printing: every command it can produce, written as a line with parentheses where the grammar
  needs them, is parsed back to the same command.\<close>

theorem parsecmd_roundtrip:
  "parsecmd s \<noteq> NoFuel \<and> (wf_cmd c \<longrightarrow> parsecmd (line_text c) = Parsed c [])"
proof (intro conjI impI)
  have "sound s (parseline (4 * length s + 4) s)" for s by (rule parse_sound) simp
  then have total: "parseline (4 * length s + 4) s \<noteq> NoFuel" for s by (metis sound.simps(3))
  then show "parsecmd s \<noteq> NoFuel" by (auto simp: parsecmd_def split: pres.split prod.split)
  assume "wf_cmd c"
  then have "gives parseline (line_text c @ []) c []" using parse_texts[of c] by (simp add: stop_def)
  then obtain n where n: "parseline n (line_text c) = Parsed c []" by (auto simp: gives_def)
  let ?k = "4 * length (line_text c) + 4"
  have "parseline ?k (line_text c) = Parsed c []"
    using parse_mono(1)[of n "line_text c" "max n ?k"] parse_mono(1)[of ?k "line_text c" "max n ?k"] n total by simp
  then show "parsecmd (line_text c) = Parsed c []" by (simp add: parsecmd_def peek_def skip_def)
qed

theorem parsecmd_roundtrip_witness:
  "parsecmd ''(ls & )| wc <in ;'' \<noteq> NoFuel \<and>
   parsecmd ''(ls &)|wc <in '' = Parsed (PIPE (BACK (EXEC [''ls''])) (REDIR (EXEC [''wc'']) ''in'' SH_RDONLY 0)) []"
  using parsecmd_roundtrip[of "''(ls & )| wc <in ;''" "PIPE (BACK (EXEC [''ls''])) (REDIR (EXEC [''wc'']) ''in'' SH_RDONLY 0)"]
  by (simp add: wf_redir_def wf_word_def word_char_def whitespace_def symbols_def MAXARGS_def words_text_def redir_text_def paren_def)

text \<open>C27. A shell with descriptors 0, 1 and 2 open runs every program of a command line with exactly these open:
  no end of a pipe leaks into a command, so that readers see the end of the file when the writers
  are gone. In a pipeline the output of the left command is the input of the right one.\<close>

theorem runcmd_descriptors:
  "(wf_cmd c \<and> dom m = {0, 1, 2} \<longrightarrow> list_all (\<lambda>(argv, m'). dom m' = {0, 1, 2}) (execs (runcmd c) m n)) \<and>
   execs (runcmd (PIPE (EXEC [a]) (EXEC [b]))) std n = [([a], std(1 \<mapsto> PipeW n)), ([b], std(0 \<mapsto> PipeR n))]"
proof (intro conjI impI)
  assume "wf_cmd c \<and> dom m = {0, 1, 2}"
  then show "list_all (\<lambda>(argv, m'). dom m' = {0, 1, 2}) (execs (runcmd c) m n)"
    using runcmd_three[of c m _ n] unfolding three_def list_all_iff by (auto simp: case_prod_beta)
next
  show "execs (runcmd (PIPE (EXEC [a]) (EXEC [b]))) std n = [([a], std(1 \<mapsto> PipeW n)), ([b], std(0 \<mapsto> PipeR n))]"
    unfolding execs_pipe[OF three_std] by simp
qed

theorem runcmd_descriptors_witness:
  "list_all (\<lambda>(argv, m'). dom m' = {0, 1, 2}) (execs (runcmd (LIST (PIPE (EXEC [''ls'']) (EXEC [''wc''])) (EXEC [''pwd'']))) std 0)"
proof -
  have "dom std = {0, 1, 2}" using three_std unfolding three_def .
  then show ?thesis
    using conjunct1[OF runcmd_descriptors, of "LIST (PIPE (EXEC [''ls'']) (EXEC [''wc''])) (EXEC [''pwd''])" std 0]
    by (simp add: wf_word_def word_char_def whitespace_def symbols_def MAXARGS_def del: runcmd.simps execs.simps)
qed

end
