(* ===== verification/Mkfs.thy ===== *)
theory Mkfs
  imports Dir
begin

text \<open>
  The program that makes the initial file system image (\<open>src/mkfs.c\<close>). Its state is the image, a function
  from sector numbers to sectors, and the next free inode and block. A failing assertion or system call is \<open>None\<close>. The
  files to install are given as names and contents.
\<close>

unbundle bit_operations_syntax

definition NINODES :: nat where "NINODES = 200"
definition fs_size :: nat where "fs_size = 1000"
definition nbitmap :: nat where "nbitmap = fs_size div (BSIZE * 8) + 1"
definition ninodeblocks :: nat where "ninodeblocks = NINODES div IPB + 1"
definition nlog :: nat where "nlog = LOGSIZE"
definition nmeta :: nat where "nmeta = 2 + nlog + ninodeblocks + nbitmap"
definition nblocks :: nat where "nblocks = fs_size - nmeta"

text \<open>Conversion to Intel byte order: the bytes are stored from the low end and read back as the host does.\<close>

definition xshort :: "u16 \<Rightarrow> u16" where
  "xshort x = get16 [ucast x, ucast (drop_bit 8 x)] 0"

definition xint :: "u32 \<Rightarrow> u32" where
  "xint x = of_le32 [ucast x, ucast (drop_bit 8 x), ucast (drop_bit 16 x), ucast (drop_bit 24 x)]"

record mkst =
  img :: "nat \<Rightarrow> u8 list"
  freeinode :: u32
  freeblock :: u32

definition mk_sb :: superblock where
  "mk_sb = \<lparr>sb_size = xint (of_nat fs_size), sb_nblocks = xint (of_nat nblocks), sb_ninodes = xint (of_nat NINODES),
     sb_nlog = xint (of_nat nlog), sb_logstart = xint 2, sb_inodestart = xint (of_nat (2 + nlog)),
     sb_bmapstart = xint (of_nat (2 + nlog + ninodeblocks))\<rparr>"

definition wsect :: "u32 \<Rightarrow> u8 list \<Rightarrow> mkst \<Rightarrow> mkst" where
  "wsect sec buf st = st\<lparr>img := (img st)(unat sec := take BSIZE buf)\<rparr>"

definition rsect :: "u32 \<Rightarrow> mkst \<Rightarrow> u8 list" where
  "rsect sec st = img st (unat sec)"

definition winode :: "u32 \<Rightarrow> dinode \<Rightarrow> mkst \<Rightarrow> mkst" where
  "winode inum ip st = (let bn = IBLOCK inum mk_sb in
     wsect bn (dinode_put (rsect bn st) (unat inum mod IPB) ip) st)"

definition rinode :: "u32 \<Rightarrow> mkst \<Rightarrow> dinode" where
  "rinode inum st = dinode_get (rsect (IBLOCK inum mk_sb) st) (unat inum mod IPB)"

definition mk_ialloc :: "u16 \<Rightarrow> mkst \<Rightarrow> u32 \<times> mkst" where
  "mk_ialloc ty st = (let inum = freeinode st in
     (inum, winode inum \<lparr>d_type = xshort ty, d_major = 0, d_minor = 0, d_nlink = xshort 1, d_size = xint 0,
        d_addrs = replicate (NDIRECT + 1) 0\<rparr> (st\<lparr>freeinode := freeinode st + 1\<rparr>)))"

definition mk_balloc :: "nat \<Rightarrow> mkst \<Rightarrow> mkst option" where
  "mk_balloc n_used st = (if n_used < BSIZE * 8 then
     Some (wsect (sb_bmapstart mk_sb)
       (foldl (\<lambda>buf i. buf[i div 8 := buf ! (i div 8) OR push_bit (i mod 8) 1]) (replicate BSIZE 0) [0..<n_used]) st)
   else None)"

text \<open>\<open>xint(freeblock++)\<close>.\<close>

definition take_block :: "mkst \<Rightarrow> u32 \<times> mkst" where
  "take_block st = (xint (freeblock st), st\<lparr>freeblock := freeblock st + 1\<rparr>)"

text \<open>The block of \<open>din\<close> for block number \<open>fbn\<close> of the file, allocated if need be.\<close>

definition file_block :: "nat \<Rightarrow> dinode \<Rightarrow> mkst \<Rightarrow> u32 \<times> dinode \<times> mkst" where
  "file_block fbn din st =
     (let k = (if fbn < NDIRECT then fbn else NDIRECT);
          (a, st) = (if xint (d_addrs din ! k) = 0 then take_block st else (d_addrs din ! k, st));
          din = din\<lparr>d_addrs := (d_addrs din)[k := a]\<rparr> in
      if fbn < NDIRECT then (xint a, din, st)
      else let ind = rsect (xint a) st in
        if get32 ind (4 * (fbn - NDIRECT)) = 0 then
          (let (b, st) = take_block st in (xint b, din, wsect (xint a) (put32 ind (4 * (fbn - NDIRECT)) b) st))
        else (xint (get32 ind (4 * (fbn - NDIRECT))), din, st))"

function iappend_loop :: "dinode \<Rightarrow> nat \<Rightarrow> u8 list \<Rightarrow> mkst \<Rightarrow> (dinode \<times> nat \<times> mkst) option" where
  "iappend_loop din off p st =
     (if p = [] then Some (din, off, st)
      else let fbn = off div BSIZE in
        if fbn < MAXFILE then
          (let (x, din, st) = file_block fbn din st;
               n1 = min (length p) ((fbn + 1) * BSIZE - off);
               st = wsect x (splice (rsect x st) (off - fbn * BSIZE) (take n1 p)) st
           in iappend_loop din (off + n1) (drop n1 p) st)
        else None)"
  by pat_completeness auto
termination
proof (relation "measure (\<lambda>(din, off, p, st). length p)", goal_cases)
  case (2 din off p st fbn)
  have "off < (off div BSIZE + 1) * BSIZE" by (simp add: BSIZE_def)
  then show ?case using 2 by (auto simp: Let_def)
qed simp

declare iappend_loop.simps [simp del]

definition iappend :: "u32 \<Rightarrow> u8 list \<Rightarrow> mkst \<Rightarrow> mkst option" where
  "iappend inum p st = (let din = rinode inum st in
     map_option (\<lambda>(din, off, st). winode inum (din\<lparr>d_size := xint (of_nat off)\<rparr>) st)
       (iappend_loop din (unat (xint (d_size din))) p st))"

text \<open>Reading a file and appending it in blocks.\<close>

function append_file :: "u32 \<Rightarrow> u8 list \<Rightarrow> mkst \<Rightarrow> mkst option" where
  "append_file inum bs st = (if bs = [] then Some st
     else Option.bind (iappend inum (take BSIZE bs) st) (append_file inum (drop BSIZE bs)))"
  by pat_completeness auto
termination
  by (relation "measure (\<lambda>(inum, bs, st). length bs)") (auto simp: BSIZE_def)

declare append_file.simps [simp del]

definition install :: "u8 list \<times> u8 list \<Rightarrow> mkst \<Rightarrow> mkst option" where
  "install f st = (case f of (name, bs) \<Rightarrow>
     if slash \<in> set name then None
     else let name = (if name \<noteq> [] \<and> hd name = 95 then tl name else name); (inum, st) = mk_ialloc T_FILE st in
       Option.bind (iappend 1 (mk_dirent name (ucast (xshort (ucast inum)))) st) (append_file inum bs))"

fun install_all :: "(u8 list \<times> u8 list) list \<Rightarrow> mkst \<Rightarrow> mkst option" where
  "install_all [] st = Some st"
| "install_all (f # fs) st = Option.bind (install f st) (install_all fs)"

definition sb_bytes :: "superblock \<Rightarrow> u8 list" where
  "sb_bytes b = concat (map le32 [sb_size b, sb_nblocks b, sb_ninodes b, sb_nlog b, sb_logstart b, sb_inodestart b, sb_bmapstart b])"

definition mkfs :: "(u8 list \<times> u8 list) list \<Rightarrow> mkst option" where
  "mkfs files =
     (let st = \<lparr>img = (\<lambda>_. replicate BSIZE 0), freeinode = 1, freeblock = of_nat nmeta\<rparr>;
          st = wsect 1 (splice (replicate BSIZE 0) 0 (sb_bytes mk_sb)) st;
          (rootino, st) = mk_ialloc T_DIR st in
      if rootino \<noteq> ROOTINO then None
      else Option.bind (iappend rootino (mk_dirent [46] (ucast (xshort (ucast rootino)))) st) (\<lambda>st.
        Option.bind (iappend rootino (mk_dirent [46, 46] (ucast (xshort (ucast rootino)))) st) (\<lambda>st.
        Option.bind (install_all files st) (\<lambda>st.
          let din = rinode rootino st; off = (unat (xint (d_size din)) div BSIZE + 1) * BSIZE;
              st = winode rootino (din\<lparr>d_size := xint (of_nat off)\<rparr>) st in
          mk_balloc (unat (freeblock st)) st))))"

end
