(* ===== verification/Umalloc.thy ===== *)
theory Umalloc
  imports Ulib
begin

text \<open>
  The user memory allocator (\<open>src/umalloc.c\<close>). The headers of the blocks are words in user memory: at a header
  address the pointer to the next free block, four bytes further the size in units of a header.
  The system call \<open>sbrk\<close> is an argument: it takes the memory and the number of bytes and yields the
  old end of the heap and the memory, or \<open>None\<close> for its failure. The loops may run for ever on a list that is not
  circular; they are partial functions.
\<close>

record umst =
  umem :: mem
  base :: u32     \<comment> \<open>the address of the static header \<open>base\<close>\<close>
  freep :: u32

definition s_ptr :: "umst \<Rightarrow> u32 \<Rightarrow> u32" where
  "s_ptr s p = load32 (umem s) p"

definition s_size :: "umst \<Rightarrow> u32 \<Rightarrow> u32" where
  "s_size s p = load32 (umem s) (p + 4)"

definition set_ptr :: "u32 \<Rightarrow> u32 \<Rightarrow> umst \<Rightarrow> umst" where
  "set_ptr p v s = s\<lparr>umem := store32 p v (umem s)\<rparr>"

definition set_size :: "u32 \<Rightarrow> u32 \<Rightarrow> umst \<Rightarrow> umst" where
  "set_size p v s = s\<lparr>umem := store32 (p + 4) v (umem s)\<rparr>"

text \<open>\<open>p + n\<close> for a header pointer.\<close>

definition hdr_add :: "u32 \<Rightarrow> u32 \<Rightarrow> u32" where
  "hdr_add p n = p + 8 * n"

text \<open>The search of \<open>free\<close> for the block after which \<open>bp\<close> belongs.\<close>

partial_function (option) free_search :: "umst \<Rightarrow> u32 \<Rightarrow> u32 \<Rightarrow> u32 option" where
  "free_search s bp p =
     (if bp > p \<and> bp < s_ptr s p then Some p
      else if p \<ge> s_ptr s p \<and> (bp > p \<or> bp < s_ptr s p) then Some p
      else free_search s bp (s_ptr s p))"

definition free_link :: "u32 \<Rightarrow> u32 \<Rightarrow> umst \<Rightarrow> umst" where
  "free_link bp p s =
     (let s = (if hdr_add bp (s_size s bp) = s_ptr s p then
                 let q = s_ptr s p; s = set_size bp (s_size s bp + s_size s q) s in set_ptr bp (s_ptr s q) s
               else set_ptr bp (s_ptr s p) s);
          s = (if hdr_add p (s_size s p) = bp then
                 let s = set_size p (s_size s p + s_size s bp) s in set_ptr p (s_ptr s bp) s
               else set_ptr p bp s)
      in s\<lparr>freep := p\<rparr>)"

definition free :: "u32 \<Rightarrow> umst \<Rightarrow> umst option" where
  "free ap s = (let bp = ap - 8 in map_option (\<lambda>p. free_link bp p s) (free_search s bp (freep s)))"

type_synonym sbrk = "u32 \<Rightarrow> mem \<Rightarrow> (u32 \<times> mem) option"

text \<open>The new value of \<open>freep\<close>, 0 on failure.\<close>

definition morecore :: "sbrk \<Rightarrow> u32 \<Rightarrow> umst \<Rightarrow> (u32 \<times> umst) option" where
  "morecore sbrk nu s = (let nu = (if nu < 4096 then 4096 else nu) in
     case sbrk (nu * 8) (umem s) of None \<Rightarrow> Some (0, s)
     | Some (hp, m) \<Rightarrow> map_option (\<lambda>s. (freep s, s)) (free (hp + 8) (set_size hp nu (s\<lparr>umem := m\<rparr>))))"

text \<open>A block that is large enough: unlink it or cut off its tail.\<close>

definition take_units :: "u32 \<Rightarrow> u32 \<Rightarrow> u32 \<Rightarrow> umst \<Rightarrow> u32 \<times> umst" where
  "take_units nunits prevp p s =
     (if s_size s p = nunits then (hdr_add p 1, (set_ptr prevp (s_ptr s p) s)\<lparr>freep := prevp\<rparr>)
      else let s = set_size p (s_size s p - nunits) s; p = hdr_add p (s_size s p); s = set_size p nunits s
        in (hdr_add p 1, s\<lparr>freep := prevp\<rparr>))"

partial_function (option) malloc_loop :: "sbrk \<Rightarrow> u32 \<Rightarrow> u32 \<Rightarrow> u32 \<Rightarrow> umst \<Rightarrow> (u32 \<times> umst) option" where
  "malloc_loop sbrk nunits prevp p s =
     (if s_size s p \<ge> nunits then Some (take_units nunits prevp p s)
      else if p = freep s then
        Option.bind (morecore sbrk nunits s) (\<lambda>(q, s).
          if q = 0 then Some (0, s) else malloc_loop sbrk nunits q (s_ptr s q) s)
      else malloc_loop sbrk nunits p (s_ptr s p) s)"

definition malloc :: "sbrk \<Rightarrow> u32 \<Rightarrow> umst \<Rightarrow> (u32 \<times> umst) option" where
  "malloc sbrk nbytes s =
     (let nunits = (nbytes + 8 - 1) div 8 + 1;
          s = (if freep s = 0 then set_size (base s) 0 ((set_ptr (base s) (base s) s)\<lparr>freep := base s\<rparr>) else s)
      in malloc_loop sbrk nunits (freep s) (s_ptr s (freep s)) s)"

end
