(* ===== verification/Frames.thy ===== *)
theory Frames
  imports Args
begin

text \<open>
  What the routines below the file table leave alone. The locale \<open>fs_frame\<close> is about a relation between
  states that allows every change these routines make: to locks, memory, buffers, the disk, the log, inodes,
  pipes, the console, and to a process that is woken up. Each routine of the kernel up to the file system
  and the devices keeps every such relation, whatever it returns. A property of the parts of the state
  that such a relation fixes needs no further proof about these routines.
\<close>

lemma never_sched: "sched s \<noteq> Ok x t"
  by (simp add: sched_def myproc_def getp_def monad_defs split: option.split)

lemma never_sleep: "sleep ch lk s \<noteq> Ok x t"
  by (auto simp: sleep_def sq_def bnd_eq_Ok never_sched panic_def split: option.split)

lemma keeps_sleep: "keeps R (sleep ch lk)" and keeps_sched: "keeps R sched"
  by (simp_all add: keeps_def never_sleep never_sched)

text \<open>A partial-correctness triple: if the routine returns from a state with \<open>P\<close>, then \<open>Q\<close> holds.\<close>

definition triple :: "('s \<Rightarrow> bool) \<Rightarrow> ('s, 'a) kern \<Rightarrow> ('a \<Rightarrow> 's \<Rightarrow> bool) \<Rightarrow> bool" where
  "triple P f Q \<longleftrightarrow> (\<forall>s x t. P s \<longrightarrow> f s = Ok x t \<longrightarrow> Q x t)"

lemma triple_bnd: "triple P f Q \<Longrightarrow> (\<And>x. triple (Q x) (g x) S) \<Longrightarrow> triple P (bnd f g) S"
  unfolding triple_def bnd_eq_Ok by blast

lemma triple_sq: "triple P f (\<lambda>_. Q) \<Longrightarrow> triple Q g S \<Longrightarrow> triple P (sq f g) S"
  unfolding sq_def by (rule triple_bnd)

lemma triple_ret: "(\<And>s. P s \<Longrightarrow> Q x s) \<Longrightarrow> triple P (ret x) Q"
  by (simp add: triple_def ret_def)

lemma triple_upd: "(\<And>s. P s \<Longrightarrow> Q () (f s)) \<Longrightarrow> triple P (upd f) Q"
  by (simp add: triple_def upd_def)

lemma triple_option:
  "(v = None \<Longrightarrow> triple P f Q) \<Longrightarrow> (\<And>x. v = Some x \<Longrightarrow> triple P (g x) Q) \<Longrightarrow> triple P (case v of None \<Rightarrow> f | Some x \<Rightarrow> g x) Q"
  by (cases v) simp_all

lemma triple_cases:
  "triple P f Q \<Longrightarrow> (\<And>x. triple (R x) (g x) Q) \<Longrightarrow>
   triple (\<lambda>s. case v of None \<Rightarrow> P s | Some x \<Rightarrow> R x s) (case v of None \<Rightarrow> f | Some x \<Rightarrow> g x) Q"
  by (cases v) simp_all

lemma triple_pair: "(\<And>x y. triple (P x y) (g x y) Q) \<Longrightarrow> triple (\<lambda>s. case v of (x, y) \<Rightarrow> P x y s) (case v of (x, y) \<Rightarrow> g x y) Q"
  by (cases v) simp

lemma triple_if: "(b \<Longrightarrow> triple P f Q) \<Longrightarrow> (\<not> b \<Longrightarrow> triple P g Q) \<Longrightarrow> triple P (if b then f else g) Q"
  by simp

lemma triple_pre: "triple P f Q \<Longrightarrow> (\<And>s. P' s \<Longrightarrow> P s) \<Longrightarrow> triple P' f Q"
  unfolding triple_def by blast

lemma triple_post: "triple P f Q \<Longrightarrow> (\<And>x s. Q x s \<Longrightarrow> Q' x s) \<Longrightarrow> triple P f Q'"
  unfolding triple_def by blast

lemma triple_fact: "(p \<Longrightarrow> triple P f Q) \<Longrightarrow> triple (\<lambda>s. p \<and> P s) f Q"
  unfolding triple_def by blast

lemma triple_keeps: "keeps (\<lambda>s t. P s \<longrightarrow> P t) f \<Longrightarrow> triple P f (\<lambda>_. P)"
  unfolding triple_def keeps_def by blast

lemma triple_conj: "triple P f Q \<Longrightarrow> triple P' f Q' \<Longrightarrow> triple (\<lambda>s. P s \<and> P' s) f (\<lambda>x s. Q x s \<and> Q' x s)"
  unfolding triple_def by blast

lemma triple_panic: "triple P (panic e) Q" and triple_undef: "triple P (undef e) Q"
  by (simp_all add: triple_def panic_def undef_def)

lemma triple_for_each: "(\<And>x. triple P (f x) (\<lambda>_. P)) \<Longrightarrow> triple P (for_each xs f) (\<lambda>_. P)"
  by (induction xs) (auto intro: triple_ret triple_sq)

lemma triple_for_upto:
  assumes "\<And>i. i < n \<Longrightarrow> triple (I i) (f i) (\<lambda>_. I (Suc i))"
  shows "triple (I 0) (for_each [0..<n] f) (\<lambda>_. I n)"
proof -
  have "k \<le> n \<Longrightarrow> triple (I k) (for_each [k..<n] f) (\<lambda>_. I n)" for k
  proof (induction "n - k" arbitrary: k)
    case (Suc d)
    then have "k < n" by simp
    then have "triple (I (Suc k)) (for_each [Suc k..<n] f) (\<lambda>_. I n)" using Suc by (intro Suc.hyps(1)) simp_all
    then show ?case using \<open>k < n\<close> triple_sq[OF assms[OF \<open>k < n\<close>]] by (simp add: upt_conv_Cons)
  qed (auto intro: triple_ret)
  then show ?thesis by simp
qed

lemma triple_Ok: "triple P f Q \<Longrightarrow> f s = Ok x t \<Longrightarrow> P s \<Longrightarrow> Q x t"
  unfolding triple_def by blast

locale fs_frame = frame R for R :: "'a fdst_scheme \<Rightarrow> 'a fdst_scheme \<Rightarrow> bool" +
  assumes on_held: "R s (s\<lparr>held := h\<rparr>)"
    and on_vm: "R s (s\<lparr>console := c, pmem := m, freelist := f\<rparr>)"
    and on_wake: "p_state (ptable s i) = SLEEPING \<Longrightarrow>
      R s (s\<lparr>ptable := (ptable s)(i := (ptable s i)\<lparr>p_state := RUNNABLE, p_start := t\<rparr>)\<rparr>)"
    and on_slocks: "R s (s\<lparr>slocks := l\<rparr>)"
    and on_bufs: "R s (s\<lparr>bufs := b\<rparr>)"
    and on_disk: "R s (s\<lparr>memdisk := d, dwrites := w\<rparr>)"
    and on_log: "R s (s\<lparr>lg_start := l1, lg_size := l2, lg_outstanding := l3, lg_committing := l4, lg_dev := l5, lh_n := l6, lh_block := l7\<rparr>)"
    and on_fs: "R s (s\<lparr>sb := sp, inodes := n\<rparr>)"
    and on_dev: "R s (s\<lparr>pipes := p, in_buf := i1, in_r := i2, in_w := i3, in_e := i4, crt := i5, cursor := i6\<rparr>)"
begin

lemma kept_console: "R s (s\<lparr>console := c\<rparr>)" using on_vm[of s "freelist s" "pmem s" c] by simp

lemma kept_log:
  "R s (s\<lparr>lg_start := l1, lg_size := l2, lg_dev := l5\<rparr>)" "R s (s\<lparr>lg_outstanding := l3\<rparr>)"
  "R s (s\<lparr>lg_committing := l4\<rparr>)" "R s (s\<lparr>lh_n := l6\<rparr>)" "R s (s\<lparr>lh_block := l7\<rparr>)"
  using on_log[of s "lh_block s" "lh_n s" l5 "lg_committing s" "lg_outstanding s" l2 l1]
    on_log[of s "lh_block s" "lh_n s" "lg_dev s" "lg_committing s" l3 "lg_size s" "lg_start s"]
    on_log[of s "lh_block s" "lh_n s" "lg_dev s" l4 "lg_outstanding s" "lg_size s" "lg_start s"]
    on_log[of s "lh_block s" l6 "lg_dev s" "lg_committing s" "lg_outstanding s" "lg_size s" "lg_start s"]
    on_log[of s l7 "lh_n s" "lg_dev s" "lg_committing s" "lg_outstanding s" "lg_size s" "lg_start s"]
  by simp_all

lemma kept_inodes: "R s (s\<lparr>inodes := n\<rparr>)" and kept_sb: "R s (s\<lparr>sb := sp\<rparr>)"
  using on_fs[of s n "sb s"] on_fs[of s "inodes s" sp] by simp_all

lemma kept_dev:
  "R s (s\<lparr>pipes := p\<rparr>)" "R s (s\<lparr>in_e := i4\<rparr>)" "R s (s\<lparr>in_r := i2\<rparr>)" "R s (s\<lparr>in_w := i3\<rparr>)"
  "R s (s\<lparr>in_buf := i1, in_e := i4\<rparr>)" "R s (s\<lparr>crt := i5, cursor := i6\<rparr>)"
  using on_dev[of s "cursor s" "crt s" "in_e s" "in_w s" "in_r s" "in_buf s" p]
    on_dev[of s "cursor s" "crt s" i4 "in_w s" "in_r s" "in_buf s" "pipes s"]
    on_dev[of s "cursor s" "crt s" "in_e s" "in_w s" i2 "in_buf s" "pipes s"]
    on_dev[of s "cursor s" "crt s" "in_e s" i3 "in_r s" "in_buf s" "pipes s"]
    on_dev[of s "cursor s" "crt s" i4 "in_w s" "in_r s" i1 "pipes s"]
    on_dev[of s i6 i5 "in_e s" "in_w s" "in_r s" "in_buf s" "pipes s"]
  by simp_all

lemmas kept = on_held kept_console on_slocks on_bufs on_disk kept_log kept_inodes kept_sb kept_dev

lemma keeps_vm: "keeps vm_frame f \<Longrightarrow> keeps R f"
  by (auto simp: keeps_def vm_frame_def intro: on_vm)

lemma keeps_locks: "keeps R (acquire l)" "keeps R (release l)"
  by (auto simp: acquire_def release_def intro!: keepsI on_held split: if_splits)

lemma keeps_let: "keeps R (f v) \<Longrightarrow> keeps R (Let v f)"
  by simp

lemma keeps_ftype:
  "keeps R a \<Longrightarrow> keeps R b \<Longrightarrow> keeps R c \<Longrightarrow> keeps R (case ty of FD_NONE \<Rightarrow> a | FD_PIPE \<Rightarrow> b | FD_INODE \<Rightarrow> c)"
  by (simp split: ftype.split)

lemma keeps_locked: "keeps R f \<Longrightarrow> keeps R (with_lock l f)"
  unfolding with_lock_def by (intro keeps_rules keeps_locks)

lemmas rules = keeps_rules keeps_let keeps_locks keeps_locked keeps_sleep keeps_upd kept

lemma keeps_wakeup1: "keeps R (wakeup1 ch)"
proof -
  have "keeps R (\<lambda>s. bnd (getp i) (\<lambda>x. whenb (p_state x = SLEEPING \<and> p_chan x = Some ch)
       (sq (modp i (\<lambda>x. x\<lparr>p_state := RUNNABLE\<rparr>)) (modt i (\<lambda>t x. x\<lparr>p_start := t\<rparr>)))) s)" for i
    using on_wake refl by (intro keepsI) (auto simp: getp_def modp_def modt_def basic_runs whenb_eq sq_def bnd_eq_Ok
        split: if_splits)
  then show ?thesis unfolding wakeup1_def by (intro keeps_for_each)
qed

lemma keeps_wakeup: "keeps R (wakeup ch)"
  unfolding wakeup_def by (intro rules keeps_wakeup1)

lemma keeps_myproc: "keeps R myproc" "keeps R myproc_deref" "keeps R (getp i)" "keeps R my_killed" "keeps R my"
  unfolding myproc_def myproc_deref_def getp_def my_killed_def my_def by (intro rules)+

lemmas proc_rules = rules keeps_wakeup keeps_myproc

section \<open>Buffers and the log\<close>

lemma keeps_sleeplocks:
  "keeps R (initsleeplock l)" "keeps R (acquiresleep l)" "keeps R (releasesleep l)" "keeps R (holdingsleep l)"
  unfolding initsleeplock_def acquiresleep_def acquiresleep_loop_def releasesleep_def holdingsleep_def by (intro proc_rules)+

lemma keeps_buf_fields: "keeps R (modb b f)" "keeps R (getb b)" "keeps R (setb b g)" "keeps R head_next" "keeps R (disk_write n d)"
  unfolding modb_def getb_def setb_def head_next_def disk_write_def by (intro proc_rules)+

lemma keeps_walk: "keeps R (walk step P k b)"
  by (induction k arbitrary: b) (auto intro!: proc_rules keeps_buf_fields)

lemma keeps_iderw: "keeps R (iderw b)"
  unfolding iderw_def by (intro proc_rules keeps_buf_fields keeps_sleeplocks)

lemma keeps_bget: "keeps R (bget dev n)"
  unfolding bget_def by (intro proc_rules keeps_buf_fields keeps_sleeplocks keeps_walk)

lemma keeps_bufs: "keeps R (bread dev n)" "keeps R (bwrite b)" "keeps R (brelse b)"
  unfolding bread_def bwrite_def brelse_def to_front_def
  by (intro proc_rules keeps_buf_fields keeps_sleeplocks keeps_iderw keeps_bget)+

lemmas buf_rules = proc_rules keeps_buf_fields keeps_sleeplocks keeps_bufs

lemma keeps_log_loop: "(\<And>i. keeps R (f i)) \<Longrightarrow> keeps R (log_loop f)"
  unfolding log_loop_def by (intro buf_rules)

lemma keeps_log_parts: "keeps R (install_one k)" "keeps R (write_log_one k)" "keeps R read_head" "keeps R write_head"
  unfolding install_one_def write_log_one_def read_head_def write_head_def by (intro buf_rules keeps_log_loop)+

lemma keeps_commit: "keeps R commit" "keeps R recover_from_log"
  unfolding commit_def write_log_def install_trans_def recover_from_log_def by (intro buf_rules keeps_log_loop keeps_log_parts)+

lemma keeps_log: "keeps R begin_op" "keeps R end_op" "keeps R (log_write b)" "keeps R (readsb dev)" "keeps R (initlog dev)"
  unfolding begin_op_def begin_op_loop_def end_op_def log_write_def readsb_def initlog_def by (intro buf_rules keeps_commit)+

lemmas log_rules = buf_rules keeps_log

section \<open>Inodes and directories\<close>

lemma keeps_inode_fields: "keeps R (modi i f)" "keeps R (geti i)" "keeps R (modd i g)" "keeps R (set_addr i k a)"
  unfolding modi_def geti_def modd_def set_addr_def by (intro log_rules)+

lemma keeps_bzero: "keeps R (bzero dev n)"
  unfolding bzero_def by (intro log_rules)

lemma keeps_blocks: "keeps R (balloc dev)" "keeps R (bfree dev n)"
  unfolding balloc_def bfree_def by (intro log_rules keeps_bzero)+

lemma keeps_iget: "keeps R (iget dev n)" "keeps R (idup i)"
  unfolding iget_def idup_def by (intro log_rules keeps_inode_fields)+

lemma keeps_iupdate: "keeps R (iupdate i)" "keeps R (ialloc dev ty)"
  unfolding iupdate_def ialloc_def by (intro log_rules keeps_inode_fields keeps_iget)+

lemma keeps_ilock: "keeps R (ilock i)" "keeps R (iunlock i)"
  unfolding ilock_def iunlock_def by (intro log_rules keeps_inode_fields)+

lemma keeps_bmap: "keeps R (bmap i n)" "keeps R (itrunc i)"
  unfolding bmap_def addr_or_alloc_def itrunc_def by (intro log_rules keeps_inode_fields keeps_blocks keeps_iupdate)+

lemma keeps_iput: "keeps R (iput i)" "keeps R (iunlockput i)"
  unfolding iput_def iunlockput_def by (intro log_rules keeps_inode_fields keeps_bmap keeps_iupdate keeps_ilock)+

lemmas inode_rules = log_rules keeps_inode_fields keeps_iget keeps_iupdate keeps_ilock keeps_bmap keeps_iput

definition dst_ok :: "('a fdst_scheme) dst \<Rightarrow> bool" where
  "dst_ok dst \<longleftrightarrow> (\<forall>k bs. keeps R (dst k bs))"

definition src_ok :: "('a fdst_scheme) src \<Rightarrow> bool" where
  "src_ok src \<longleftrightarrow> (\<forall>k n. keeps R (src k n))"

lemma keeps_copies: "dst_ok dst \<Longrightarrow> keeps R (dst k bs)" "src_ok src \<Longrightarrow> keeps R (src k n)"
  by (simp_all add: dst_ok_def src_ok_def)

lemma keeps_user: "keeps R (put_user a bs)" "keeps R (get_user a n)"
  by (intro keeps_vm put_user_frame get_user_frame)+

lemma copies_ok: "dst_ok (user_dst p)" "src_ok (user_src p)" "dst_ok no_dst" "src_ok (from_buf bs)"
  by (auto simp: dst_ok_def src_ok_def user_dst_def[abs_def] user_src_def[abs_def] no_dst_def from_buf_def
      intro!: keeps_user keeps_ret)

lemma src_shift: "src_ok src \<Longrightarrow> src_ok (\<lambda>k m. src (j + k) m)"
  by (simp add: src_ok_def)

lemma keeps_pipeclose: "keeps R (pipeclose p w)"
  unfolding pipeclose_def modpi_def getpi_def by (intro inode_rules keeps_vm[OF vm_basic_frames(2)])

lemma keeps_pipewrite:
  assumes "src_ok src"
  shows "keeps R (pipewrite p src n)"
proof -
  have "keeps R (pipewrite_loop p src m i)" for m i
  proof (induction "m - i" arbitrary: i)
    case 0
    then show ?case by (subst pipewrite_loop.simps) (simp add: rules keeps_wakeup)
  next
    case (Suc d)
    then have "keeps R (pipewrite_loop p src m (Suc i))" by simp
    then show ?case
      by (subst pipewrite_loop.simps) (unfold getpi_def pipe_push_def modpi_def, intro inode_rules keeps_copies(2)[OF assms])
  qed
  then show ?thesis unfolding pipewrite_def by (intro rules)
qed

lemma keeps_piperead:
  assumes "dst_ok dst"
  shows "keeps R (piperead p dst n)"
proof -
  have "keeps R (pipe_copy p dst m i)" for m i
  proof (induction "m - i" arbitrary: i)
    case 0
    then show ?case by (subst pipe_copy.simps) (simp add: rules)
  next
    case (Suc d)
    then have "keeps R (pipe_copy p dst m (Suc i))" by simp
    then show ?case
      by (subst pipe_copy.simps) (unfold getpi_def modpi_def, intro inode_rules keeps_copies(1)[OF assms])
  qed
  then show ?thesis unfolding piperead_def piperead_loop_def getpi_def by (intro proc_rules)
qed

lemma keeps_consputc: "keeps R (consputc c)"
  unfolding consputc_def by (intro inode_rules)

lemma keeps_cons_finish: "keeps R (cons_finish ip r)"
  unfolding cons_finish_def by (intro inode_rules)

lemma keeps_consoleread_loop:
  assumes "dst_ok dst"
  shows "keeps R (consoleread_loop ip dst m n)"
  by (induction n) (simp_all add: keeps_cons_finish inode_rules keeps_copies(1)[OF assms] split: prod.split)

lemma keeps_consoleread: "dst_ok dst \<Longrightarrow> keeps R (consoleread ip dst n)"
  unfolding consoleread_def by (intro inode_rules keeps_consoleread_loop)

lemma keeps_consolewrite:
  assumes "src_ok src"
  shows "keeps R (consolewrite ip src n)"
  unfolding consolewrite_def by (intro inode_rules keeps_consputc keeps_copies(2)[OF assms])

lemmas keeps_console = keeps_consoleread keeps_consolewrite

text \<open>What the routines above the inodes ask of the device table.\<close>

definition devs_ok :: "('a fdst_scheme) devsw \<Rightarrow> bool" where
  "devs_ok dsw \<longleftrightarrow>
     (\<forall>m f ip dst n. dev_read dsw m = Some f \<longrightarrow> dst_ok dst \<longrightarrow> keeps R (f ip dst n)) \<and>
     (\<forall>m f ip src n. dev_write dsw m = Some f \<longrightarrow> src_ok src \<longrightarrow> keeps R (f ip src n))"

lemma devs_ok_init: "devs_ok devsw_init"
  by (simp add: devs_ok_def devsw_init_def keeps_console split: if_splits)

lemma keeps_devices:
  assumes "devs_ok dsw"
  shows "dst_ok dst \<Longrightarrow> keeps R (case dev_read dsw m of None \<Rightarrow> ret v | Some f \<Rightarrow> bnd (f ip dst n) (\<lambda>r. ret (g r)))"
    and "src_ok src \<Longrightarrow> keeps R (case dev_write dsw m of None \<Rightarrow> ret u | Some f \<Rightarrow> f ip src n)"
  using assms by (auto simp: devs_ok_def intro!: keeps_ret keeps_bnd split: option.split)

lemma keeps_readi_loop:
  assumes "dst_ok dst"
  shows "keeps R (readi_loop ip dst off n tot)"
proof (induction "n - tot" arbitrary: off tot rule: less_induct)
  case less
  have "tot < n \<Longrightarrow> keeps R (readi_loop ip dst (off + chunk n tot off) n (tot + chunk n tot off))"
    using less chunk_pos[of tot n off] by simp
  then show ?case
    by (subst readi_loop.simps) (intro inode_rules keeps_copies(1)[OF assms])
qed

lemma keeps_writei_loop:
  assumes "src_ok src"
  shows "keeps R (writei_loop ip src off n tot)"
proof (induction "n - tot" arbitrary: off tot rule: less_induct)
  case less
  have "tot < n \<Longrightarrow> keeps R (writei_loop ip src (off + chunk n tot off) n (tot + chunk n tot off))"
    using less chunk_pos[of tot n off] by simp
  then show ?case
    by (subst writei_loop.simps) (intro inode_rules keeps_copies(2)[OF assms])
qed

lemma keeps_readi: "devs_ok dsw \<Longrightarrow> dst_ok dst \<Longrightarrow> keeps R (readi dsw ip dst off n)"
  unfolding readi_def Let_def
  by (intro keeps_bnd keeps_if keeps_ret keeps_inode_fields keeps_devices keeps_readi_loop; assumption)

lemma keeps_writei: "devs_ok dsw \<Longrightarrow> src_ok src \<Longrightarrow> keeps R (writei dsw ip src off n)"
  unfolding writei_def Let_def
  by (intro keeps_bnd keeps_sq keeps_whenb keeps_if keeps_ret keeps_inode_fields keeps_devices keeps_writei_loop keeps_iupdate; assumption)

lemma keeps_dirlookup: "devs_ok dsw \<Longrightarrow> keeps R (dirlookup dsw dp name)" "devs_ok dsw \<Longrightarrow> keeps R (read_dirent dsw m dp off)"
  unfolding dirlookup_def read_dirent_def by (intro inode_rules keeps_readi copies_ok; assumption)+

lemma keeps_dirlink: "devs_ok dsw \<Longrightarrow> keeps R (dirlink dsw dp name n)"
  unfolding dirlink_def by (intro inode_rules keeps_dirlookup keeps_writei copies_ok; assumption)

lemma keeps_namex_loop: "devs_ok dsw \<Longrightarrow> keeps R (namex_loop dsw parent path name ip)"
  by (induction dsw parent path name ip rule: namex_loop.induct)
    (subst namex_loop.simps, auto intro!: inode_rules keeps_dirlookup split: option.split)

lemma keeps_namei: "devs_ok dsw \<Longrightarrow> keeps R (namei dsw path)" "devs_ok dsw \<Longrightarrow> keeps R (nameiparent dsw path name)"
  unfolding namei_def nameiparent_def namex_def by (intro inode_rules keeps_namex_loop; assumption)+

lemmas dir_rules = inode_rules keeps_readi keeps_writei keeps_dirlookup keeps_dirlink keeps_namei

section \<open>Arguments of system calls\<close>

lemma keeps_fetchstr_loop: "keeps R (fetchstr_loop n a)"
  by (induction n arbitrary: a) (auto intro!: rules keeps_user)

lemma keeps_fetch: "keeps R (fetchint a)" "keeps R (fetchstr a)" "keeps R (ld32 a)"
  unfolding fetchint_def fetchstr_def
  by (intro proc_rules keeps_user keeps_fetchstr_loop keeps_vm vm_basic_frames)+

lemma keeps_args: "keeps R (argint k)" "keeps R (argptr k n)" "keeps R (argstr k)"
  unfolding argint_def argptr_def argstr_def by (intro proc_rules keeps_fetch)+

end

end
