(* ===== verification/Refs.thy ===== *)
theory Refs
  imports Frames Trap
begin

text \<open>
  The table of open files against the descriptors of the processes. In a well-formed state the reference count of every file is the number of
  descriptors that refer to it, a file with references has a type, a descriptor refers to an entry of the table,
  and a process entry that is not in use has no descriptors. The system calls that create, copy and close descriptors
  keep this, also where they fail half-way. In between the count and the number of descriptors differ: \<open>e f\<close> is by how much
  the count of \<open>f\<close> exceeds it, and \<open>X\<close> are the files whose type is still to be set.
\<close>

context fs_frame
begin

lemma keeps_create: "devs_ok dsw \<Longrightarrow> keeps R (create dsw path ty major minor)"
  unfolding create_def by (intro dir_rules; assumption)

lemma keeps_links: "devs_ok dsw \<Longrightarrow> keeps R (sys_link dsw)" "devs_ok dsw \<Longrightarrow> keeps R (sys_unlink dsw)"
  unfolding sys_link_def sys_unlink_def link_bad_def unlink_bad_def isdirempty_def
  by (intro dir_rules keeps_args copies_ok; assumption)+

lemma keeps_made: "devs_ok dsw \<Longrightarrow> keeps R (sys_mkdir dsw)" "devs_ok dsw \<Longrightarrow> keeps R (sys_mknod dsw)"
  unfolding sys_mkdir_def sys_mknod_def made_def by (intro dir_rules keeps_args keeps_create; assumption)+

end

definition fd_refs :: "'a fdst_scheme \<Rightarrow> nat \<Rightarrow> int" where
  "fd_refs s f = (\<Sum>p<NPROC. int (count_list (p_ofile (ptable s p)) (Some f)))"

definition proc_wf :: "proc \<Rightarrow> bool" where
  "proc_wf x \<longleftrightarrow> length (p_ofile x) = NOFILE \<and> (\<forall>f. Some f \<in> set (p_ofile x) \<longrightarrow> f < NFILE) \<and>
     (p_state x \<in> {UNUSED, ZOMBIE} \<longrightarrow> p_ofile x = replicate NOFILE None)"

definition typed :: "bool \<Rightarrow> filestruct \<Rightarrow> bool" where
  "typed fresh x \<longleftrightarrow> (f_ref x > 0 \<and> f_type x = FD_NONE \<longrightarrow> fresh \<and> f_ref x = 1)"

definition files_wf :: "nat set \<Rightarrow> (nat \<Rightarrow> int) \<Rightarrow> 'a fdst_scheme \<Rightarrow> bool" where
  "files_wf X e s \<longleftrightarrow> (\<forall>p<NPROC. proc_wf (ptable s p)) \<and>
     (\<forall>p. curproc s = Some p \<longrightarrow> p < NPROC \<and> p_state (ptable s p) = RUNNING) \<and>
     (\<forall>f<NFILE. f_ref (ftable s f) = fd_refs s f + e f \<and> typed (f \<in> X) (ftable s f))"

lemma files_wf_cong:
  assumes "ftable t = ftable s" "curproc t = curproc s" "\<And>p. p < NPROC \<Longrightarrow> p_ofile (ptable t p) = p_ofile (ptable s p)"
    "\<And>p. p < NPROC \<Longrightarrow> p_state (ptable t p) = p_state (ptable s p) \<or> p_state (ptable s p) = SLEEPING \<and> p_state (ptable t p) = RUNNABLE"
    "files_wf X e s"
  shows "files_wf X e t"
proof -
  have "fd_refs t f = fd_refs s f" for f using assms(3) by (simp add: fd_refs_def)
  moreover have "proc_wf (ptable t p)" if "p < NPROC" for p
    using assms(5) assms(3,4)[OF that] that by (auto simp: files_wf_def proc_wf_def)
  moreover have "p < NPROC \<and> p_state (ptable t p) = RUNNING" if "curproc t = Some p" for p
    using assms(2,5) assms(4)[of p] that by (auto simp: files_wf_def)
  ultimately show ?thesis using assms(1,5) by (simp add: files_wf_def)
qed

lemma files_wf_same: "ftable t = ftable s \<Longrightarrow> curproc t = curproc s \<Longrightarrow> ptable t = ptable s \<Longrightarrow> files_wf X e s \<longrightarrow> files_wf X e t"
  using files_wf_cong[of t s X e] by simp

lemma files_wf_wake:
  assumes "p_state (ptable s i) = SLEEPING"
  shows "files_wf X e s \<longrightarrow> files_wf X e (s\<lparr>ptable := (ptable s)(i := (ptable s i)\<lparr>p_state := RUNNABLE, p_start := t\<rparr>)\<rparr>)"
  using files_wf_cong[of "s\<lparr>ptable := (ptable s)(i := (ptable s i)\<lparr>p_state := RUNNABLE, p_start := t\<rparr>)\<rparr>" s X e] assms by simp

interpretation fw: fs_frame "\<lambda>s t. files_wf X e s \<longrightarrow> files_wf X e t" for X e
  by unfold_locales (blast | rule files_wf_wake, assumption | rule files_wf_same; simp)+

lemmas wf_kept = keeps_Ok[where R = "\<lambda>s t. files_wf X e s \<longrightarrow> files_wf X e t" for X e, THEN mp]

lemma files_wf_mono: "files_wf X e s \<Longrightarrow> X \<subseteq> Y \<Longrightarrow> files_wf Y e s"
  by (auto simp: files_wf_def typed_def)

section \<open>Operations on the table\<close>

lemma files_wf_ftable:
  assumes "files_wf X e s" "f < NFILE" "f_ref x = f_ref (ftable s f) + d" "typed (f \<in> Y) x" "X - {f} \<subseteq> Y"
  shows "files_wf Y (e(f := e f + d)) (s\<lparr>ftable := (ftable s)(f := x)\<rparr>)"
proof -
  have "typed (g \<in> Y) (ftable s g)" if "g < NFILE" "g \<noteq> f" for g
    using assms(1,5) that by (auto simp: files_wf_def typed_def)
  then show ?thesis using assms by (simp add: files_wf_def fd_refs_def)
qed

lemma filealloc_wf:
  assumes "filealloc s = Ok r t" "files_wf X e s"
  shows "case r of None \<Rightarrow> files_wf X e t | Some f \<Rightarrow> f < NFILE \<and> files_wf (insert f X) (e(f := e f + 1)) t"
proof -
  obtain s1 where s1: "acquire FtableLock s = Ok () s1" using assms(1) by (auto simp: filealloc_def sq_def bnd_eq_Ok)
  have w: "files_wf X e s1" using wf_kept[OF fw.keeps_locks(1) s1 assms(2)] .
  show ?thesis
  proof (cases "find (\<lambda>i. f_ref (ftable s1 i) = 0) [0..<NFILE]")
    case None
    then have "r = None" "release FtableLock s1 = Ok () t"
      using assms(1) s1 by (auto simp: filealloc_def basic_runs sq_def bnd_eq_Ok rd_def ret_def)
    then show ?thesis using wf_kept[OF fw.keeps_locks(2) _ w] by simp
  next
    case (Some f)
    let ?u = "s1\<lparr>ftable := (ftable s1)(f := (ftable s1 f)\<lparr>f_ref := 1\<rparr>)\<rparr>"
    have t: "r = Some f" "release FtableLock ?u = Ok () t"
      using assms(1) s1 Some by (auto simp: filealloc_def modf_def basic_runs sq_def bnd_eq_Ok)
    have "f < NFILE" "f_ref (ftable s1 f) = 0" using find_upt_Some[OF Some] by auto
    then have "files_wf (insert f X) (e(f := e f + 1)) ?u" using files_wf_ftable[OF w, of f "(ftable s1 f)\<lparr>f_ref := 1\<rparr>" 1 "insert f X"] by (auto simp: typed_def)
    then show ?thesis using t(1) \<open>f < NFILE\<close> wf_kept[OF fw.keeps_locks(2) t(2)] by auto
  qed
qed

lemma filedup_wf:
  assumes "filedup f s = Ok r t" "files_wf X e s" "f < NFILE" "f \<notin> X"
  shows "r = f \<and> files_wf X (e(f := e f + 1)) t"
proof -
  obtain s1 where s1: "acquire FtableLock s = Ok () s1" using assms(1) by (auto simp: filedup_def sq_def bnd_eq_Ok)
  have w: "files_wf X e s1" using wf_kept[OF fw.keeps_locks(1) s1 assms(2)] .
  let ?u = "s1\<lparr>ftable := (ftable s1)(f := (ftable s1 f)\<lparr>f_ref := f_ref (ftable s1 f) + 1\<rparr>)\<rparr>"
  have t: "r = f" "release FtableLock ?u = Ok () t" "f_ref (ftable s1 f) \<ge> 1"
    using assms(1) s1 by (auto simp: filedup_def modf_def getf_def basic_runs sq_def bnd_eq_Ok split: if_splits)
  have "typed (f \<in> X) (ftable s1 f)" using w assms(3) by (simp add: files_wf_def)
  then have "typed (f \<in> X) ((ftable s1 f)\<lparr>f_ref := f_ref (ftable s1 f) + 1\<rparr>)" using t(3) assms(4) by (simp add: typed_def)
  then have "files_wf X (e(f := e f + 1)) ?u" using files_wf_ftable[OF w assms(3)] by simp
  then show ?thesis using t(1) wf_kept[OF fw.keeps_locks(2) t(2)] by auto
qed

lemma fileclose_wf:
  assumes "fileclose f s = Ok r t" "files_wf X e s" "f < NFILE"
  shows "files_wf (X - {f}) (e(f := e f - 1)) t"
proof -
  obtain s1 where s1: "acquire FtableLock s = Ok () s1" using assms(1) by (auto simp: fileclose_def sq_def bnd_eq_Ok)
  have w: "files_wf X e s1" using wf_kept[OF fw.keeps_locks(1) s1 assms(2)] .
  let ?x = "ftable s1 f" and ?e = "e(f := e f - 1)"
  have ge: "f_ref ?x \<ge> 1" using assms(1) s1 by (auto simp: fileclose_def getf_def basic_runs sq_def bnd_eq_Ok split: if_splits)
  show ?thesis
  proof (cases "f_ref ?x = 1")
    case False
    let ?u = "s1\<lparr>ftable := (ftable s1)(f := ?x\<lparr>f_ref := f_ref ?x - 1\<rparr>)\<rparr>"
    have "release FtableLock ?u = Ok () t"
      using assms(1) s1 ge False by (simp add: fileclose_def modf_def getf_def basic_runs)
    moreover have "typed (f \<in> X) ?x" using w assms(3) by (simp add: files_wf_def)
    then have "typed (f \<in> X - {f}) (?x\<lparr>f_ref := f_ref ?x - 1\<rparr>)" using ge False by (simp add: typed_def)
    then have "files_wf (X - {f}) ?e ?u"
      using files_wf_ftable[OF w assms(3), of "?x\<lparr>f_ref := f_ref ?x - 1\<rparr>" "-1" "X - {f}"] by simp
    ultimately show ?thesis using wf_kept[OF fw.keeps_locks(2)] by blast
  next
    case True
    let ?u = "s1\<lparr>ftable := (ftable s1)(f := ?x\<lparr>f_ref := 0, f_type := FD_NONE\<rparr>)\<rparr>"
    let ?k = "case f_type ?x of FD_PIPE \<Rightarrow> pipeclose (f_pipe ?x) (f_writable ?x)
          | FD_INODE \<Rightarrow> steps [begin_op, iput (f_ip ?x), end_op] | FD_NONE \<Rightarrow> ret ()"
    have "sq (release FtableLock) ?k ?u = Ok r t"
      using assms(1) s1 True by (cases "f_type ?x") (simp_all add: fileclose_def modf_def getf_def basic_runs)
    then obtain s2 where s2: "release FtableLock ?u = Ok () s2" "?k s2 = Ok r t" by (auto simp: sq_def bnd_eq_Ok)
    have "files_wf (X - {f}) ?e ?u"
      using files_wf_ftable[OF w assms(3), of "?x\<lparr>f_ref := 0, f_type := FD_NONE\<rparr>" "-1" "X - {f}"] True by (simp add: typed_def)
    then have w2: "files_wf (X - {f}) ?e s2" using wf_kept[OF fw.keeps_locks(2) s2(1)] by blast
    have k: "keeps (\<lambda>s t. files_wf (X - {f}) ?e s \<longrightarrow> files_wf (X - {f}) ?e t) ?k"
      by (cases "f_type ?x") (simp_all only: ftype.case, (intro fw.inode_rules fw.keeps_pipeclose)+)
    show ?thesis by (rule wf_kept[OF k s2(2) w2])
  qed
qed

section \<open>Descriptors\<close>

lemma count_list_update:
  "i < length xs \<Longrightarrow> int (count_list (xs[i := v]) y) = int (count_list xs y) + of_bool (v = y) - of_bool (xs ! i = y)"
proof (induction xs arbitrary: i)
  case (Cons a xs)
  show ?case
  proof (cases i)
    case (Suc j)
    then show ?thesis using Cons.IH[of j] Cons.prems by (auto simp: of_bool_def split: if_splits)
  qed simp
qed simp

lemma fd_refs_update:
  assumes "p < NPROC" "fd < length (p_ofile (ptable s p))"
  shows "fd_refs (s\<lparr>ptable := (ptable s)(p := sets_ofile fd v (ptable s p))\<rparr>) f
    = fd_refs s f + of_bool (v = Some f) - of_bool (p_ofile (ptable s p) ! fd = Some f)"
  using assms by (simp add: fd_refs_def sum.remove[of "{..<NPROC}" p] sets_ofile_def count_list_update)

lemma files_wf_ofile:
  assumes w: "files_wf X e s" and p: "p < NPROC" and fd: "fd < NOFILE"
    and v: "v = None \<or> p_state (ptable s p) \<notin> {UNUSED, ZOMBIE}" "\<And>g. v = Some g \<Longrightarrow> g < NFILE"
  shows "files_wf X (\<lambda>f. e f + of_bool (p_ofile (ptable s p) ! fd = Some f) - of_bool (v = Some f))
    (s\<lparr>ptable := (ptable s)(p := sets_ofile fd v (ptable s p))\<rparr>)"
proof -
  have x: "proc_wf (ptable s p)" using w p by (simp add: files_wf_def)
  then have l: "length (p_ofile (ptable s p)) = NOFILE" by (simp add: proc_wf_def)
  have "set ((p_ofile (ptable s p))[fd := v]) \<subseteq> insert v (set (p_ofile (ptable s p)))" by (rule set_update_subset_insert)
  moreover have "(replicate NOFILE None)[fd := None] = replicate NOFILE (None :: nat option)"
    using list_update_id[of "replicate NOFILE None" fd] fd by simp
  ultimately have "proc_wf (sets_ofile fd v (ptable s p))" using x v by (auto simp: proc_wf_def sets_ofile_def)
  moreover have "p_state (sets_ofile fd v (ptable s p)) = p_state (ptable s p)" by (simp add: sets_ofile_def)
  ultimately show ?thesis using w fd_refs_update[of p fd s v] p l fd by (simp add: files_wf_def)
qed

lemma argfd_wf:
  assumes "argfd k s = Ok r t" "files_wf X e s"
  shows "files_wf X e t \<and> (\<forall>fd f. r = Some (fd, f) \<longrightarrow> (\<exists>p. curproc t = Some p \<and> fd < NOFILE \<and> f < NFILE \<and> p_ofile (ptable t p) ! fd = Some f))"
proof -
  obtain q s1 where q: "argint k s = Ok q s1" using assms(1) by (auto simp: argfd_def bnd_eq_Ok)
  have w: "files_wf X e s1" using wf_kept[OF fw.keeps_args(1) q assms(2)] .
  have e: "argfd k s = (case q of None \<Rightarrow> Ok None s1 | Some v \<Rightarrow>
      if sint v < 0 \<or> sint v \<ge> int NOFILE then Ok None s1
      else case curproc s1 of None \<Rightarrow> Undef ''null process''
        | Some p \<Rightarrow> Ok (map_option (\<lambda>f. (nat (sint v), f)) (p_ofile (ptable s1 p) ! nat (sint v))) s1)"
    using q by (simp add: argfd_def my_def myproc_deref_def myproc_def getp_def monad_defs Let_def split: option.split)
  have "f < NFILE" if "curproc s1 = Some p" "\<not> sint v < 0" "\<not> int NOFILE \<le> sint v" "p_ofile (ptable s1 p) ! nat (sint v) = Some f"
    for p f and v :: u32
    using w that nth_mem[of "nat (sint v)" "p_ofile (ptable s1 p)"] by (auto simp: files_wf_def proc_wf_def)
  then show ?thesis using assms(1) w unfolding e by (auto split: option.splits if_splits)
qed

lemma fdalloc_wf:
  assumes "fdalloc f s = Ok r t" "files_wf X e s" "f < NFILE"
  shows "case r of None \<Rightarrow> t = s | Some fd \<Rightarrow> fd < NOFILE \<and> files_wf X (e(f := e f - 1)) t \<and>
    (\<exists>p. curproc s = Some p \<and> curproc t = Some p \<and> p_ofile (ptable s p) ! fd = None \<and> p_ofile (ptable t p) ! fd = Some f)"
proof -
  obtain p where p: "curproc s = Some p"
    using assms(1) by (auto simp: fdalloc_def myproc_deref_def myproc_def basic_runs bnd_eq_Ok split: option.splits)
  have c: "p < NPROC" "p_state (ptable s p) = RUNNING" "length (p_ofile (ptable s p)) = NOFILE"
    using assms(2) p by (auto simp: files_wf_def proc_wf_def)
  show ?thesis
  proof (cases "find (\<lambda>fd. p_ofile (ptable s p) ! fd = None) [0..<NOFILE]")
    case None
    then show ?thesis using assms(1) p by (simp add: fdalloc_def myproc_deref_def myproc_def getp_def basic_runs)
  next
    case (Some fd)
    have fd: "fd < NOFILE" "p_ofile (ptable s p) ! fd = None" using find_upt_Some[OF Some] by auto
    have t: "r = Some fd" "t = s\<lparr>ptable := (ptable s)(p := sets_ofile fd (Some f) (ptable s p))\<rparr>"
      using assms(1) p Some by (simp_all add: fdalloc_def myproc_deref_def myproc_def getp_def modp_def basic_runs)
    have "(\<lambda>g. e g + of_bool (None = Some g) - of_bool (Some f = Some g)) = e(f := e f - 1)" by auto
    then have "files_wf X (e(f := e f - 1)) t"
      using files_wf_ofile[OF assms(2) c(1) fd(1), of "Some f"] c(2) assms(3) fd(2) t(2) by simp
    then show ?thesis using t fd c p by (simp add: sets_ofile_def)
  qed
qed

section \<open>System calls\<close>

lemma filealloc_triple:
  "triple (files_wf X e) filealloc (\<lambda>r s. case r of None \<Rightarrow> files_wf X e s | Some f \<Rightarrow> f < NFILE \<and> files_wf (insert f X) (e(f := e f + 1)) s)"
  unfolding triple_def using filealloc_wf by blast

lemma filedup_triple: "f < NFILE \<Longrightarrow> f \<notin> X \<Longrightarrow> triple (files_wf X e) (filedup f) (\<lambda>r. files_wf X (e(f := e f + 1)))"
  unfolding triple_def using filedup_wf by blast

lemma fileclose_triple: "f < NFILE \<Longrightarrow> triple (files_wf X e) (fileclose f) (\<lambda>_. files_wf (X - {f}) (e(f := e f - 1)))"
  unfolding triple_def using fileclose_wf by blast

lemma fdalloc_triple:
  "f < NFILE \<Longrightarrow> triple (files_wf X e) (fdalloc f) (\<lambda>r s. case r of None \<Rightarrow> files_wf X e s
     | Some fd \<Rightarrow> fd < NOFILE \<and> files_wf X (e(f := e f - 1)) s \<and> (\<exists>p. curproc s = Some p \<and> p_ofile (ptable s p) ! fd = Some f))"
  unfolding triple_def using fdalloc_wf by (fastforce split: option.splits)

lemma argfd_triple:
  "triple (files_wf X e) (argfd k) (\<lambda>r s. case r of None \<Rightarrow> files_wf X e s
     | Some (fd, f) \<Rightarrow> f < NFILE \<and> files_wf X e s \<and> (\<exists>p. curproc s = Some p \<and> fd < NOFILE \<and> p_ofile (ptable s p) ! fd = Some f))"
  unfolding triple_def using argfd_wf by (fastforce split: option.splits)

text \<open>Clearing a descriptor of the running process.\<close>

lemma clear_fd_triple:
  "triple (\<lambda>s. files_wf X e s \<and> (\<exists>p. curproc s = Some p \<and> fd < NOFILE \<and> p_ofile (ptable s p) ! fd = Some f))
     (bnd myproc_deref (\<lambda>cur. modp cur (sets_ofile fd None))) (\<lambda>_. files_wf X (e(f := e f + 1)))"
proof -
  have "files_wf X (e(f := e f + 1)) (s\<lparr>ptable := (ptable s)(p := sets_ofile fd None (ptable s p))\<rparr>)"
    if "files_wf X e s" "curproc s = Some p" "fd < NOFILE" "p_ofile (ptable s p) ! fd = Some f" for s :: "'a fdst_scheme" and p
  proof -
    have "p < NPROC" using that by (simp add: files_wf_def)
    moreover have "(\<lambda>g. e g + of_bool (Some f = Some g) - of_bool (None = Some g)) = e(f := e f + 1)" by auto
    ultimately show ?thesis using files_wf_ofile[OF that(1) _ that(3), of p None] that(4) by simp
  qed
  then show ?thesis
    by (auto simp: triple_def myproc_deref_def myproc_def modp_def basic_runs bnd_eq_Ok split: option.splits)
qed

lemma then_do: "triple P f Q \<Longrightarrow> (\<And>s. P' s \<Longrightarrow> P s) \<Longrightarrow> (\<And>x. triple (Q x) (g x) S) \<Longrightarrow> triple P' (bnd f g) S"
  by (blast intro: triple_bnd triple_pre)

lemma then_seq: "triple P f (\<lambda>_. Q) \<Longrightarrow> (\<And>s. P' s \<Longrightarrow> P s) \<Longrightarrow> triple Q g S \<Longrightarrow> triple P' (sq f g) S"
  by (blast intro: triple_sq triple_pre)

lemma sys_dup_wf: "triple (files_wf {} e) sys_dup (\<lambda>_. files_wf {} e)"
  unfolding sys_dup_def
proof (rule triple_bnd[OF argfd_triple triple_cases[OF triple_ret triple_pair]], assumption, rule triple_fact, goal_cases)
  case (1 r d fd f)
  have "triple (files_wf {} e) (bnd (fdalloc f) (\<lambda>r. case r of None \<Rightarrow> ret (-1) | Some fd \<Rightarrow> bnd (filedup f) (\<lambda>_. ret (int fd)))) (\<lambda>_. files_wf {} e)"
    by (rule triple_bnd[OF fdalloc_triple[OF 1] triple_cases[OF triple_ret]], assumption,
        rule then_do[OF filedup_triple[OF 1, of "{}" "e(f := e f - 1)"]], simp, blast, rule triple_ret, simp)
  then show ?case by (rule triple_pre) blast
qed

lemma sys_close_wf: "triple (files_wf {} e) sys_close (\<lambda>_. files_wf {} e)"
  unfolding sys_close_def
proof (rule triple_bnd[OF argfd_triple triple_cases[OF triple_ret triple_pair]], assumption, rule triple_fact, goal_cases)
  case (1 r d fd f)
  have a: "bnd myproc_deref (\<lambda>cur. sq (modp cur (sets_ofile fd None)) k) = sq (bnd myproc_deref (\<lambda>cur. modp cur (sets_ofile fd None))) k"
    for k by (simp add: sq_def bnd_assoc)
  have c: "triple (files_wf {} (e(f := e f + 1))) (fileclose f) (\<lambda>_. files_wf {} e)"
    using fileclose_triple[OF 1, of "{}" "e(f := e f + 1)"] by simp
  show ?case unfolding a by (rule triple_sq[OF clear_fd_triple triple_sq[OF c triple_ret]])
qed

lemma keeps_wf: "keeps (\<lambda>s t. files_wf X e s \<longrightarrow> files_wf X e t) f \<Longrightarrow> triple (files_wf X e) f (\<lambda>_. files_wf X e)"
  by (rule triple_keeps)

lemma set_type_triple:
  assumes "\<And>x. f_ref (g x) = f_ref x" "\<And>x. f_type (g x) \<noteq> FD_NONE"
  shows "f < NFILE \<Longrightarrow> triple (files_wf (insert f X) e) (modf f g) (\<lambda>_. files_wf X e)"
proof -
  assume f: "f < NFILE"
  have "files_wf X e (s\<lparr>ftable := (ftable s)(f := g (ftable s f))\<rparr>)" if "files_wf (insert f X) e s" for s :: "'a fdst_scheme"
    using files_wf_ftable[OF that f, of "g (ftable s f)" 0 X] assms by (auto simp: typed_def)
  then show ?thesis unfolding modf_def by (intro triple_upd)
qed

lemma opened_wf:
  "triple (files_wf X e) (bnd filealloc (\<lambda>r. case r of None \<Rightarrow> sq (iunlockput ip) (sq end_op (ret (-1)))
        | Some f \<Rightarrow> bnd (fdalloc f) (\<lambda>r. case r of
            None \<Rightarrow> sq (fileclose f) (sq (iunlockput ip) (sq end_op (ret (-1))))
          | Some fd \<Rightarrow> sq (steps [iunlock ip, end_op,
              modf f (\<lambda>x. x\<lparr>f_type := FD_INODE, f_ip := ip, f_off := 0, f_readable := rb, f_writable := wb\<rparr>)])
              (ret (int fd))))) (\<lambda>_. files_wf X e)" (is "triple _ (bnd filealloc ?g) _")
proof (rule triple_bnd[OF filealloc_triple], goal_cases)
  case (1 r)
  show ?case
  proof (cases r)
    case None
    then show ?thesis by simp (intro keeps_wf fw.inode_rules)
  next
    case (Some f)
    let ?e = "e(f := e f + 1)"
    have "triple (files_wf (insert f X) ?e) (?g (Some f)) (\<lambda>_. files_wf X e)" if f: "f < NFILE"
    proof (unfold option.case, rule triple_bnd[OF fdalloc_triple[OF f]], goal_cases)
      case (1 q)
      show ?case
      proof (cases q)
        case None
        have "triple (files_wf (insert f X) ?e) (fileclose f) (\<lambda>_. files_wf (X - {f}) e)"
          using fileclose_triple[OF f, of "insert f X" ?e] by simp
        then have c: "triple (files_wf (insert f X) ?e) (fileclose f) (\<lambda>_. files_wf X e)"
          by (rule triple_post) (erule files_wf_mono, blast)
        show ?thesis unfolding None option.case by (rule triple_sq[OF c]) (intro keeps_wf fw.inode_rules)
      next
        case (Some fd)
        have c: "triple (files_wf (insert f X) e) (sq (steps [iunlock ip, end_op,
              modf f (\<lambda>x. x\<lparr>f_type := FD_INODE, f_ip := ip, f_off := 0, f_readable := rb, f_writable := wb\<rparr>)])
              (ret (int fd))) (\<lambda>_. files_wf X e)"
          unfolding steps.simps
          by (intro triple_sq[OF keeps_wf] triple_sq[OF set_type_triple[OF _ _ f]] triple_ret triple_sq fw.inode_rules) simp_all
        show ?thesis unfolding Some option.case by (rule triple_pre[OF c]) simp
      qed
    qed
    then show ?thesis unfolding Some option.case by (rule triple_fact)
  qed
qed

lemma sys_open_wf: "triple (files_wf X e) (sys_open devsw_init) (\<lambda>_. files_wf X e)"
  unfolding sys_open_def
  by (rule triple_bnd[OF keeps_wf], rule fw.keeps_args, rule triple_option, rule triple_ret, assumption, simp only: split_paired_all prod.case,
      rule triple_bnd[OF keeps_wf], rule fw.keeps_args, rule triple_option, rule triple_ret, assumption,
      rule triple_sq[OF keeps_wf], rule fw.keeps_log,
      rule triple_bnd[OF keeps_wf], intro fw.dir_rules fw.keeps_create fw.devs_ok_init,
      rule triple_option, intro keeps_wf fw.inode_rules, rule opened_wf)

text \<open>Two files that are not yet in a descriptor.\<close>

abbreviation plus2 :: "(nat \<Rightarrow> int) \<Rightarrow> nat \<Rightarrow> nat \<Rightarrow> nat \<Rightarrow> int" where
  "plus2 e f g \<equiv> \<lambda>k. e k + of_bool (k = f) + of_bool (k = g)"

lemma close_two:
  assumes "f < NFILE" "g < NFILE"
  shows "triple (files_wf (insert g (insert f X)) (plus2 e f g)) (sq (fileclose f) (sq (fileclose g) (ret x))) (\<lambda>r s. r = x \<and> files_wf X e s)"
proof -
  let ?e = "(plus2 e f g)(f := plus2 e f g f - 1)"
  have e: "?e(g := ?e g - 1) = e" by (auto simp: fun_eq_iff)
  have c: "triple (files_wf (insert g (insert f X) - {f}) ?e) (fileclose g) (\<lambda>_. files_wf (insert g (insert f X) - {f} - {g}) e)"
    using fileclose_triple[OF assms(2), of "insert g (insert f X) - {f}" ?e] unfolding e .
  show ?thesis
    by (rule triple_sq[OF fileclose_triple[OF assms(1)]], rule triple_sq[OF c]) (rule triple_ret, auto elim: files_wf_mono)
qed

lemma pipealloc_wf:
  "triple (files_wf X e) pipealloc (\<lambda>r s. case r of None \<Rightarrow> files_wf X e s
     | Some (f, g) \<Rightarrow> f < NFILE \<and> g < NFILE \<and> files_wf X (plus2 e f g) s)" (is "triple _ _ ?Q")
  unfolding pipealloc_def
proof (rule triple_bnd[OF filealloc_triple], goal_cases)
  case (1 r0)
  show ?case
  proof (cases r0)
    case (Some f)
    let ?e = "e(f := e f + 1)"
    have "triple (files_wf (insert f X) ?e) (bnd filealloc (\<lambda>r1. case r1 of None \<Rightarrow> sq (fileclose f) (ret None)
       | Some f1 \<Rightarrow> bnd kalloc (\<lambda>p. if p = 0 then sq (fileclose f) (sq (fileclose f1) (ret None))
       else sq (steps [modpi p (\<lambda>x. x\<lparr>pi_readopen := True, pi_writeopen := True, pi_nwrite := 0, pi_nread := 0\<rparr>),
              modf f (\<lambda>x. x\<lparr>f_type := FD_PIPE, f_readable := True, f_writable := False, f_pipe := p\<rparr>),
              modf f1 (\<lambda>x. x\<lparr>f_type := FD_PIPE, f_readable := False, f_writable := True, f_pipe := p\<rparr>)])
            (ret (Some (f, f1)))))) ?Q" if f: "f < NFILE"
    proof (rule triple_bnd[OF filealloc_triple], goal_cases)
      case (1 r1)
      show ?case
      proof (cases r1)
        case None
        have c: "triple (files_wf (insert f X) ?e) (fileclose f) (\<lambda>_. files_wf (X - {f}) e)"
          using fileclose_triple[OF f, of "insert f X" ?e] by simp
        show ?thesis unfolding None option.case
          by (rule triple_sq[OF c]) (rule triple_ret, simp, erule files_wf_mono, blast)
      next
        case (Some g)
        have e: "?e(g := ?e g + 1) = plus2 e f g" by (auto simp: fun_eq_iff)
        have set2: "triple (files_wf (insert f (insert g X)) (plus2 e f g)) (sq (steps [modpi p (\<lambda>x. x\<lparr>pi_readopen := True, pi_writeopen := True, pi_nwrite := 0, pi_nread := 0\<rparr>),
              modf f (\<lambda>x. x\<lparr>f_type := FD_PIPE, f_readable := True, f_writable := False, f_pipe := p\<rparr>),
              modf g (\<lambda>x. x\<lparr>f_type := FD_PIPE, f_readable := False, f_writable := True, f_pipe := p\<rparr>)])
            (ret (Some (f, g)))) ?Q" if g: "g < NFILE" for p
          unfolding steps.simps modpi_def
          by (rule triple_sq, rule triple_sq[OF keeps_wf], intro fw.keeps_upd fw.kept_dev,
              rule triple_sq[OF set_type_triple[OF _ _ f]], simp, simp, rule triple_sq[OF set_type_triple[OF _ _ g]], simp, simp,
              rule triple_ret, assumption, rule triple_ret) (simp add: f g)
        have "triple (files_wf (insert g (insert f X)) (plus2 e f g)) (bnd kalloc (\<lambda>p. if p = 0 then sq (fileclose f) (sq (fileclose g) (ret None))
          else sq (steps [modpi p (\<lambda>x. x\<lparr>pi_readopen := True, pi_writeopen := True, pi_nwrite := 0, pi_nread := 0\<rparr>),
              modf f (\<lambda>x. x\<lparr>f_type := FD_PIPE, f_readable := True, f_writable := False, f_pipe := p\<rparr>),
              modf g (\<lambda>x. x\<lparr>f_type := FD_PIPE, f_readable := False, f_writable := True, f_pipe := p\<rparr>)])
            (ret (Some (f, g))))) ?Q" if g: "g < NFILE"
          using set2[OF g]
          by (intro triple_bnd[OF keeps_wf[OF fw.keeps_vm[OF vm_basic_frames(1)]]] triple_if triple_post[OF close_two[OF f g]])
            (simp_all add: insert_commute[of f])
        then show ?thesis unfolding Some option.case e by (rule triple_fact)
      qed
    qed
    then show ?thesis unfolding Some option.case by (rule triple_fact)
  qed (auto intro: triple_ret)
qed

lemma fdalloc_or_same:
  assumes "f < NFILE"
  shows "triple (\<lambda>s. files_wf X e s \<and> P s) (fdalloc f) (\<lambda>r s. case r of None \<Rightarrow> files_wf X e s \<and> P s
     | Some fd \<Rightarrow> files_wf X (e(f := e f - 1)) s \<and> (\<exists>p. curproc s = Some p \<and> fd < NOFILE \<and> p_ofile (ptable s p) ! fd = Some f))"
  unfolding triple_def using fdalloc_wf[OF _ _ assms] by (fastforce split: option.splits)

lemma close_both:
  "f < NFILE \<Longrightarrow> g < NFILE \<Longrightarrow> triple (files_wf {} (plus2 e f g)) (sq (fileclose f) (sq (fileclose g) (ret x))) (\<lambda>_. files_wf {} e)"
  by (rule triple_pre[OF triple_post[OF close_two[of f g "{}" e x]]]) (auto elim: files_wf_mono)

lemma second_fd:
  assumes f: "f < NFILE" and g: "g < NFILE"
  shows "triple (\<lambda>s. files_wf {} ((plus2 e f g)(f := plus2 e f g f - 1)) s \<and> (\<exists>p. curproc s = Some p \<and> fd0 < NOFILE \<and> p_ofile (ptable s p) ! fd0 = Some f))
     (bnd (fdalloc g) (\<lambda>r. case r of
        None \<Rightarrow> bnd myproc_deref (\<lambda>cur. sq (steps [modp cur (sets_ofile fd0 None), fileclose f, fileclose g]) (ret (-1)))
      | Some fd1 \<Rightarrow> sq (put_user p (le32 (of_nat fd0))) (sq (put_user (p + 4) (le32 (of_nat fd1))) (ret (0 :: int))))) (\<lambda>_. files_wf {} e)"
    (is "triple (\<lambda>s. files_wf {} ?e s \<and> _ s) _ _")
proof (rule triple_bnd[OF fdalloc_or_same[OF g]], goal_cases)
  case (1 q)
  have e1: "?e(f := ?e f + 1) = plus2 e f g" and e2: "?e(g := ?e g - 1) = e" by (auto simp: fun_eq_iff)
  show ?case
  proof (cases q)
    case None
    have assoc: "bnd myproc_deref (\<lambda>cur. sq (steps [modp cur (sets_ofile fd0 None), fileclose f, fileclose g]) k)
      = sq (bnd myproc_deref (\<lambda>cur. modp cur (sets_ofile fd0 None))) (sq (fileclose f) (sq (fileclose g) k))" for k
      by (simp add: sq_def bnd_assoc)
    show ?thesis
      unfolding None option.case assoc by (rule triple_sq[OF clear_fd_triple[of "{}" ?e fd0 f, unfolded e1] close_both[OF f g]])
  next
    case (Some fd1)
    show ?thesis unfolding Some option.case e2 by (rule triple_pre[OF keeps_wf]) (intro fw.keeps_rules fw.keeps_user, blast)
  qed
qed

lemma sys_pipe_wf: "triple (files_wf {} e) sys_pipe (\<lambda>_. files_wf {} e)"
  unfolding sys_pipe_def
proof (rule triple_bnd[OF keeps_wf[OF fw.keeps_args(2)]], rule triple_option, rule triple_ret, assumption,
    rule triple_bnd[OF pipealloc_wf], goal_cases)
  case (1 r p q)
  show ?case
  proof (cases q)
    case (Some fg)
    obtain f g where fg: "fg = (f, g)" by (cases fg)
    show ?thesis unfolding Some fg option.case prod.case
    proof (intro triple_fact)
      assume f: "f < NFILE" and g: "g < NFILE"
      show "triple (files_wf {} (plus2 e f g)) (bnd (fdalloc f) (\<lambda>r. case r of
         None \<Rightarrow> sq (fileclose f) (sq (fileclose g) (ret (-1)))
       | Some fd0 \<Rightarrow> bnd (fdalloc g) (\<lambda>r. case r of
           None \<Rightarrow> bnd myproc_deref (\<lambda>cur. sq (steps [modp cur (sets_ofile fd0 None), fileclose f, fileclose g]) (ret (-1)))
         | Some fd1 \<Rightarrow> sq (put_user p (le32 (of_nat fd0))) (sq (put_user (p + 4) (le32 (of_nat fd1))) (ret (0 :: int))))))
       (\<lambda>_. files_wf {} e)"
        by (rule triple_bnd[OF fdalloc_triple[OF f]], rule triple_cases[OF close_both[OF f g]], rule triple_pre[OF second_fd[OF f g]]) blast
    qed
  qed (auto intro: triple_ret)
qed

section \<open>Reading and writing\<close>

lemma move_offset: "f < NFILE \<Longrightarrow> triple (files_wf X e) (modf f (\<lambda>z. z\<lparr>f_off := g z\<rparr>)) (\<lambda>_. files_wf X e)"
proof -
  assume f: "f < NFILE"
  have "files_wf X e (s\<lparr>ftable := (ftable s)(f := (ftable s f)\<lparr>f_off := g (ftable s f)\<rparr>)\<rparr>)" if w: "files_wf X e s" for s :: "'a fdst_scheme"
  proof -
    have "typed (f \<in> X) (ftable s f)" using w f by (simp add: files_wf_def)
    then show ?thesis using files_wf_ftable[OF w f, of "(ftable s f)\<lparr>f_off := g (ftable s f)\<rparr>" 0 X] by (auto simp: typed_def)
  qed
  then show ?thesis unfolding modf_def by (intro triple_upd)
qed

lemma triple_to_keeps: "triple P f (\<lambda>_. P) \<Longrightarrow> keeps (\<lambda>s t. P s \<longrightarrow> P t) f"
  unfolding triple_def keeps_def by blast

lemma fileread_wf: "f < NFILE \<Longrightarrow> keeps (\<lambda>s t. files_wf X e s \<longrightarrow> files_wf X e t) (fileread devsw_init f (user_dst p) n)"
  unfolding fileread_def getf_def
  by (intro fw.inode_rules fw.keeps_ftype fw.keeps_piperead fw.copies_ok fw.keeps_readi fw.devs_ok_init triple_to_keeps[OF move_offset])

lemma filewrite_loop_wf:
  "f < NFILE \<Longrightarrow> keeps (\<lambda>s t. files_wf X e s \<longrightarrow> files_wf X e t) (filewrite_loop devsw_init f ip (user_src p) n i)"
proof (induction "nat (n - i)" arbitrary: i rule: less_induct)
  case less
  show ?case
  proof (cases "i < n")
    case True
    then have "nat (n - (i + (if fw_max < n - i then fw_max else n - i))) < nat (n - i)"
      by (auto simp: fw_max_def MAXOPBLOCKS_def)
    note ih = less.hyps[OF this less.prems]
    show ?thesis
      unfolding filewrite_loop.simps[of _ _ _ _ n i] Let_def getf_def if_P[OF True]
      by (intro fw.inode_rules fw.keeps_writei fw.src_shift fw.copies_ok fw.devs_ok_init triple_to_keeps[OF move_offset] less.prems ih)
  qed (simp add: filewrite_loop.simps fw.keeps_ret)
qed

lemma filewrite_wf:
  "f < NFILE \<Longrightarrow> keeps (\<lambda>s t. files_wf X e s \<longrightarrow> files_wf X e t) (filewrite devsw_init f (user_src p) n)"
  unfolding filewrite_def getf_def
  by (intro fw.inode_rules fw.keeps_ftype fw.keeps_pipewrite fw.copies_ok filewrite_loop_wf)

lemma rw_buffer:
  "f < NFILE \<Longrightarrow> triple (files_wf X e) (bnd (argint 2) (\<lambda>r. case r of None \<Rightarrow> ret None
     | Some v \<Rightarrow> bnd (argptr 1 (sint v)) (\<lambda>r. ret (map_option (\<lambda>p. (f, p, sint v)) r))))
     (\<lambda>r s. case r of None \<Rightarrow> files_wf X e s | Some (f, _) \<Rightarrow> f < NFILE \<and> files_wf X e s)"
  by (rule triple_bnd[OF keeps_wf[OF fw.keeps_args(1)]], rule triple_option, rule triple_ret, simp,
      rule triple_bnd[OF keeps_wf[OF fw.keeps_args(2)]], rule triple_ret) (simp split: option.split)

lemma rw_args_wf:
  "triple (files_wf X e) rw_args (\<lambda>r s. case r of None \<Rightarrow> files_wf X e s | Some (f, _) \<Rightarrow> f < NFILE \<and> files_wf X e s)"
  unfolding rw_args_def
  by (rule triple_bnd[OF argfd_triple], rule triple_cases, rule triple_ret, simp, rule triple_pair, rule triple_fact,
      erule triple_pre[OF rw_buffer]) blast

lemma sys_rw_wf:
  "triple (files_wf X e) (sys_read devsw_init) (\<lambda>_. files_wf X e)" "triple (files_wf X e) (sys_write devsw_init) (\<lambda>_. files_wf X e)"
  unfolding sys_read_def sys_write_def
  by (rule triple_bnd[OF rw_args_wf], rule triple_cases[OF triple_ret], assumption,
      simp only: split_paired_all prod.case, rule triple_fact, rule keeps_wf, erule fileread_wf filewrite_wf)+

section \<open>Fork and exit\<close>

text \<open>What the routines below leave of the descriptors: the running process, every process's descriptors, and whether its entry is in use.\<close>

definition fd_view :: "'a fdst_scheme \<Rightarrow> nat option \<times> (nat \<Rightarrow> nat option list \<times> bool)" where
  "fd_view s = (curproc s, \<lambda>p. (p_ofile (ptable s p), p_state (ptable s p) \<in> {UNUSED, ZOMBIE}))"

interpretation fv: fs_frame "\<lambda>s t. fd_view t = fd_view s"
  by unfold_locales (auto simp: fd_view_def fun_eq_iff)

lemma view_triple: "keeps (\<lambda>s t. fd_view t = fd_view s) f \<Longrightarrow> triple (\<lambda>s. P (fd_view s)) f (\<lambda>_ s. P (fd_view s))"
  by (auto simp: triple_def keeps_def)

lemma keeps_view_modf: "keeps (\<lambda>s t. fd_view t = fd_view s) (modf f g)"
  unfolding modf_def by (rule fv.keeps_upd) (simp add: fd_view_def)

lemma keeps_view_file: "keeps (\<lambda>s t. fd_view t = fd_view s) (filedup f)" "keeps (\<lambda>s t. fd_view t = fd_view s) (fileclose f)"
  unfolding filedup_def fileclose_def getf_def by (intro fv.inode_rules fv.keeps_ftype fv.keeps_pipeclose keeps_view_modf)+

text \<open>The entry \<open>np\<close> is in use, is not the running process, and has no descriptors from \<open>i\<close> on.\<close>

definition child :: "nat \<Rightarrow> nat \<Rightarrow> 'a fdst_scheme \<Rightarrow> bool" where
  "child np i s \<longleftrightarrow> np < NPROC \<and> p_state (ptable s np) \<notin> {UNUSED, ZOMBIE} \<and> curproc s \<noteq> Some np \<and>
     (\<forall>j. i \<le> j \<and> j < NOFILE \<longrightarrow> p_ofile (ptable s np) ! j = None)"

lemma child_view: "keeps (\<lambda>s t. fd_view t = fd_view s) f \<Longrightarrow> triple (child np i) f (\<lambda>_. child np i)"
proof (drule view_triple[where P = "\<lambda>v. np < NPROC \<and> \<not> snd (snd v np) \<and> fst v \<noteq> Some np \<and>
     (\<forall>j. i \<le> j \<and> j < NOFILE \<longrightarrow> fst (snd v np) ! j = None)"])
qed (simp add: fd_view_def child_def[abs_def])

lemma both_kept:
  "keeps (\<lambda>s t. files_wf X e s \<longrightarrow> files_wf X e t) f \<Longrightarrow> keeps (\<lambda>s t. fd_view t = fd_view s) f \<Longrightarrow>
   triple (\<lambda>s. files_wf X e s \<and> child np i s) f (\<lambda>_ s. files_wf X e s \<and> child np i s)"
  by (rule triple_conj[OF keeps_wf child_view])

lemma modp_both:
  assumes "\<And>x. p_ofile (g x) = p_ofile x" "\<And>x. p_state (g x) = p_state x"
  shows "triple (\<lambda>s. files_wf X e s \<and> child np i s) (modp q g) (\<lambda>_ s. files_wf X e s \<and> child np i s)"
proof -
  have "files_wf X e s \<longrightarrow> files_wf X e (s\<lparr>ptable := (ptable s)(q := g (ptable s q))\<rparr>)" for s :: "'a fdst_scheme"
    using files_wf_cong[of "s\<lparr>ptable := (ptable s)(q := g (ptable s q))\<rparr>" s X e] assms by auto
  then show ?thesis unfolding modp_def child_def by (intro triple_upd) (auto simp: assms)
qed

lemma filedup_same: "f < NFILE \<Longrightarrow> triple (files_wf {} e) (filedup f) (\<lambda>r s. r = f \<and> files_wf {} (e(f := e f + 1)) s)"
  unfolding triple_def using filedup_wf by blast

lemma give_fd:
  assumes "f < NFILE" "i < NOFILE"
  shows "triple (\<lambda>s. files_wf {} e s \<and> child np i s) (bnd (filedup f) (\<lambda>f. modp np (sets_ofile i (Some f)))) (\<lambda>_ s. files_wf {} e s \<and> child np (Suc i) s)"
proof (rule triple_bnd)
  show "triple (\<lambda>s. files_wf {} e s \<and> child np i s) (filedup f) (\<lambda>r s. (r = f \<and> files_wf {} (e(f := e f + 1)) s) \<and> child np i s)"
    by (rule triple_conj[OF filedup_same[OF assms(1)] child_view[OF keeps_view_file(1)]])
  show "triple (\<lambda>s. (r = f \<and> files_wf {} (e(f := e f + 1)) s) \<and> child np i s) (modp np (sets_ofile i (Some r)))
      (\<lambda>_ s. files_wf {} e s \<and> child np (Suc i) s)" for r
    unfolding modp_def
  proof (rule triple_upd, elim conjE, intro conjI)
    fix s
    assume r: "r = f" and w: "files_wf {} (e(f := e f + 1)) s" and c: "child np i s"
    have "(\<lambda>g. (e(f := e f + 1)) g + of_bool (None = Some g) - of_bool (Some f = Some g)) = e" by (auto simp: fun_eq_iff)
    then show "files_wf {} e (s\<lparr>ptable := (ptable s)(np := sets_ofile i (Some r) (ptable s np))\<rparr>)"
      using files_wf_ofile[OF w, of np i "Some f"] c assms r by (simp add: child_def)
    show "child np (Suc i) (s\<lparr>ptable := (ptable s)(np := sets_ofile i (Some r) (ptable s np))\<rparr>)"
      using c by (auto simp: child_def sets_ofile_def)
  qed
qed

lemma give_fds:
  assumes "proc_wf x"
  shows "triple (\<lambda>s. files_wf {} e s \<and> child np 0 s) (for_each [0..<NOFILE] (\<lambda>i. case p_ofile x ! i of None \<Rightarrow> ret ()
      | Some f \<Rightarrow> bnd (filedup f) (\<lambda>f. modp np (sets_ofile i (Some f))))) (\<lambda>_ s. files_wf {} e s \<and> child np NOFILE s)"
proof (rule triple_for_upto)
  fix i
  assume i: "i < NOFILE"
  show "triple (\<lambda>s. files_wf {} e s \<and> child np i s) (case p_ofile x ! i of None \<Rightarrow> ret ()
      | Some f \<Rightarrow> bnd (filedup f) (\<lambda>f. modp np (sets_ofile i (Some f)))) (\<lambda>_ s. files_wf {} e s \<and> child np (Suc i) s)"
  proof (cases "p_ofile x ! i")
    case None
    then show ?thesis by (auto intro!: triple_ret simp: child_def)
  next
    case (Some f)
    then have "f < NFILE" using assms i nth_mem[of i "p_ofile x"] by (auto simp: proc_wf_def)
    then show ?thesis using give_fd[OF _ i] Some by simp
  qed
qed

lemma allocproc_files:
  assumes h: "held s = []" and c: "-1 \<le> qcount s 0" and ok: "allocproc s = Ok r t" and w: "files_wf X e s"
  shows "files_wf X e t \<and> (\<forall>np. r = Some np \<longrightarrow> child np 0 t)"
proof (cases "find (\<lambda>i. p_state (ptable s i) = UNUSED) [0..<NPROC]")
  case None
  then show ?thesis using allocproc_no_slot[OF h None] ok w by simp
next
  case (Some p)
  note p = find_upt_Some[OF Some]
  have q: "qcount s 0 < 63" using allocproc_full_queue[OF h Some] ok by (cases "63 \<le> qcount s 0") auto
  have none: "p_ofile (ptable s p) = replicate NOFILE None" "curproc s \<noteq> Some p"
    using w p by (auto simp: files_wf_def proc_wf_def)
  have pw: "proc_wf x" if "p_ofile x = replicate NOFILE None" for x using that by (simp add: proc_wf_def)
  have t: "ftable t = ftable s" "curproc t = curproc s" "\<And>i. i \<noteq> p \<Longrightarrow> ptable t i = ptable s i" "p_ofile (ptable t p) = p_ofile (ptable s p)"
      "r = Some p \<and> p_state (ptable t p) = EMBRYO \<or> r = None"
    using ok allocproc_eq[OF h Some c q] allocproc_no_memory[OF h Some c q]
    by (cases "freelist s = 0"; auto simp: newproc_def)+
  have same: "p_ofile (ptable t i) = p_ofile (ptable s i)" for i using t(3)[of i] t(4) by (cases "i = p") auto
  then have "fd_refs t f = fd_refs s f" for f by (simp add: fd_refs_def)
  moreover have "proc_wf (ptable t i)" if "i < NPROC" for i
    using w that t(3)[of i] pw[of "ptable t i"] same[of i] none(1) by (cases "i = p") (auto simp: files_wf_def)
  moreover have "i < NPROC \<and> p_state (ptable t i) = RUNNING" if "curproc t = Some i" for i
    using w that t(2) t(3)[of i] none(2) by (auto simp: files_wf_def)
  ultimately have "files_wf X e t" using w t(1) by (simp add: files_wf_def)
  then show ?thesis using t p none by (auto simp: child_def)
qed

lemma modt_both:
  assumes "\<And>t x. p_ofile (g t x) = p_ofile x" "\<And>t x. p_state (g t x) = p_state x"
  shows "triple (\<lambda>s. files_wf X e s \<and> child np i s) (modt q g) (\<lambda>_ s. files_wf X e s \<and> child np i s)"
  unfolding modt_def by (rule triple_bnd[OF both_kept[OF fw.keeps_rd fv.keeps_rd] modp_both[OF assms]])

lemma start_child:
  "triple (\<lambda>s. files_wf X e s \<and> child np i s) (modp np (\<lambda>y. y\<lparr>p_state := RUNNABLE\<rparr>)) (\<lambda>_ s. files_wf X e s \<and> child np i s)"
  unfolding modp_def
proof (rule triple_upd, elim conjE)
  fix s
  assume w: "files_wf X e s" and c: "child np i s"
  let ?t = "s\<lparr>ptable := (ptable s)(np := (ptable s np)\<lparr>p_state := RUNNABLE\<rparr>)\<rparr>"
  have "fd_refs ?t f = fd_refs s f" for f unfolding fd_refs_def by (rule sum.cong) auto
  moreover have "proc_wf (ptable ?t p)" if "p < NPROC" for p using w that by (auto simp: files_wf_def proc_wf_def)
  ultimately show "files_wf X e ?t \<and> child np i ?t" using w c by (auto simp: files_wf_def child_def)
qed

lemma drop_child:
  "triple (\<lambda>s. files_wf X e s \<and> child np 0 s) (modp np (\<lambda>y. y\<lparr>p_kstack := 0, p_state := UNUSED\<rparr>)) (\<lambda>_. files_wf X e)"
  unfolding modp_def
proof (rule triple_upd, elim conjE)
  fix s
  assume w: "files_wf X e s" and c: "child np 0 s"
  let ?t = "s\<lparr>ptable := (ptable s)(np := (ptable s np)\<lparr>p_kstack := 0, p_state := UNUSED\<rparr>)\<rparr>"
  have "length (p_ofile (ptable s np)) = NOFILE" using w c by (auto simp: files_wf_def proc_wf_def child_def)
  then have "p_ofile (ptable s np) = replicate NOFILE None" using c by (intro nth_equalityI) (auto simp: child_def)
  then have "proc_wf (ptable ?t p)" if "p < NPROC" for p using w that by (auto simp: files_wf_def proc_wf_def)
  moreover have "fd_refs ?t f = fd_refs s f" for f unfolding fd_refs_def by (rule sum.cong) auto
  ultimately show "files_wf X e ?t" using w c by (auto simp: files_wf_def child_def)
qed

lemma keeps_vm_both: "keeps vm_frame f \<Longrightarrow> triple (\<lambda>s. files_wf X e s \<and> child np i s) f (\<lambda>_ s. files_wf X e s \<and> child np i s)"
  by (rule both_kept[OF fw.keeps_vm fv.keeps_vm])

lemma fork_rest:
  "triple (\<lambda>s. files_wf X e s \<and> child np i s) (case c of None \<Rightarrow> undef ''null cwd''
      | Some c \<Rightarrow> bnd (idup c) (\<lambda>c. sq (steps [modp np (\<lambda>y. y\<lparr>p_cwd := Some c\<rparr>),
            modp np (\<lambda>y. y\<lparr>p_name := splice (p_name y) 0 nm\<rparr>), acquire PtableLock, modp np (\<lambda>y. y\<lparr>p_state := RUNNABLE\<rparr>),
            modt np (\<lambda>t y. y\<lparr>p_start := t\<rparr>), release PtableLock]) (ret r))) (\<lambda>_. files_wf X e)"
  unfolding steps.simps
  by (rule triple_option, rule triple_undef, rule triple_bnd[OF both_kept[OF fw.keeps_iget(2) fv.keeps_iget(2)]], rule triple_sq,
      rule triple_sq[OF modp_both], simp, simp, rule triple_sq[OF modp_both], simp, simp,
      rule triple_sq[OF both_kept[OF fw.keeps_locks(1) fv.keeps_locks(1)]], rule triple_sq[OF start_child],
      rule triple_sq[OF modt_both], simp, simp, rule triple_sq[OF both_kept[OF fw.keeps_locks(2) fv.keeps_locks(2)]],
      rule triple_ret, assumption, rule triple_ret) simp

lemma running_triple:
  "triple (\<lambda>s. files_wf X e s \<and> Q s) myproc_deref (\<lambda>cur s. cur < NPROC \<and> files_wf X e s \<and> Q s)"
  by (auto simp: triple_def myproc_deref_def myproc_def monad_defs files_wf_def split: option.splits)

lemma allocproc_triple:
  "triple (\<lambda>s. files_wf X e s \<and> held s = [] \<and> -1 \<le> qcount s 0) allocproc
     (\<lambda>r s. case r of None \<Rightarrow> files_wf X e s | Some np \<Rightarrow> files_wf X e s \<and> child np 0 s)"
  unfolding triple_def using allocproc_files by (fastforce split: option.splits)

lemma getp_triple:
  "cur < NPROC \<Longrightarrow> triple (\<lambda>s. files_wf X e s \<and> child np i s) (getp cur) (\<lambda>x s. proc_wf x \<and> files_wf X e s \<and> child np i s)"
  by (auto simp: triple_def getp_def rd_def files_wf_def)

lemma fork_copied:
  assumes "proc_wf x"
  shows "triple (\<lambda>s. files_wf {} e s \<and> child np 0 s) (if d = 0
       then sq (kfree k) (sq (modp np (\<lambda>y. y\<lparr>p_kstack := 0, p_state := UNUSED\<rparr>)) (ret (-1)))
       else sq (steps [modp np (\<lambda>y. y\<lparr>p_sz := sz, p_parent := Some cur\<rparr>), kmemmove a b n, st32 a' 0,
             for_each [0..<NOFILE] (\<lambda>i. case p_ofile x ! i of None \<Rightarrow> ret ()
               | Some f \<Rightarrow> bnd (filedup f) (\<lambda>f. modp np (sets_ofile i (Some f))))])
           (case c of None \<Rightarrow> undef ''null cwd''
            | Some c \<Rightarrow> bnd (idup c) (\<lambda>c. sq (steps [modp np (\<lambda>y. y\<lparr>p_cwd := Some c\<rparr>),
                  modp np (\<lambda>y. y\<lparr>p_name := splice (p_name y) 0 nm\<rparr>), acquire PtableLock,
                  modp np (\<lambda>y. y\<lparr>p_state := RUNNABLE\<rparr>), modt np (\<lambda>t y. y\<lparr>p_start := t\<rparr>), release PtableLock]) (ret r))))
     (\<lambda>_. files_wf {} e)"
proof (rule triple_if)
  show "triple (\<lambda>s. files_wf {} e s \<and> child np 0 s) (sq (kfree k) (sq (modp np (\<lambda>y. y\<lparr>p_kstack := 0, p_state := UNUSED\<rparr>)) (ret (-1)))) (\<lambda>_. files_wf {} e)"
    by (rule triple_sq[OF keeps_vm_both[OF vm_basic_frames(2)] triple_sq[OF drop_child triple_ret]])
qed (rule triple_sq[OF _ fork_rest], simp only: steps.simps, rule triple_sq[OF modp_both], simp, simp,
    rule triple_sq[OF keeps_vm_both[OF vm_basic_frames(6)]], rule triple_sq[OF keeps_vm_both[OF vm_basic_frames(4)]],
    rule triple_sq[OF give_fds[OF assms] triple_ret])

lemma fork_wf: "triple (\<lambda>s. files_wf {} e s \<and> held s = [] \<and> -1 \<le> qcount s 0) fork (\<lambda>_. files_wf {} e)"
  unfolding fork_def
  by (rule triple_bnd[OF running_triple], rule triple_fact, rule triple_bnd[OF allocproc_triple], rule triple_cases[OF triple_ret], assumption,
      rule triple_bnd[OF getp_triple], assumption, rule triple_fact, rule triple_bnd[OF keeps_vm_both[OF copyuvm_frame]],
      rule triple_sq[OF modp_both], simp, simp,
      rule triple_bnd[OF both_kept[OF fw.keeps_myproc(3) fv.keeps_myproc(3)]], erule fork_copied)

text \<open>Leaving: \<open>exit\<close> closes the descriptors one after the other, each before it clears the entry.\<close>

definition closed :: "nat \<Rightarrow> nat \<Rightarrow> 'a fdst_scheme \<Rightarrow> bool" where
  "closed cur i s \<longleftrightarrow> curproc s = Some cur \<and> (\<forall>j<i. p_ofile (ptable s cur) ! j = None)"

lemma closed_view:
  assumes "keeps (\<lambda>s t. fd_view t = fd_view s) g"
  shows "triple (\<lambda>s. closed cur i s \<and> p_ofile (ptable s cur) ! fd = v) g (\<lambda>_ s. closed cur i s \<and> p_ofile (ptable s cur) ! fd = v)"
  using view_triple[OF assms, where P = "\<lambda>w. (fst w = Some cur \<and> (\<forall>j<i. fst (snd w cur) ! j = None)) \<and> fst (snd w cur) ! fd = v"]
  by (simp add: fd_view_def closed_def)

lemma clear_closed:
  assumes "fd < NOFILE"
  shows "triple (\<lambda>s. files_wf X (e(f := e f - 1)) s \<and> closed cur fd s \<and> p_ofile (ptable s cur) ! fd = Some f)
     (modp cur (sets_ofile fd None)) (\<lambda>_ s. files_wf X e s \<and> closed cur (Suc fd) s)"
  unfolding modp_def
proof (rule triple_upd, elim conjE, intro conjI)
  fix s
  assume w: "files_wf X (e(f := e f - 1)) s" and c: "closed cur fd s" and f: "p_ofile (ptable s cur) ! fd = Some f"
  have n: "cur < NPROC" "length (p_ofile (ptable s cur)) = NOFILE" using w c by (auto simp: files_wf_def closed_def proc_wf_def)
  have "(\<lambda>g. (e(f := e f - 1)) g + of_bool (Some f = Some g) - of_bool (None = Some g)) = e" by (auto simp: fun_eq_iff)
  then show "files_wf X e (s\<lparr>ptable := (ptable s)(cur := sets_ofile fd None (ptable s cur))\<rparr>)"
    using files_wf_ofile[OF w n(1) assms, of None] f by simp
  show "closed cur (Suc fd) (s\<lparr>ptable := (ptable s)(cur := sets_ofile fd None (ptable s cur))\<rparr>)"
    using c n(2) assms by (auto simp: closed_def sets_ofile_def nth_list_update less_Suc_eq)
qed

lemma closed_getp:
  assumes "fd < NOFILE"
  shows "triple (\<lambda>s. files_wf X e s \<and> closed cur fd s) (getp cur)
     (\<lambda>x s. (\<forall>f. p_ofile x ! fd = Some f \<longrightarrow> f < NFILE) \<and> files_wf X e s \<and> closed cur fd s \<and> p_ofile (ptable s cur) ! fd = p_ofile x ! fd)"
proof -
  have "f < NFILE" if "files_wf X e s" "closed cur fd s" "p_ofile (ptable s cur) ! fd = Some f" for f and s :: "'a fdst_scheme"
    using that assms nth_mem[of fd "p_ofile (ptable s cur)"] by (auto simp: files_wf_def proc_wf_def closed_def)
  then show ?thesis by (auto simp: triple_def getp_def rd_def)
qed

lemma exit_close_wf:
  assumes fd: "fd < NOFILE"
  shows "triple (\<lambda>s. files_wf {} e s \<and> closed cur fd s) (exit_close cur fd) (\<lambda>_ s. files_wf {} e s \<and> closed cur (Suc fd) s)"
  unfolding exit_close_def
proof (rule triple_bnd[OF closed_getp[OF fd]], rule triple_fact, rule triple_option, goal_cases)
  case (1 x)
  then show ?case by (auto intro!: triple_ret simp: closed_def less_Suc_eq)
next
  case (2 x f)
  have "triple (\<lambda>s. files_wf {} e s \<and> closed cur fd s \<and> p_ofile (ptable s cur) ! fd = Some f) (fileclose f)
      (\<lambda>_ s. files_wf {} (e(f := e f - 1)) s \<and> closed cur fd s \<and> p_ofile (ptable s cur) ! fd = Some f)"
    using triple_conj[OF fileclose_triple[of f "{}" e] closed_view[OF keeps_view_file(2)]] 2 by simp
  then show ?case unfolding 2(2) by (rule triple_sq[OF _ clear_closed[OF fd]])
qed

lemma closed_all: "files_wf X e s \<Longrightarrow> closed cur NOFILE s \<Longrightarrow> p_ofile (ptable s cur) = replicate NOFILE None"
  by (intro nth_equalityI) (auto simp: files_wf_def proc_wf_def closed_def)

lemma exit_closes:
  "triple (\<lambda>s. files_wf {} e s \<and> curproc s = Some cur) (for_each [0..<NOFILE] (exit_close cur))
     (\<lambda>_ s. files_wf {} e s \<and> p_ofile (ptable s cur) = replicate NOFILE None)"
  by (rule triple_pre[OF triple_post[OF triple_for_upto[where I = "\<lambda>i s. files_wf {} e s \<and> closed cur i s"]]], erule exit_close_wf)
    (auto simp: closed_def[of cur 0] intro: closed_all)

section \<open>The other system calls\<close>

lemma wf_modp:
  assumes "\<And>x. p_ofile (g x) = p_ofile x" "\<And>x. p_state (g x) = p_state x"
  shows "keeps (\<lambda>s t. files_wf X e s \<longrightarrow> files_wf X e t) (modp q g)"
  unfolding modp_def
proof (rule fw.keeps_upd, rule impI)
  fix s
  assume "files_wf X e s"
  then show "files_wf X e (s\<lparr>ptable := (ptable s)(q := g (ptable s q))\<rparr>)"
    using files_wf_cong[of "s\<lparr>ptable := (ptable s)(q := g (ptable s q))\<rparr>" s X e] assms by auto
qed

lemma wf_modt:
  assumes "\<And>t x. p_ofile (g t x) = p_ofile x" "\<And>t x. p_state (g t x) = p_state x"
  shows "keeps (\<lambda>s t. files_wf X e s \<longrightarrow> files_wf X e t) (modt q g)"
  unfolding modt_def by (intro fw.keeps_rules wf_modp assms)

lemma wf_upd:
  assumes "\<And>s. ftable (f s) = ftable s" "\<And>s. curproc (f s) = curproc s" "\<And>s. ptable (f s) = ptable s"
  shows "keeps (\<lambda>s t. files_wf X e s \<longrightarrow> files_wf X e t) (upd f)"
  by (rule fw.keeps_upd, rule files_wf_same) (rule assms)+

lemma wf_switchuvm: "keeps (\<lambda>s t. files_wf X e s \<longrightarrow> files_wf X e t) (switchuvm r)"
  unfolding switchuvm_def by (intro fw.proc_rules wf_upd) simp_all

lemmas wf_vm = fw.keeps_vm[OF allocuvm_frame] fw.keeps_vm[OF deallocuvm_frame] fw.keeps_vm[OF freevm_frame] fw.keeps_vm[OF setupkvm_frame]
  fw.keeps_vm[OF clearpteu_frame] fw.keeps_vm[OF copyout_frame] fw.keeps_vm[OF walkpgdir_frame] vm_basic_frames[THEN fw.keeps_vm]

lemma wf_growproc: "keeps (\<lambda>s t. files_wf X e s \<longrightarrow> files_wf X e t) (growproc n)"
  unfolding growproc_def Let_def by (intro fw.proc_rules wf_vm wf_modp wf_switchuvm) simp_all

lemma kernel_dst_ok: "fw.dst_ok X e (kernel_dst a)"
  unfolding fw.dst_ok_def kernel_dst_def[abs_def] by (intro allI wf_upd) simp_all

lemma wf_loaduvm: "keeps (\<lambda>s t. files_wf X e s \<longrightarrow> files_wf X e t) (loaduvm devsw_init d a ip off sz)"
  unfolding loaduvm_def by (intro fw.proc_rules wf_vm fw.keeps_readi fw.devs_ok_init kernel_dst_ok)

lemma wf_exec_load: "keeps (\<lambda>s t. files_wf X e s \<longrightarrow> files_wf X e t) (exec_load devsw_init ip d n off sz)"
  by (induction n arbitrary: off sz)
    (unfold exec_load.simps, (intro fw.proc_rules wf_vm fw.keeps_readi fw.devs_ok_init fw.copies_ok wf_loaduvm; assumption?)+)

lemma wf_exec_args: "keeps (\<lambda>s t. files_wf X e s \<longrightarrow> files_wf X e t) (exec_args d argv n sp us)"
  by (induction argv arbitrary: n sp us)
    (unfold exec_args.simps, (intro fw.proc_rules wf_vm; assumption?)+)

lemma wf_exec_bad: "keeps (\<lambda>s t. files_wf X e s \<longrightarrow> files_wf X e t) (exec_bad d ip)"
  unfolding exec_bad_def by (intro fw.inode_rules wf_vm)

lemma wf_exec: "keeps (\<lambda>s t. files_wf X e s \<longrightarrow> files_wf X e t) (exec devsw_init path argv)"
  unfolding exec_def exec_stack_def
  by (intro fw.inode_rules wf_vm fw.keeps_namei fw.keeps_readi fw.devs_ok_init fw.copies_ok wf_exec_load wf_exec_args wf_exec_bad wf_modp wf_switchuvm)
    simp_all

lemma wf_exec_argv: "keeps (\<lambda>s t. files_wf X e s \<longrightarrow> files_wf X e t) (exec_argv n a)"
  by (induction n arbitrary: a) (unfold exec_argv.simps, (intro fw.proc_rules fw.keeps_fetch; assumption?)+)

lemma wf_sys_exec: "keeps (\<lambda>s t. files_wf X e s \<longrightarrow> files_wf X e t) (sys_exec devsw_init)"
  unfolding sys_exec_def by (intro fw.proc_rules fw.keeps_args wf_exec_argv wf_exec)

lemma wf_kill_wake:
  "keeps (\<lambda>s t. files_wf X e s \<longrightarrow> files_wf X e t)
     (bnd (getp p) (\<lambda>x. whenb (p_state x = SLEEPING) (modt p (\<lambda>t x. x\<lparr>p_start := t, p_state := RUNNABLE\<rparr>))))" (is "keeps _ ?k")
proof (rule keepsI, rule impI)
  fix s t u
  assume k: "?k s = Ok u t" and w: "files_wf X e s"
  show "files_wf X e t"
  proof (cases "p_state (ptable s p) = SLEEPING")
    case True
    then have "t = s\<lparr>ptable := (ptable s)(p := (ptable s p)\<lparr>p_start := now s, p_state := RUNNABLE\<rparr>)\<rparr>"
      using k by (simp add: getp_def modt_def modp_def basic_runs)
    then show ?thesis using True w files_wf_cong[of t s X e] by simp
  next
    case False
    then show ?thesis using k w by (simp add: getp_def basic_runs)
  qed
qed

lemma wf_kill: "keeps (\<lambda>s t. files_wf X e s \<longrightarrow> files_wf X e t) (kill pd)"
  unfolding kill_def by (rule wf_kill_wake | rule fw.keeps_rules fw.keeps_locks | rule wf_modp, simp, simp)+

lemma wf_listings: "keeps (\<lambda>s t. files_wf X e s \<longrightarrow> files_wf X e t) (cps pol)"
  "keeps (\<lambda>s t. files_wf X e s \<longrightarrow> files_wf X e t) (chpr pd pr)" "keeps (\<lambda>s t. files_wf X e s \<longrightarrow> files_wf X e t) (setPriority pr pd)"
  unfolding cps_def cps_line_def chpr_def setPriority_def Let_def by (intro fw.proc_rules wf_vm wf_modp; simp)+

lemma wf_put_stat: "keeps (\<lambda>s t. files_wf X e s \<longrightarrow> files_wf X e t) (put_stat (user_dst p) st)"
  unfolding put_stat_def user_dst_def by (intro fw.rules fw.keeps_user)

lemma wf_calls:
  "keeps (\<lambda>s t. files_wf X e s \<longrightarrow> files_wf X e t) sys_fstat" "keeps (\<lambda>s t. files_wf X e s \<longrightarrow> files_wf X e t) sys_kill"
  "keeps (\<lambda>s t. files_wf X e s \<longrightarrow> files_wf X e t) sys_getpid" "keeps (\<lambda>s t. files_wf X e s \<longrightarrow> files_wf X e t) sys_sbrk"
  "keeps (\<lambda>s t. files_wf X e s \<longrightarrow> files_wf X e t) sys_sleep" "keeps (\<lambda>s t. files_wf X e s \<longrightarrow> files_wf X e t) sys_uptime"
  "keeps (\<lambda>s t. files_wf X e s \<longrightarrow> files_wf X e t) (sys_cps pol)" "keeps (\<lambda>s t. files_wf X e s \<longrightarrow> files_wf X e t) sys_chpr"
  "keeps (\<lambda>s t. files_wf X e s \<longrightarrow> files_wf X e t) sys_setPriority"
  unfolding sys_fstat_def argfd_def filestat_def getf_def stati_def Let_def sys_kill_def sys_getpid_def sys_sbrk_def sys_sleep_def
    sys_sleep_loop_def sys_uptime_def sys_cps_def sys_chpr_def sys_setPriority_def
  by (intro fw.inode_rules fw.keeps_args wf_put_stat wf_kill wf_growproc wf_listings)+

lemma wf_sys_chdir: "keeps (\<lambda>s t. files_wf X e s \<longrightarrow> files_wf X e t) (sys_chdir devsw_init)"
  unfolding sys_chdir_def by (intro fw.inode_rules fw.keeps_args fw.keeps_namei fw.devs_ok_init wf_modp) simp_all

lemma never_exit: "exit s \<noteq> Ok x t"
  by (auto simp: exit_def sq_def bnd_eq_Ok never_sched panic_def undef_def split: if_splits option.splits)

section \<open>Waiting\<close>

text \<open>An entry without descriptors that is not the running process; a zombie is one.\<close>

definition idle :: "nat \<Rightarrow> 'a fdst_scheme \<Rightarrow> bool" where
  "idle p s \<longleftrightarrow> p < NPROC \<and> curproc s \<noteq> Some p \<and> p_ofile (ptable s p) = replicate NOFILE None"

lemma idle_kept:
  assumes "keeps (\<lambda>s t. files_wf X e s \<longrightarrow> files_wf X e t) f" "keeps (\<lambda>s t. fd_view t = fd_view s) f"
  shows "triple (\<lambda>s. files_wf X e s \<and> idle p s) f (\<lambda>_ s. files_wf X e s \<and> idle p s)"
  using triple_conj[OF keeps_wf[OF assms(1)] view_triple[OF assms(2), where P = "\<lambda>v. p < NPROC \<and> fst v \<noteq> Some p \<and> fst (snd v p) = replicate NOFILE None"]]
  by (simp add: idle_def fd_view_def)

lemma free_idle:
  assumes "\<And>x. p_ofile (g x) = p_ofile x"
  shows "triple (\<lambda>s. files_wf X e s \<and> idle p s) (modp p g) (\<lambda>_ s. files_wf X e s \<and> idle p s)"
  unfolding modp_def
proof (rule triple_upd, elim conjE)
  fix s
  assume w: "files_wf X e s" and c: "idle p s"
  let ?t = "s\<lparr>ptable := (ptable s)(p := g (ptable s p))\<rparr>"
  have "proc_wf (ptable ?t q)" if "q < NPROC" for q using w c that assms by (auto simp: files_wf_def proc_wf_def idle_def)
  moreover have "fd_refs ?t f = fd_refs s f" for f unfolding fd_refs_def using assms by (intro sum.cong) auto
  ultimately show "files_wf X e ?t \<and> idle p ?t" using w c assms by (auto simp: files_wf_def idle_def)
qed

lemma zombie_idle:
  "triple (files_wf X e) (rd (zombie_kid cur)) (\<lambda>r s. case r of None \<Rightarrow> files_wf X e s | Some p \<Rightarrow> files_wf X e s \<and> idle p s)"
proof -
  have "idle p s" if w: "files_wf X e s" and z: "zombie_kid cur s = Some p" for p and s :: "'a fdst_scheme"
  proof -
    have "p \<in> set (kids cur s)" "p_state (ptable s p) = ZOMBIE" using find_SomeD[OF z[unfolded zombie_kid_def]] by auto
    then show ?thesis using w by (auto simp: files_wf_def proc_wf_def idle_def kids_def)
  qed
  then show ?thesis by (auto simp: triple_def rd_def split: option.split)
qed

lemma idle_vm: "keeps vm_frame f \<Longrightarrow> triple (\<lambda>s. files_wf X e s \<and> idle p s) f (\<lambda>_ s. files_wf X e s \<and> idle p s)"
  by (rule idle_kept[OF fw.keeps_vm fv.keeps_vm])

lemma idle_rem: "triple (\<lambda>s. files_wf X e s \<and> idle p s) (whenb b (rem_process pd q)) (\<lambda>_ s. files_wf X e s \<and> idle p s)"
  unfolding rem_process_def
  by (rule idle_kept; intro fw.proc_rules wf_upd fv.proc_rules; simp add: fd_view_def)

lemma no_zombie:
  "keeps (\<lambda>s t. files_wf X e s \<longrightarrow> files_wf X e t) (bnd (rd (kids cur)) (\<lambda>ks. bnd (getp cur) (\<lambda>me. if b ks me then sq (release PtableLock) (ret (-1))
      else sleep (ChProc cur) PtableLock)))"
  by (intro fw.proc_rules)

lemma wait_loop_wf: "triple (files_wf X e) (wait_loop pol cur) (\<lambda>_. files_wf X e)"
  unfolding wait_loop_def steps.simps
  by (rule triple_bnd[OF zombie_idle], rule triple_cases[OF keeps_wf[OF no_zombie]],
      rule triple_bnd[OF idle_kept[OF fw.keeps_myproc(3) fv.keeps_myproc(3)]], rule triple_sq,
      rule triple_sq[OF idle_vm[OF vm_basic_frames(2)]], rule triple_sq[OF free_idle], simp, rule triple_sq[OF idle_vm[OF freevm_frame]],
      rule triple_sq[OF idle_rem], rule triple_sq[OF free_idle], simp, rule triple_sq[OF idle_kept[OF fw.keeps_locks(2) fv.keeps_locks(2)]],
      rule triple_ret, assumption, rule triple_ret) blast

lemma waitx_loop_wf: "triple (files_wf X e) (waitx_loop cur wt rt) (\<lambda>_. files_wf X e)"
  unfolding waitx_loop_def steps.simps if_not_P
  by (rule triple_bnd[OF zombie_idle], rule triple_cases, rule keeps_wf, intro fw.proc_rules,
      rule triple_bnd[OF idle_kept[OF fw.keeps_myproc(3) fv.keeps_myproc(3)]], rule triple_sq,
      rule triple_sq[OF idle_vm[OF put_user_frame]], rule triple_sq[OF idle_vm[OF vm_basic_frames(7)]], rule triple_sq[OF idle_vm[OF put_user_frame]],
      rule triple_sq[OF idle_vm[OF vm_basic_frames(2)]], rule triple_sq[OF free_idle], simp, rule triple_sq[OF idle_vm[OF freevm_frame]],
      rule triple_sq[OF free_idle], simp, rule triple_sq[OF idle_kept[OF fw.keeps_locks(2) fv.keeps_locks(2)]],
      rule triple_ret, assumption, rule triple_ret) blast

lemma wf_wait: "keeps (\<lambda>s t. files_wf X e s \<longrightarrow> files_wf X e t) (sys_wait pol)" "keeps (\<lambda>s t. files_wf X e s \<longrightarrow> files_wf X e t) sys_waitx"
  unfolding sys_wait_def wait_def sys_waitx_def waitx_def
  by (intro fw.proc_rules fw.keeps_args triple_to_keeps[OF wait_loop_wf] triple_to_keeps[OF waitx_loop_wf])+

section \<open>All system calls\<close>

lemmas call_triples = sys_pipe_wf sys_rw_wf sys_dup_wf sys_open_wf sys_close_wf
  keeps_wf[OF wf_wait(1)] keeps_wf[OF wf_wait(2)] keeps_wf[OF wf_sys_exec] keeps_wf[OF wf_sys_chdir] wf_calls[THEN keeps_wf]
  keeps_wf[OF fw.keeps_links(1)[OF fw.devs_ok_init]] keeps_wf[OF fw.keeps_links(2)[OF fw.devs_ok_init]]
  keeps_wf[OF fw.keeps_made(1)[OF fw.devs_ok_init]] keeps_wf[OF fw.keeps_made(2)[OF fw.devs_ok_init]]

lemma syscalls_wf:
  assumes "c \<in> set (syscalls pol devsw_init)"
  shows "triple (\<lambda>s. files_wf {} e s \<and> held s = [] \<and> -1 \<le> qcount s 0) c (\<lambda>_. files_wf {} e)"
proof -
  have "c = sys_fork \<or> c = sys_exit \<or> triple (files_wf {} e) c (\<lambda>_. files_wf {} e)"
    using assms unfolding syscalls_def list.set
    by (elim insertE emptyE) (simp_all only: simp_thms call_triples)
  moreover have "triple P sys_exit Q" for P Q by (simp add: triple_def sys_exit_def never_exit)
  ultimately show ?thesis
    using fork_wf[of e] unfolding sys_fork_def by (elim disjE) (simp_all add: triple_pre)
qed

lemma reads_triple:
  "triple P my (\<lambda>_. P)" "triple P (ld32 a) (\<lambda>_. P)"
  by (auto simp: triple_def my_def myproc_deref_def myproc_def getp_def ld32_def monad_defs split: option.splits)

lemma syscall_wf: "triple (\<lambda>s. files_wf {} e s \<and> held s = [] \<and> -1 \<le> qcount s 0) (syscall pol devsw_init) (\<lambda>_. files_wf {} e)"
  unfolding syscall_def Let_def
proof (rule triple_bnd[OF reads_triple(1)], rule triple_bnd[OF reads_triple(2)], rule triple_if, goal_cases)
  case (1 x eax)
  then have "syscalls pol devsw_init ! nat (sint eax - 1) \<in> set (syscalls pol devsw_init)" by (intro nth_mem) (simp add: syscalls_def, arith)
  then show ?case by (rule triple_bnd[OF syscalls_wf keeps_wf[OF wf_vm(11)]])
next
  case (2 x eax)
  show ?case by (rule triple_pre[OF keeps_wf]) (intro fw.rules wf_vm, blast)
qed

lemma descriptor_live:
  assumes w: "files_wf {} (\<lambda>_. 0) s" and p: "p < NPROC" "fd < NOFILE" "p_ofile (ptable s p) ! fd = Some f"
  shows "f < NFILE \<and> f_ref (ftable s f) \<ge> 1 \<and> f_type (ftable s f) \<noteq> FD_NONE"
proof -
  have l: "Some f \<in> set (p_ofile (ptable s p))" using w p nth_mem[of fd "p_ofile (ptable s p)"] by (auto simp: files_wf_def proc_wf_def)
  then have f: "f < NFILE" using w p(1) by (auto simp: files_wf_def proc_wf_def)
  have "int (count_list (p_ofile (ptable s p)) (Some f)) \<le> fd_refs s f"
    unfolding fd_refs_def using p(1) by (intro member_le_sum) auto
  moreover have "count_list (p_ofile (ptable s p)) (Some f) \<noteq> 0" using l by (simp add: count_list_0_iff)
  ultimately show ?thesis using w f by (auto simp: files_wf_def typed_def)
qed

text \<open>A process with descriptor 0 on an open file that asks for its process id.\<close>

definition demo_call :: fdst where
  "demo_call = demo_fdst\<lparr>ptable := (\<lambda>_. zero_proc)(0 := zero_proc\<lparr>p_state := RUNNING, p_pid := 7, p_tf := 0x80400000, p_ofile := Some 3 # replicate 15 None\<rparr>),
     ftable := (\<lambda>_. free_file)(3 := free_file\<lparr>f_ref := 1, f_type := FD_INODE\<rparr>), pmem := store32 (0x80400000 + TF_eax) 11 (\<lambda>_. 0)\<rparr>"

lemma demo_call_wf: "files_wf {} (\<lambda>_. 0) demo_call"
proof -
  have "{..<NPROC} = insert 0 {1..<NPROC}" by (auto simp: NPROC_def)
  then have "fd_refs demo_call f = (if f = 3 then 1 else 0)" for f
    by (simp add: fd_refs_def demo_call_def zero_proc_def NPROC_def count_notin)
  then show ?thesis
    by (auto simp: files_wf_def demo_call_def demo_fdst_fields proc_wf_def typed_def zero_proc_def free_file_def NFILE_def NOFILE_def NPROC_def)
qed



end
