(* ===== verification/ArgSafe.thy ===== *)
theory ArgSafe
  imports Sysproc
begin

text \<open>
  What the argument checks of system calls guarantee: addresses that come from a user program are only
  used for memory below the size of the process, and sizes stay below the kernel's addresses, so that the
  32-bit sums in the checks do not wrap around.
\<close>

unbundle bit_operations_syntax

lemma my_Ok: "my s = Ok x t \<longleftrightarrow> t = s \<and> (\<exists>q. curproc s = Some q \<and> x = ptable s q)"
  by (auto simp: my_def myproc_deref_def myproc_def getp_def monad_defs split: option.splits)

text \<open>The byte at a user address, in the page tables that are in use.\<close>

definition ubyte :: "'a vmst_scheme \<Rightarrow> u32 \<Rightarrow> u8 option" where
  "ubyte s va = map_option (pmem s) (xlate (pmem s) (P2V (cr3 s)) False va)"

lemma get_user_Ok:
  "get_user va n s = Ok bs t \<Longrightarrow> t = s \<and> length bs = n \<and> (\<forall>i<n. ubyte s (va + of_nat i) = Some (bs ! i))"
proof (induction n arbitrary: va bs)
  case (Suc n)
  then obtain a cs where a: "xlate (pmem s) (P2V (cr3 s)) False va = Some a" "get_user (va + 1) n s = Ok cs t" "bs = pmem s a # cs"
    by (auto simp: bnd_eq_Ok basic_runs ret_def rd_def split: option.splits)
  have "ubyte s (va + of_nat i) = Some (bs ! i)" if "i < Suc n" for i
    using Suc.IH[OF a(2)] a that by (cases i) (auto simp: ubyte_def add.assoc)
  then show ?case using Suc.IH[OF a(2)] a(3) by simp
qed (simp add: ret_def)

lemma no_wrap:
  fixes a sz :: u32
  assumes "sz \<le> KERNBASE" "n < 2 ^ 31" "0 \<le> n"
  shows "\<not> (a \<ge> sz \<or> a + word_of_int n > sz) \<longleftrightarrow> uint a < uint sz \<and> uint a + n \<le> uint sz"
proof (cases "a < sz")
  case True
  have k: "uint sz \<le> 2 ^ 31" using assms(1) by (simp add: word_le_def KERNBASE_def)
  moreover have l: "uint a < uint sz" using True by (simp add: word_less_def)
  ultimately have "uint (a + word_of_int n) = uint a + n"
    using assms(2,3) by (simp add: uint_word_ariths uint_word_of_int)
  then show ?thesis using True l by (auto simp: word_less_def word_le_def not_le not_less)
qed (auto simp: word_less_def not_less word_le_def)

lemma fetchint_Ok:
  assumes "curproc s = Some q" "p_sz (ptable s q) \<le> KERNBASE" "fetchint a s = Ok r t"
  shows "t = s \<and> (r \<noteq> None \<longleftrightarrow> uint a + 4 \<le> uint (p_sz (ptable s q)))"
proof -
  have e: "bnd my g s = g (ptable s q) s" for g :: "proc \<Rightarrow> _" using assms(1) by (intro bnd_Ok) (simp add: my_Ok)
  note f = assms(3)[unfolded fetchint_def e]
  show ?thesis
  proof (cases "a \<ge> p_sz (ptable s q) \<or> a + 4 > p_sz (ptable s q)")
    case True
    then show ?thesis using f no_wrap[OF assms(2), of 4 a] by (auto simp: ret_def)
  next
    case False
    then show ?thesis using f no_wrap[OF assms(2), of 4 a] by (auto simp: bnd_eq_Ok ret_def dest: get_user_Ok)
  qed
qed

lemma argint_Ok:
  assumes "curproc s = Some q" "p_sz (ptable s q) \<le> KERNBASE" "argint k s = Ok r t"
  shows "t = s"
  using assms fetchint_Ok[OF assms(1,2)] by (auto simp: argint_def bnd_eq_Ok my_Ok ld32_def rd_def)

lemma argptr_Ok:
  assumes "curproc s = Some q" "p_sz (ptable s q) \<le> KERNBASE" "argptr k n s = Ok r t" "n < 2 ^ 31"
  shows "t = s \<and> (\<forall>p. r = Some p \<longrightarrow> 0 \<le> n \<and> uint p < uint (p_sz (ptable s q)) \<and> uint p + n \<le> uint (p_sz (ptable s q)))"
proof -
  obtain i where i: "argint k s = Ok i s"
    "(case i of None \<Rightarrow> ret None | Some i \<Rightarrow> if n < 0 \<or> i \<ge> p_sz (ptable s q) \<or> i + word_of_int n > p_sz (ptable s q) then ret None else ret (Some i)) s = Ok r t"
    using assms(1,3) argint_Ok[OF assms(1,2)] by (auto simp: argptr_def bnd_eq_Ok my_Ok)
  then show ?thesis
    using no_wrap[OF assms(2,4)] by (auto simp: ret_def not_less split: option.splits if_splits)
qed

lemma fetchstr_loop_Ok:
  "fetchstr_loop n a s = Ok r t \<Longrightarrow> t = s \<and> (case r of
      None \<Rightarrow> (\<forall>i<n. \<exists>c. ubyte s (a + of_nat i) = Some c \<and> c \<noteq> 0)
    | Some cs \<Rightarrow> length cs < n \<and> 0 \<notin> set cs \<and> (\<forall>i<length cs. ubyte s (a + of_nat i) = Some (cs ! i)) \<and> ubyte s (a + of_nat (length cs)) = Some 0)"
proof (induction n arbitrary: a r)
  case (Suc n)
  let ?k = "\<lambda>bs. if hd bs = 0 then ret (Some []) else bnd (fetchstr_loop n (a + 1)) (\<lambda>r. ret (map_option (\<lambda>cs. hd bs # cs) r))"
  obtain bs u where u: "get_user a 1 s = Ok bs u" "?k bs u = Ok r t"
    using Suc.prems by (auto simp only: fetchstr_loop.simps bnd_eq_Ok)
  have bs: "u = s" "ubyte s a = Some (hd bs)" using get_user_Ok[OF u(1)] by (cases bs; auto)+
  note bs = this u(2)[unfolded this(1)]
  show ?case
  proof (cases "hd bs = 0")
    case True
    then show ?thesis using bs by (auto simp: ret_def)
  next
    case False
    then obtain q where q: "fetchstr_loop n (a + 1) s = Ok q t" "r = map_option (\<lambda>cs. hd bs # cs) q"
      using bs(3) by (auto simp: bnd_eq_Ok ret_def)
    have step: "ubyte s (a + of_nat i) = (case i of 0 \<Rightarrow> Some (hd bs) | Suc j \<Rightarrow> ubyte s (a + 1 + of_nat j))" for i
      using bs(2) by (cases i) (simp_all add: add.assoc)
    show ?thesis using Suc.IH[OF q(1)] q(2) False
      by (cases q) (auto simp: step less_Suc_eq_0_disj nth_Cons' add.assoc split: nat.splits)
  qed
qed (simp add: ret_def)

lemma fetchstr_Ok:
  assumes "curproc s = Some q" "fetchstr a s = Ok r t"
  shows "t = s \<and> (\<forall>p cs. r = Some (p, cs) \<longrightarrow> p = a \<and> uint a + int (length cs) < uint (p_sz (ptable s q)) \<and> 0 \<notin> set cs \<and>
    (\<forall>i<length cs. ubyte s (a + of_nat i) = Some (cs ! i)) \<and> ubyte s (a + of_nat (length cs)) = Some 0)"
proof -
  have e: "bnd my g s = g (ptable s q) s" for g :: "proc \<Rightarrow> _" using assms(1) by (intro bnd_Ok) (simp add: my_Ok)
  note f = assms(2)[unfolded fetchstr_def e]
  show ?thesis
  proof (cases "a \<ge> p_sz (ptable s q)")
    case True
    then show ?thesis using f by (simp add: ret_def)
  next
    case False
    let ?n = "unat (p_sz (ptable s q)) - unat a"
    have "bnd (fetchstr_loop ?n a) (\<lambda>r. ret (map_option (\<lambda>cs. (a, cs)) r)) s = Ok r t" using f False by simp
    then obtain c u where c: "fetchstr_loop ?n a s = Ok c u" "ret (map_option (\<lambda>cs. (a, cs)) c) u = Ok r t"
      unfolding bnd_eq_Ok by blast
    note l = fetchstr_loop_Ok[OF c(1)]
    have r: "r = map_option (\<lambda>cs. (a, cs)) c" "t = s" using c(2) l by (auto simp: ret_def)
    show ?thesis
    proof (cases c)
      case (Some cs)
      then have "length cs < unat (p_sz (ptable s q)) - unat a" using l by simp
      then have "unat a + length cs < unat (p_sz (ptable s q))" by arith
      then have "int (unat a + length cs) < int (unat (p_sz (ptable s q)))" by (simp only: of_nat_less_iff)
      then show ?thesis using l r Some by simp
    qed (simp add: r)
  qed
qed

lemma argfd_Ok:
  assumes q: "curproc s = Some q" "p_sz (ptable s q) \<le> KERNBASE" and ok: "argfd k s = Ok r u"
  shows "u = s \<and> (\<forall>fd f. r = Some (fd, f) \<longrightarrow> fd < NOFILE \<and> p_ofile (ptable s q) ! fd = Some f)"
proof -
  obtain v w where v: "argint k s = Ok v w" "(case v of None \<Rightarrow> ret None | Some v \<Rightarrow> let fd = sint v in
     if fd < 0 \<or> fd \<ge> int NOFILE then ret None else bnd my (\<lambda>x. ret (map_option (\<lambda>f. (nat fd, f)) (p_ofile x ! nat fd)))) w = Ok r u"
    using ok unfolding argfd_def bnd_eq_Ok by blast
  have "w = s" using argint_Ok[OF q v(1)] .
  then show ?thesis using v(2) q(1) by (auto simp: bnd_eq_Ok my_Ok ret_def Let_def nat_less_iff split: option.splits if_splits)
qed

lemma rw_args_Ok:
  assumes q: "curproc s = Some q" "p_sz (ptable s q) \<le> KERNBASE" and ok: "rw_args s = Ok (Some (f, p, n)) t"
  shows "t = s \<and> 0 \<le> n \<and> uint p + n \<le> uint (p_sz (ptable s q)) \<and> (\<exists>fd<NOFILE. p_ofile (ptable s q) ! fd = Some f)"
proof -
  let ?g = "\<lambda>f r. case r of None \<Rightarrow> ret None | Some v \<Rightarrow> bnd (argptr 1 (sint v)) (\<lambda>r. ret (map_option (\<lambda>p. (f, p, sint v)) r))"
  obtain r u where r: "argfd 0 s = Ok r u" "(case r of None \<Rightarrow> ret None | Some (_, f) \<Rightarrow> bnd (argint 2) (?g f)) u = Ok (Some (f, p, n)) t"
    using ok unfolding rw_args_def bnd_eq_Ok by blast
  note u = argfd_Ok[OF q r(1)]
  obtain k g where k: "r = Some (k, g)" using r(2) by (cases r) (auto simp: ret_def)
  obtain v w where v: "argint 2 s = Ok v w" "?g g v w = Ok (Some (f, p, n)) t" using r(2) k u by (auto simp: bnd_eq_Ok simp del: One_nat_def)
  have "w = s" using argint_Ok[OF q v(1)] .
  then obtain x where x: "v = Some x" and b: "bnd (argptr 1 (sint x)) (\<lambda>r. ret (map_option (\<lambda>p. (g, p, sint x)) r)) s = Ok (Some (f, p, n)) t"
    using v(2) by (cases v) (simp_all add: ret_def)
  from b obtain o1 u1 where "argptr 1 (sint x) s = Ok o1 u1" "ret (map_option (\<lambda>p. (g, p, sint x)) o1) u1 = Ok (Some (f, p, n)) t"
    unfolding bnd_eq_Ok by blast
  then have x: "argptr 1 (sint x) s = Ok (Some p) t" "n = sint x" "g = f" by (auto simp: ret_def simp del: One_nat_def)
  have "n < 2 ^ 31" using x(2) sint_lt[of x] by simp
  then show ?thesis using argptr_Ok[OF q x(1)] x(2,3) u k by auto
qed

text \<open>\<open>growproc\<close> keeps sizes below the kernel.\<close>

lemma scan_zero:
  assumes "\<And>x s r t. f x s = Ok (Some r) t \<Longrightarrow> r = z"
  shows "scan xs f s = Ok (Some r) t \<Longrightarrow> r = z"
  using assms by (induction xs arbitrary: s) (auto simp: ret_def bnd_eq_Ok split: option.splits)

lemma allocuvm_size:
  assumes "allocuvm d old new s = Ok r t"
  shows "r = 0 \<or> r = old \<or> r = new \<and> new < KERNBASE"
proof (cases "new \<ge> KERNBASE \<or> new < old")
  case True
  then show ?thesis using assms by (auto simp: allocuvm_def ret_def split: if_splits)
next
  case False
  let ?f = "\<lambda>a. bnd kalloc (\<lambda>mem. if mem = 0 then sq (cprintf ''allocuvm out of memory\<newline>'' []) (sq (deallocuvm d new old) (ret (Some 0)))
      else sq (kmemset mem 0 PGSIZE) (bnd (mappages d a PGSIZE (V2P mem) (PTE_W OR PTE_U)) (\<lambda>r.
        if r < 0 then sq (cprintf ''allocuvm out of memory (2)\<newline>'' []) (sq (deallocuvm d new old) (sq (kfree mem) (ret (Some 0)))) else ret None)))"
  have z: "r = 0" if "scan xs ?f s = Ok (Some r) u" for xs r u
    by (rule scan_zero[OF _ that]) (auto simp: ret_def sq_def bnd_eq_Ok split: if_splits)
  have "bnd (scan (page_range (PGROUNDUP old) new) ?f) (\<lambda>r. case r of Some v \<Rightarrow> ret v | None \<Rightarrow> ret new) s = Ok r t"
    using assms False by (simp add: allocuvm_def)
  then obtain c u where c: "scan (page_range (PGROUNDUP old) new) ?f s = Ok c u" "(case c of Some v \<Rightarrow> ret v | None \<Rightarrow> ret new) u = Ok r t"
    unfolding bnd_eq_Ok by blast
  then show ?thesis using z[of _ r u] False by (cases c) (auto simp: ret_def not_le)
qed

lemma deallocuvm_size: "deallocuvm d old new s = Ok r t \<Longrightarrow> r \<le> old"
  by (auto simp: deallocuvm_def sq_def bnd_eq_Ok ret_def split: if_splits)

lemma set_size_Ok:
  assumes "sq (modp q (\<lambda>x. x\<lparr>p_sz := sz\<rparr>)) (sq (switchuvm (Some q)) (ret v)) s = Ok r t"
  shows "p_sz (ptable t q) = sz"
  using assms by (auto simp: modp_def switchuvm_def getp_def basic_runs sq_def bnd_eq_Ok split: if_splits)

lemma growproc_size:
  assumes q: "curproc s = Some q" "p_sz (ptable s q) \<le> KERNBASE" and ok: "growproc n s = Ok r t"
  shows "p_sz (ptable t q) \<le> KERNBASE"
proof -
  let ?x = "ptable s q" and ?done = "\<lambda>sz. sq (modp q (\<lambda>x. x\<lparr>p_sz := sz\<rparr>)) (sq (switchuvm (Some q)) (ret (0 :: int)))"
  have grown: "p_sz (ptable t q) \<le> KERNBASE"
    if b: "bnd f (\<lambda>sz. if sz = 0 then ret (-1 :: int) else ?done sz) s = Ok r t" and le: "\<And>sz u. f s = Ok sz u \<Longrightarrow> sz \<le> KERNBASE" and fr: "keeps vm_frame f" for f
  proof -
    obtain sz u where u: "f s = Ok sz u" "(if sz = 0 then ret (-1 :: int) else ?done sz) u = Ok r t" using b unfolding bnd_eq_Ok by blast
    have "ptable u = ptable s" using vm_frame_pst(1)[OF keeps_Ok[OF fr u(1)]] .
    then show ?thesis using u(2) le[OF u(1)] q(2) set_size_Ok[of q sz 0 u r t] by (cases "sz = 0") (auto simp: ret_def)
  qed
  have e: "growproc n s = (if n > 0 then bnd (allocuvm (p_pgdir ?x) (p_sz ?x) (p_sz ?x + word_of_int n)) (\<lambda>sz. if sz = 0 then ret (-1 :: int) else ?done sz) s
     else if n < 0 then bnd (deallocuvm (p_pgdir ?x) (p_sz ?x) (p_sz ?x + word_of_int n)) (\<lambda>sz. if sz = 0 then ret (-1 :: int) else ?done sz) s
     else ?done (p_sz ?x) s)"
    using q(1) by (simp add: growproc_def myproc_deref_def myproc_def getp_def basic_runs Let_def)
  consider "n > 0" | "n < 0" | "n = 0" by linarith
  then show ?thesis
  proof cases
    case 1
    then show ?thesis using ok q(2) unfolding e by (intro grown[OF _ _ allocuvm_frame]) (auto dest!: allocuvm_size)
  next
    case 2
    then show ?thesis using ok q(2) unfolding e by (intro grown[OF _ _ deallocuvm_frame]) (auto dest!: deallocuvm_size)
  next
    case 3
    then show ?thesis using ok q(2) set_size_Ok[of q "p_sz ?x" 0 s r t] unfolding e by simp
  qed
qed

text \<open>A process of one page.\<close>

definition demo_args :: fdst where
  "demo_args = demo_fdst\<lparr>pmem := one_page, cr3 := 0x300000, ptable := (\<lambda>_. zero_proc)(0 := zero_proc\<lparr>p_state := RUNNING, p_sz := 0x1000\<rparr>)\<rparr>"

lemma demo_args_fields: "curproc demo_args = Some 0" "p_sz (ptable demo_args 0) \<le> KERNBASE"
  by (simp_all add: demo_args_def demo_fdst_fields KERNBASE_def)

lemma demo_args_user: "vpn va = 0 \<Longrightarrow> xlate (pmem demo_args) (P2V (cr3 demo_args)) False va = Some (0x80302000 + va mod PGSIZE)"
proof -
  have al: "0x80301000 mod PGSIZE = 0" "0x80300000 mod PGSIZE = 0" by (simp_all add: PGSIZE_def)
  assume "vpn va = 0"
  then have z: "PDX va = 0" "PTX va = 0" using vpn_eq_iff[of va 0] by (simp_all add: vpn_def PDX_def PTX_def)
  have l: "load32 one_page 0x80300000 = 0x301007" "load32 one_page 0x80301000 = 0x302007"
    using one_page_slot[OF al(2), of 0] one_page_slot[OF al(1), of 0] by (simp_all add: slot_def)
  show ?thesis by (simp add: xlate_def z l Let_def demo_args_def P2V_def KERNBASE_def PTE_P_def PTE_ADDR_def)
qed

lemma demo_args_mem: "a \<ge> 0x80302000 \<Longrightarrow> pmem demo_args a = 0"
  by (auto simp: demo_args_def one_page_def store32_def)



end
