(* ===== verification/Spec2Isabelle.thy ===== *)
theory Spec2Isabelle
  imports Prelude Spinlock Kstring Kalloc Printf Vm Proc Sched Sleeplock Bio Cache Log Crash Inode Dir Ring Pipe Console
    File Args ProcOps Exec Sysfile Sysproc Trap Kbd Mp Ide Ulib Grep Sh Mkfs Umalloc Frames Refs ArgSafe
begin

text \<open>
  A verification of the xv6 kernel with the scheduling extensions of this repository. The theories
  follow the kernel's files from the bottom up.
\<close>

end
